(* ===== verification/Qusb_Prelude.thy ===== *)
theory Qusb_Prelude
  imports Main "HOL-Library.Word"
begin

text \<open>
  Shared vocabulary of the development: machine integers, the outcome type that makes
  panics and broken \<^verbatim>\<open>unsafe\<close> contracts visible, \<^verbatim>\<open>usize\<close> arithmetic with the overflow
  checks of the build profile, little-endian byte lists, and the list, word and map lemmas
  the components share.
\<close>

unbundle bit_operations_syntax

named_theorems run_simps \<open>unfolding the outcome combinators\<close>
named_theorems le_simps \<open>little-endian encodings and their inverses\<close>

section \<open>Machine integers\<close>

type_synonym u8 = "8 word"
type_synonym u16 = "16 word"
type_synonym u32 = "32 word"
type_synonym u64 = "64 word"
type_synonym bytes = "u8 list"

lemma unat_u8_less [simp]: "unat (x :: u8) < 256"
  using unsigned_less [of x] by simp

lemma unat_u16_less [simp]: "unat (x :: u16) < 65536"
  using unsigned_less [of x] by simp

lemma unat_u32_less [simp]: "unat (x :: u32) < 4294967296"
  using unsigned_less [of x] by simp

lemma unat_u16_le [simp]: "unat (x :: u16) \<le> 65535"
  using unat_u16_less [of x] by linarith

section \<open>Outcomes\<close>

text \<open>
  \<open>Ret\<close> is a normal return, \<open>Panic\<close> is an unwound task (\<^verbatim>\<open>unwrap\<close>, \<^verbatim>\<open>assert!\<close>,
  \<^verbatim>\<open>todo!\<close>, \<^verbatim>\<open>unimplemented!\<close>, an index out of range), and \<open>Undef\<close> is the violation
  of the contract of an \<^verbatim>\<open>unsafe\<close> call.
\<close>

datatype 'a run = Ret 'a | Panic | Undef

fun rbind :: "'a run \<Rightarrow> ('a \<Rightarrow> 'b run) \<Rightarrow> 'b run" where
  "rbind (Ret x) f = f x"
| "rbind Panic f = Panic"
| "rbind Undef f = Undef"

definition unwrap :: "'a option \<Rightarrow> 'a run" where
  "unwrap x = (case x of None \<Rightarrow> Panic | Some y \<Rightarrow> Ret y)"

definition assert_that :: "bool \<Rightarrow> unit run" where
  "assert_that b = (if b then Ret () else Panic)"

lemma unwrap_simps [simp, run_simps]: "unwrap None = Panic" "unwrap (Some x) = Ret x"
  by (simp_all add: unwrap_def)

lemma assert_that_simps [simp, run_simps]: "assert_that True = Ret ()" "assert_that False = Panic"
  by (simp_all add: assert_that_def)

lemma rbind_Ret_right [simp]: "rbind m Ret = m"
  by (cases m) simp_all

lemma rbind_assoc [run_simps]: "rbind (rbind m f) g = rbind m (\<lambda>x. rbind (f x) g)"
  by (cases m) simp_all

lemma rbind_eq_Ret: "rbind m f = Ret y \<longleftrightarrow> (\<exists>x. m = Ret x \<and> f x = Ret y)"
  by (cases m) simp_all

lemma rbind_RetE:
  assumes "rbind m f = Ret y"
  obtains x where "m = Ret x" and "f x = Ret y"
  using assms by (auto simp: rbind_eq_Ret)

lemma assert_that_Ret [simp]: "assert_that b = Ret u \<longleftrightarrow> b"
  by (simp add: assert_that_def)

lemma unwrap_eq_Ret [simp]: "unwrap x = Ret y \<longleftrightarrow> x = Some y"
  by (cases x) simp_all

section \<open>Lists and options\<close>

lemma append_prefixE:
  assumes "xs @ ys = ps @ zs" and "length ps \<le> length xs"
  obtains us where "xs = ps @ us" and "us @ ys = zs"
  using assms by (auto simp: append_eq_append_conv2)

lemma not_Some_unit: "(x :: unit option) \<noteq> Some () \<longleftrightarrow> x = None"
  by (cases x) simp_all

section \<open>Arithmetic on \<open>usize\<close>\<close>

text \<open>
  Lengths are naturals below \<open>2 ^ 64\<close>. The flag \<open>chk\<close> says whether the build has overflow
  checks (the debug profile panics, the release profiles wrap around).
\<close>

definition usize_sub :: "bool \<Rightarrow> nat \<Rightarrow> nat \<Rightarrow> nat run" where
  "usize_sub chk a b =
     (if b \<le> a then Ret (a - b) else if chk then Panic else Ret (2 ^ 64 + a - b))"

definition usize_add :: "bool \<Rightarrow> nat \<Rightarrow> nat \<Rightarrow> nat run" where
  "usize_add chk a b =
     (if a + b < 2 ^ 64 then Ret (a + b) else if chk then Panic else Ret ((a + b) mod 2 ^ 64))"

text \<open>The same for a product of two \<^verbatim>\<open>u16\<close> values.\<close>

definition u16_mul :: "bool \<Rightarrow> u16 \<Rightarrow> u16 \<Rightarrow> u16 run" where
  "u16_mul chk a b = (if unat a * unat b < 2 ^ 16 \<or> \<not> chk then Ret (a * b) else Panic)"

lemma usize_sub_le [simp]: "b \<le> a \<Longrightarrow> usize_sub chk a b = Ret (a - b)"
  by (simp add: usize_sub_def)

lemma usize_add_small [simp]: "a + b < 2 ^ 64 \<Longrightarrow> usize_add chk a b = Ret (a + b)"
  by (simp add: usize_add_def)

text \<open>The next multiple of eight, the unit of every message.\<close>

definition up8 :: "nat \<Rightarrow> nat" where
  "up8 n = (n + 7) div 8 * 8"

lemma up8_ge [simp]: "n \<le> up8 n"
  unfolding up8_def by presburger

lemma up8_less: "up8 n < n + 8"
  unfolding up8_def by presburger

lemma up8_mod [simp]: "up8 n mod 8 = 0"
  by (simp add: up8_def)

lemma up8_0 [simp]: "up8 0 = 0"
  by (simp add: up8_def)

lemma up8_mono: "m \<le> n \<Longrightarrow> up8 m \<le> up8 n"
  by (simp add: up8_def div_le_mono)

lemma up8_id: "n mod 8 = 0 \<Longrightarrow> up8 n = n"
  unfolding up8_def by presburger

lemma mod8_add: "(a :: nat) mod 8 = 0 \<Longrightarrow> b mod 8 = 0 \<Longrightarrow> (a + b) mod 8 = 0"
  by presburger

lemma mod8_mult: "(b :: nat) mod 8 = 0 \<Longrightarrow> (a * b) mod 8 = 0"
  by (metis mod_mult_right_eq mult_0_right mod_0)

section \<open>Little-endian bytes\<close>

definition le16 :: "u16 \<Rightarrow> bytes" where
  "le16 w = [ucast w, ucast (drop_bit 8 w)]"

definition le32 :: "u32 \<Rightarrow> bytes" where
  "le32 w = [ucast w, ucast (drop_bit 8 w), ucast (drop_bit 16 w), ucast (drop_bit 24 w)]"

definition le64 :: "u64 \<Rightarrow> bytes" where
  "le64 w = le32 (ucast w) @ le32 (ucast (drop_bit 32 w))"

definition un16 :: "u8 \<Rightarrow> u8 \<Rightarrow> u16" where
  "un16 a b = ucast a OR push_bit 8 (ucast b)"

definition un32 :: "u8 \<Rightarrow> u8 \<Rightarrow> u8 \<Rightarrow> u8 \<Rightarrow> u32" where
  "un32 a b c d =
     ucast a OR push_bit 8 (ucast b) OR push_bit 16 (ucast c) OR push_bit 24 (ucast d)"

fun un64 :: "bytes \<Rightarrow> u64" where
  "un64 [a, b, c, d, e, f, g, h] = ucast (un32 a b c d) OR push_bit 32 (ucast (un32 e f g h))"
| "un64 _ = 0"

lemma length_le [simp]: "length (le16 w) = 2" "length (le32 v) = 4" "length (le64 u) = 8"
  by (simp_all add: le16_def le32_def le64_def)

lemma un16_le16 [simp, le_simps]: "un16 (ucast w) (ucast (drop_bit 8 w)) = w"
  by (rule bit_word_eqI) (auto simp: un16_def bit_simps)

lemma un32_le32 [simp, le_simps]:
  "un32 (ucast w) (ucast (drop_bit 8 w)) (ucast (drop_bit 16 w)) (ucast (drop_bit 24 w)) = w"
proof (rule bit_word_eqI)
  fix n :: nat
  assume "n < LENGTH(32)"
  then consider "n < 8" | "8 \<le> n \<and> n < 16" | "16 \<le> n \<and> n < 24" | "24 \<le> n \<and> n < 32"
    by fastforce
  then show "bit (un32 (ucast w) (ucast (drop_bit 8 w)) (ucast (drop_bit 16 w))
      (ucast (drop_bit 24 w))) n = bit w n"
    by cases (auto simp: un32_def bit_simps)
qed

lemma le16_un16 [simp, le_simps]: "le16 (un16 a b) = [a, b]"
proof -
  have "ucast (un16 a b) = a" by (rule bit_word_eqI) (auto simp: un16_def bit_simps dest: bit_imp_le_length)
  moreover have "ucast (drop_bit 8 (un16 a b)) = b"
    by (rule bit_word_eqI) (auto simp: un16_def bit_simps dest: bit_imp_le_length)
  ultimately show ?thesis by (simp add: le16_def)
qed

lemma le32_un32 [simp, le_simps]: "le32 (un32 a b c d) = [a, b, c, d]"
proof -
  have "ucast (un32 a b c d) = a" by (rule bit_word_eqI) (auto simp: un32_def bit_simps dest: bit_imp_le_length)
  moreover have "ucast (drop_bit 8 (un32 a b c d)) = b"
    by (rule bit_word_eqI) (auto simp: un32_def bit_simps dest: bit_imp_le_length)
  moreover have "ucast (drop_bit 16 (un32 a b c d)) = c"
    by (rule bit_word_eqI) (auto simp: un32_def bit_simps dest: bit_imp_le_length)
  moreover have "ucast (drop_bit 24 (un32 a b c d)) = d"
    by (rule bit_word_eqI) (auto simp: un32_def bit_simps dest: bit_imp_le_length)
  ultimately show ?thesis by (simp add: le32_def)
qed

lemma un64_le64 [simp, le_simps]: "un64 (le64 w) = w"
proof -
  have "ucast (ucast w :: u32) OR push_bit 32 (ucast (ucast (drop_bit 32 w) :: u32)) = w"
    by (rule bit_word_eqI) (auto simp: bit_simps)
  then show ?thesis by (simp add: le64_def le32_def)
qed

lemma le64_un64: "length bs = 8 \<Longrightarrow> le64 (un64 bs) = bs"
proof -
  assume "length bs = 8"
  then obtain a b c d e f g h where bs: "bs = [a, b, c, d, e, f, g, h]"
    by (auto simp: numeral_eq_Suc length_Suc_conv)
  let ?lo = "un32 a b c d" and ?hi = "un32 e f g h"
  let ?w = "ucast ?lo OR push_bit 32 (ucast ?hi) :: u64"
  have "ucast ?w = ?lo" by (rule bit_word_eqI) (auto simp: bit_simps)
  moreover have "ucast (drop_bit 32 ?w) = ?hi" by (rule bit_word_eqI) (auto simp: bit_simps dest: bit_imp_le_length)
  ultimately show ?thesis using bs by (simp add: le64_def)
qed

section \<open>Fixed-size binary layouts\<close>

text \<open>
  The contract of \<^verbatim>\<open>TryFromBytes\<close> and \<^verbatim>\<open>IntoBytes\<close> as the wire types use it: a value has a
  fixed number of bytes, decoding inverts encoding, and only encodings decode. The clients
  (reading a value from a receive buffer, the sequence of values on a stream) rely on these
  laws only.
\<close>

locale layout =
  fixes enc :: "'a \<Rightarrow> bytes"
    and dec :: "bytes \<Rightarrow> 'a option"
    and sz :: nat
    and wf :: "'a \<Rightarrow> bool"
  assumes length_enc: "wf x \<Longrightarrow> length (enc x) = sz"
    and dec_enc: "wf x \<Longrightarrow> dec (enc x) = Some x"
    and enc_dec: "dec bs = Some x \<Longrightarrow> wf x \<and> enc x = bs"
begin

lemma enc_inject: "wf x \<Longrightarrow> wf y \<Longrightarrow> enc x = enc y \<Longrightarrow> x = y"
  by (metis dec_enc option.inject)

lemma dec_length: "dec bs = Some x \<Longrightarrow> length bs = sz"
  using enc_dec length_enc by blast

lemma dec_iff: "dec bs = Some x \<longleftrightarrow> wf x \<and> bs = enc x"
  using dec_enc enc_dec by blast

lemma dec_prefix: "wf x \<Longrightarrow> dec (take sz (enc x @ rest)) = Some x"
  by (simp add: length_enc dec_enc)

end

text \<open>
  A field-less enum with \<^verbatim>\<open>#[repr(u8)]\<close> is one byte, its discriminant; a byte that is no
  discriminant does not decode. It is a layout of one byte.
\<close>

locale byte_enum =
  fixes to_u8 :: "'a \<Rightarrow> u8"
    and of_u8 :: "u8 \<Rightarrow> 'a option"
  assumes of_to: "of_u8 (to_u8 x) = Some x"
    and to_of: "of_u8 b = Some x \<Longrightarrow> to_u8 x = b"
begin

lemma to_u8_inject [simp]: "to_u8 x = to_u8 y \<longleftrightarrow> x = y"
  by (metis of_to option.inject)

lemma of_u8_Some: "of_u8 b = Some x \<longleftrightarrow> b = to_u8 x"
  using of_to to_of by blast

lemma of_u8_None: "of_u8 b = None \<longleftrightarrow> (\<forall>x. to_u8 x \<noteq> b)"
  using of_u8_Some by (metis not_None_eq)

end

sublocale byte_enum \<subseteq> layout "\<lambda>x. [to_u8 x]"
  "\<lambda>bs. case bs of [b] \<Rightarrow> of_u8 b | _ \<Rightarrow> None" 1 "\<lambda>_. True"
  by unfold_locales (auto simp: of_to dest: to_of split: list.splits)

definition enum_of_u8 :: "('a \<Rightarrow> u8) \<Rightarrow> 'a list \<Rightarrow> u8 \<Rightarrow> 'a option" where
  "enum_of_u8 f xs b = find (\<lambda>x. f x = b) xs"

lemma byte_enumI:
  assumes "\<And>x. x \<in> set xs" and "distinct (map f xs)"
  shows "byte_enum f (enum_of_u8 f xs)"
proof
  have inj: "inj_on f (set xs)" using assms(2) by (simp add: distinct_map)
  fix x
  have "find (\<lambda>y. y = x) xs = Some x"
    using assms(1) [of x] by (induction xs) auto
  moreover have "(\<lambda>y. f y = f x) = (\<lambda>y. y = x)"
    using inj assms(1) by (auto simp: inj_on_def)
  ultimately show "enum_of_u8 f xs (f x) = Some x"
    by (simp add: enum_of_u8_def)
next
  fix b x
  assume "enum_of_u8 f xs b = Some x"
  then show "f x = b" by (auto simp: enum_of_u8_def find_Some_iff)
qed

end
