(* ===== verification/Proto_Msg.thy ===== *)
theory Proto_Msg
  imports Qusb_Prelude
begin

text \<open>
  The wire types of \<^verbatim>\<open>crates/qusb-proto/src/msg.rs\<close>, the error enums of
  \<^verbatim>\<open>crates/qusb-proto/src/lib.rs\<close> and their byte layouts. The host is little-endian, as the
  source assumes. A record field is prefixed where two structs of the source share a name.
  A setup packet (\<^verbatim>\<open>vhci::ioctl::IocSetupPacket\<close>, a type of another crate) is its eight raw
  bytes; the size of \<^verbatim>\<open>IocIsoPacketData\<close> is the parameter \<open>iso_sz\<close>.
\<close>

section \<open>Versions and statuses\<close>

record version =
  major :: u8
  minor :: u8
  patch :: u16

definition is_compat :: "version \<Rightarrow> version \<Rightarrow> bool" where
  "is_compat v w \<longleftrightarrow> major v = major w \<and> minor v = minor w"

definition QUSB_VER :: version where
  "QUSB_VER = \<lparr>major = 0, minor = 4, patch = 0\<rparr>"

definition version_as_bytes :: "version \<Rightarrow> bytes" where
  "version_as_bytes v = [major v, minor v] @ le16 (patch v)"

fun version_from_bytes :: "bytes \<Rightarrow> version option" where
  "version_from_bytes [a, b, c, d] = Some \<lparr>major = a, minor = b, patch = un16 c d\<rparr>"
| "version_from_bytes _ = None"

datatype status =
    Success | Failed | DevBusy | DevErr | NoDev | Unexpected | VersionMismatch | Timeout | Proto

fun status_to_u8 :: "status \<Rightarrow> u8" where
  "status_to_u8 Success = 0"
| "status_to_u8 Failed = 1"
| "status_to_u8 DevBusy = 2"
| "status_to_u8 DevErr = 3"
| "status_to_u8 NoDev = 4"
| "status_to_u8 Unexpected = 5"
| "status_to_u8 VersionMismatch = 6"
| "status_to_u8 Timeout = 7"
| "status_to_u8 Proto = 8"

definition status_of_u8 :: "u8 \<Rightarrow> status option" where
  "status_of_u8 = enum_of_u8 status_to_u8
     [Success, Failed, DevBusy, DevErr, NoDev, Unexpected, VersionMismatch, Timeout, Proto]"

text \<open>The errors of \<^verbatim>\<open>lib.rs\<close>: those that end a session, and those the VHCI driver is told.\<close>

datatype abortable_error = InvalidData | DeviceDisconnected | AbortProto | Oops | Other

fun as_proto :: "abortable_error \<Rightarrow> status" where
  "as_proto InvalidData = Proto"
| "as_proto DeviceDisconnected = NoDev"
| "as_proto AbortProto = DevErr"
| "as_proto Oops = Failed"
| "as_proto Other = Unexpected"

fun status_from_result :: "abortable_error + unit \<Rightarrow> status" where
  "status_from_result (Inr _) = Success"
| "status_from_result (Inl err) = as_proto err"

datatype reportable_error = TimedOut | Cancelled | Stall | Overflow | NotEnoughBandwidth

fun reportable_to_u8 :: "reportable_error \<Rightarrow> u8" where
  "reportable_to_u8 TimedOut = 2"
| "reportable_to_u8 Cancelled = 3"
| "reportable_to_u8 Stall = 4"
| "reportable_to_u8 Overflow = 5"
| "reportable_to_u8 NotEnoughBandwidth = 6"

datatype transfer_error = Reportable reportable_error | Abortable abortable_error

datatype transfer_status =
    TS_Success | TS_Pending | TS_TimedOut | TS_Cancelled | TS_Stall | TS_Overflow
  | TS_NotEnoughBandwidth

fun transfer_status_to_u8 :: "transfer_status \<Rightarrow> u8" where
  "transfer_status_to_u8 TS_Success = 0"
| "transfer_status_to_u8 TS_Pending = 1"
| "transfer_status_to_u8 TS_TimedOut = reportable_to_u8 TimedOut"
| "transfer_status_to_u8 TS_Cancelled = reportable_to_u8 Cancelled"
| "transfer_status_to_u8 TS_Stall = reportable_to_u8 Stall"
| "transfer_status_to_u8 TS_Overflow = reportable_to_u8 Overflow"
| "transfer_status_to_u8 TS_NotEnoughBandwidth = reportable_to_u8 NotEnoughBandwidth"

definition transfer_status_of_u8 :: "u8 \<Rightarrow> transfer_status option" where
  "transfer_status_of_u8 = enum_of_u8 transfer_status_to_u8
     [TS_Success, TS_Pending, TS_TimedOut, TS_Cancelled, TS_Stall, TS_Overflow,
      TS_NotEnoughBandwidth]"

fun ts_from_reportable :: "reportable_error \<Rightarrow> transfer_status" where
  "ts_from_reportable TimedOut = TS_TimedOut"
| "ts_from_reportable Cancelled = TS_Cancelled"
| "ts_from_reportable Stall = TS_Stall"
| "ts_from_reportable Overflow = TS_Overflow"
| "ts_from_reportable NotEnoughBandwidth = TS_NotEnoughBandwidth"

fun ts_from_result :: "reportable_error + unit \<Rightarrow> transfer_status" where
  "ts_from_result (Inr _) = TS_Success"
| "ts_from_result (Inl err) = ts_from_reportable err"

fun try_from_transfer_status :: "transfer_status \<Rightarrow> reportable_error option" where
  "try_from_transfer_status TS_Success = None"
| "try_from_transfer_status TS_Pending = None"
| "try_from_transfer_status TS_TimedOut = Some TimedOut"
| "try_from_transfer_status TS_Cancelled = Some Cancelled"
| "try_from_transfer_status TS_Stall = Some Stall"
| "try_from_transfer_status TS_Overflow = Some Overflow"
| "try_from_transfer_status TS_NotEnoughBandwidth = Some NotEnoughBandwidth"

text \<open>
  The statuses of the VHCI driver that the source names; any other status is \<open>V_Other\<close>.
\<close>

datatype vhci_status =
    V_Success | V_Pending | V_ShortPacket | V_Error | V_Canceled | V_TimedOut
  | V_DeviceDisconnected | V_Stall | V_BitStuff | V_Crc | V_NoResponse | V_Babble
  | V_BufferOverrun | V_BufferUnderrun | V_AllIsoPacketsFailed | V_Other nat

fun vhci_from_ts :: "transfer_status \<Rightarrow> vhci_status" where
  "vhci_from_ts TS_Success = V_Success"
| "vhci_from_ts TS_Pending = V_Pending"
| "vhci_from_ts TS_TimedOut = V_TimedOut"
| "vhci_from_ts TS_Cancelled = V_Canceled"
| "vhci_from_ts TS_Stall = V_Stall"
| "vhci_from_ts TS_Overflow = V_Babble"
| "vhci_from_ts TS_NotEnoughBandwidth = V_Error"

fun status_from_vhci :: "vhci_status \<Rightarrow> status run" where
  "status_from_vhci V_Pending = Panic"
| "status_from_vhci V_ShortPacket = Panic"
| "status_from_vhci V_Error = Ret DevErr"
| "status_from_vhci V_DeviceDisconnected = Ret NoDev"
| "status_from_vhci V_BitStuff = Panic"
| "status_from_vhci V_Crc = Panic"
| "status_from_vhci V_NoResponse = Panic"
| "status_from_vhci V_BufferOverrun = Panic"
| "status_from_vhci V_BufferUnderrun = Panic"
| "status_from_vhci V_AllIsoPacketsFailed = Panic"
| "status_from_vhci _ = Ret Success"

section \<open>Devices, directions, endpoints and kinds\<close>

record usb_device_id =
  bus_number :: u8
  device_addr :: u8

datatype dir = Out | In

fun dir_to_u8 :: "dir \<Rightarrow> u8" where
  "dir_to_u8 Out = 0"
| "dir_to_u8 In = 128"

definition dir_from_u8 :: "u8 \<Rightarrow> dir run" where
  "dir_from_u8 num =
     (if num AND 0x80 = 0 then Ret Out else if num AND 0x80 = 128 then Ret In else Panic)"

datatype transfer_kind = Isochronous | Interrupt | Control | Bulk

fun transfer_kind_to_u8 :: "transfer_kind \<Rightarrow> u8" where
  "transfer_kind_to_u8 Isochronous = 0"
| "transfer_kind_to_u8 Interrupt = 1"
| "transfer_kind_to_u8 Control = 2"
| "transfer_kind_to_u8 Bulk = 3"

definition transfer_kind_of_u8 :: "u8 \<Rightarrow> transfer_kind option" where
  "transfer_kind_of_u8 = enum_of_u8 transfer_kind_to_u8 [Isochronous, Interrupt, Control, Bulk]"

datatype urb_type = UrbIso | UrbInt | UrbCtrl | UrbBulk

fun urb_type_from_kind :: "transfer_kind \<Rightarrow> urb_type" where
  "urb_type_from_kind Isochronous = UrbIso"
| "urb_type_from_kind Interrupt = UrbInt"
| "urb_type_from_kind Control = UrbCtrl"
| "urb_type_from_kind Bulk = UrbBulk"

fun kind_from_urb_type :: "urb_type \<Rightarrow> transfer_kind" where
  "kind_from_urb_type UrbIso = Isochronous"
| "kind_from_urb_type UrbInt = Interrupt"
| "kind_from_urb_type UrbCtrl = Control"
| "kind_from_urb_type UrbBulk = Bulk"

datatype data_rate = RateLow | RateFull | RateHigh

fun data_rate_to_u8 :: "data_rate \<Rightarrow> u8" where
  "data_rate_to_u8 RateLow = 0"
| "data_rate_to_u8 RateFull = 1"
| "data_rate_to_u8 RateHigh = 2"

definition data_rate_of_u8 :: "u8 \<Rightarrow> data_rate option" where
  "data_rate_of_u8 = enum_of_u8 data_rate_to_u8 [RateLow, RateFull, RateHigh]"

datatype speed = SpUnknown | SpLow | SpFull | SpHigh | SpSuper | SpSuperPlus

fun speed_to_u8 :: "speed \<Rightarrow> u8" where
  "speed_to_u8 SpUnknown = 0"
| "speed_to_u8 SpLow = 1"
| "speed_to_u8 SpFull = 2"
| "speed_to_u8 SpHigh = 3"
| "speed_to_u8 SpSuper = 4"
| "speed_to_u8 SpSuperPlus = 5"

definition speed_of_u8 :: "u8 \<Rightarrow> speed option" where
  "speed_of_u8 = enum_of_u8 speed_to_u8 [SpUnknown, SpLow, SpFull, SpHigh, SpSuper, SpSuperPlus]"

definition speed_from_u8 :: "u8 \<Rightarrow> speed" where
  "speed_from_u8 num = (case speed_of_u8 num of None \<Rightarrow> SpUnknown | Some s \<Rightarrow> s)"

text \<open>The derived order of \<^verbatim>\<open>Speed\<close> is the order of its discriminants.\<close>

instantiation speed :: linorder
begin

definition less_eq_speed :: "speed \<Rightarrow> speed \<Rightarrow> bool" where
  "less_eq_speed s t \<longleftrightarrow> speed_to_u8 s \<le> speed_to_u8 t"

definition less_speed :: "speed \<Rightarrow> speed \<Rightarrow> bool" where
  "less_speed s t \<longleftrightarrow> speed_to_u8 s < speed_to_u8 t"

instance
proof
  fix s t :: speed
  show "s \<le> t \<Longrightarrow> t \<le> s \<Longrightarrow> s = t"
    by (cases s; cases t) (simp_all add: less_eq_speed_def word_le_nat_alt)
qed (auto simp: less_eq_speed_def less_speed_def)

end

section \<open>Requests and responses\<close>

text \<open>Padding fields hold arbitrary bytes; their length is fixed by the type.\<close>

datatype req =
    ReqListDevices "bytes"
  | ReqBorrowDevice "bytes" usb_device_id
  | ReqLendDevice data_rate usb_device_id

fun wf_req :: "req \<Rightarrow> bool" where
  "wf_req (ReqListDevices pad) = (length pad = 3)"
| "wf_req (ReqBorrowDevice pad _) = (length pad = 1)"
| "wf_req (ReqLendDevice _ _) = True"

definition dev_id_as_bytes :: "usb_device_id \<Rightarrow> bytes" where
  "dev_id_as_bytes d = [bus_number d, device_addr d]"

fun req_as_bytes :: "req \<Rightarrow> bytes" where
  "req_as_bytes (ReqListDevices pad) = 0 # pad"
| "req_as_bytes (ReqBorrowDevice pad d) = 1 # pad @ dev_id_as_bytes d"
| "req_as_bytes (ReqLendDevice rate d) = [2, data_rate_to_u8 rate] @ dev_id_as_bytes d"

fun req_from_bytes :: "bytes \<Rightarrow> req option" where
  "req_from_bytes [t, a, b, c] =
     (if t = 0 then Some (ReqListDevices [a, b, c])
      else if t = 1 then Some (ReqBorrowDevice [a] \<lparr>bus_number = b, device_addr = c\<rparr>)
      else if t = 2 then
        map_option (\<lambda>rate. ReqLendDevice rate \<lparr>bus_number = b, device_addr = c\<rparr>)
          (data_rate_of_u8 a)
      else None)"
| "req_from_bytes _ = None"

text \<open>
  \<^verbatim>\<open>ReqFrame\<close> carries no \<^verbatim>\<open>#[repr(C)]\<close>, so the compiler chooses the order of its two fields:
  \<open>req_first\<close> is that choice.
\<close>

record req_frame =
  rf_version :: version
  rf_req :: req

definition req_frame_as_bytes :: "bool \<Rightarrow> req_frame \<Rightarrow> bytes" where
  "req_frame_as_bytes req_first f =
     (if req_first then req_as_bytes (rf_req f) @ version_as_bytes (rf_version f)
      else version_as_bytes (rf_version f) @ req_as_bytes (rf_req f))"

definition req_frame_from_bytes :: "bool \<Rightarrow> bytes \<Rightarrow> req_frame option" where
  "req_frame_from_bytes req_first bs =
     (let (v, r) = (if req_first then (drop 4 bs, take 4 bs) else (take 4 bs, drop 4 bs))
      in case (version_from_bytes v, req_from_bytes r) of
           (Some v', Some r') \<Rightarrow> Some \<lparr>rf_version = v', rf_req = r'\<rparr>
         | _ \<Rightarrow> None)"

datatype version_opt = SomeVersion version | NoVersion bytes

fun wf_version_opt :: "version_opt \<Rightarrow> bool" where
  "wf_version_opt (SomeVersion _) = True"
| "wf_version_opt (NoVersion pad) = (length pad = 4)"

fun version_opt_as_bytes :: "version_opt \<Rightarrow> bytes" where
  "version_opt_as_bytes (SomeVersion v) = le16 0 @ version_as_bytes v"
| "version_opt_as_bytes (NoVersion pad) = le16 1 @ pad"

fun version_opt_from_bytes :: "bytes \<Rightarrow> version_opt option" where
  "version_opt_from_bytes (t0 # t1 # bs) =
     (if un16 t0 t1 = 0 then map_option SomeVersion (version_from_bytes bs)
      else if un16 t0 t1 = 1 \<and> length bs = 4 then Some (NoVersion bs)
      else None)"
| "version_opt_from_bytes _ = None"

datatype resp =
    RespListDevices bytes
  | RespBorrowDevice data_rate bytes
  | RespLendDevice bytes
  | RespFailure status version_opt

fun wf_resp :: "resp \<Rightarrow> bool" where
  "wf_resp (RespListDevices pad) = (length pad = 7)"
| "wf_resp (RespBorrowDevice _ pad) = (length pad = 6)"
| "wf_resp (RespLendDevice pad) = (length pad = 7)"
| "wf_resp (RespFailure _ ver) = wf_version_opt ver"

fun resp_as_bytes :: "resp \<Rightarrow> bytes" where
  "resp_as_bytes (RespListDevices pad) = 0 # pad"
| "resp_as_bytes (RespBorrowDevice rate pad) = [1, data_rate_to_u8 rate] @ pad"
| "resp_as_bytes (RespLendDevice pad) = 2 # pad"
| "resp_as_bytes (RespFailure stat ver) = [3, status_to_u8 stat] @ version_opt_as_bytes ver"

definition resp_from_bytes :: "bytes \<Rightarrow> resp option" where
  "resp_from_bytes bs =
     (if length bs \<noteq> 8 then None
      else if bs ! 0 = 0 then Some (RespListDevices (tl bs))
      else if bs ! 0 = 1 then
        map_option (\<lambda>rate. RespBorrowDevice rate (drop 2 bs)) (data_rate_of_u8 (bs ! 1))
      else if bs ! 0 = 2 then Some (RespLendDevice (tl bs))
      else if bs ! 0 = 3 then
        (case (status_of_u8 (bs ! 1), version_opt_from_bytes (drop 2 bs)) of
           (Some stat, Some ver) \<Rightarrow> Some (RespFailure stat ver)
         | _ \<Rightarrow> None)
      else None)"

section \<open>Frame headers\<close>

datatype command = CmdSubmit | CmdUnlink | CmdPort | RetSubmit | RetPort

fun command_to_u8 :: "command \<Rightarrow> u8" where
  "command_to_u8 CmdSubmit = 0"
| "command_to_u8 CmdUnlink = 1"
| "command_to_u8 CmdPort = 2"
| "command_to_u8 RetSubmit = 3"
| "command_to_u8 RetPort = 4"

definition command_of_u8 :: "u8 \<Rightarrow> command option" where
  "command_of_u8 = enum_of_u8 command_to_u8 [CmdSubmit, CmdUnlink, CmdPort, RetSubmit, RetPort]"

record header =
  total_frame_len :: u16
  command :: command
  hdr_status :: status
  seqnum :: u32

definition header_as_bytes :: "header \<Rightarrow> bytes" where
  "header_as_bytes h = le16 (total_frame_len h) @
     [command_to_u8 (command h), status_to_u8 (hdr_status h)] @ le32 (seqnum h)"

fun header_from_bytes :: "bytes \<Rightarrow> header option" where
  "header_from_bytes [l0, l1, c, s, n0, n1, n2, n3] =
     (case (command_of_u8 c, status_of_u8 s) of
        (Some cmd, Some st) \<Rightarrow>
          Some \<lparr>total_frame_len = un16 l0 l1, command = cmd, hdr_status = st,
            seqnum = un32 n0 n1 n2 n3\<rparr>
      | _ \<Rightarrow> None)"
| "header_from_bytes _ = None"

definition header_as_u64_le :: "header \<Rightarrow> u64" where
  "header_as_u64_le h = un64 (header_as_bytes h)"

definition compress_frame_len :: "nat \<Rightarrow> u16" where
  "compress_frame_len len = of_nat (len div 8)"

type_synonym setup_packet = u64

record urb_header =
  actual_transfer_len :: u16
  iso_packet_count :: u16
  endpoint :: u8
  kind :: transfer_kind
  interval :: u16
  urb_status :: transfer_status
  uh_padding :: "u8 \<times> u8 \<times> u8"
  flags :: u16
  num_errors :: u16
  ctrl_packet :: setup_packet

definition urb_header_as_bytes :: "urb_header \<Rightarrow> bytes" where
  "urb_header_as_bytes h =
     le16 (actual_transfer_len h) @ le16 (iso_packet_count h) @
     [endpoint h, transfer_kind_to_u8 (kind h)] @ le16 (interval h) @
     [transfer_status_to_u8 (urb_status h)] @
     (case uh_padding h of (a, b, c) \<Rightarrow> [a, b, c]) @
     le16 (flags h) @ le16 (num_errors h) @ le64 (ctrl_packet h)"

fun urb_header_from_bytes :: "bytes \<Rightarrow> urb_header option" where
  "urb_header_from_bytes (l0 # l1 # p0 # p1 # ep # k # i0 # i1 # st # a # b # c #
      f0 # f1 # e0 # e1 # pkt) =
     (case (transfer_kind_of_u8 k, transfer_status_of_u8 st) of
        (Some k', Some st') \<Rightarrow>
          if length pkt = 8 then
            Some \<lparr>actual_transfer_len = un16 l0 l1, iso_packet_count = un16 p0 p1,
              endpoint = ep, kind = k', interval = un16 i0 i1, urb_status = st',
              uh_padding = (a, b, c), flags = un16 f0 f1, num_errors = un16 e0 e1,
              ctrl_packet = un64 pkt\<rparr>
          else None
      | _ \<Rightarrow> None)"
| "urb_header_from_bytes _ = None"

definition HEADER_SIZE :: nat where "HEADER_SIZE = 8"
definition URB_HEADER_SIZE :: nat where "URB_HEADER_SIZE = 24"

section \<open>Lengths and directions of a transfer\<close>

definition align :: "u64 \<Rightarrow> u64 \<Rightarrow> u64" where
  "align val alignment = (val + (alignment - 1)) AND NOT (alignment - 1)"

definition padded_transfer_len :: "urb_header \<Rightarrow> nat" where
  "padded_transfer_len h = unat (align (ucast (actual_transfer_len h)) 8)"

definition padding :: "u16 \<Rightarrow> bytes run" where
  "padding len =
     (let l = unat len; n = unat (align (ucast len) 8) - l
      in if n \<le> 7 then Ret (replicate n 0) else Panic)"

definition is_out :: "urb_header \<Rightarrow> bool" where
  "is_out h \<longleftrightarrow> dir_from_u8 (endpoint h) = Ret Out"

definition is_pending :: "urb_header \<Rightarrow> bool" where
  "is_pending h \<longleftrightarrow> urb_status h = TS_Pending"

definition is_reply :: "urb_header \<Rightarrow> bool" where
  "is_reply h \<longleftrightarrow> \<not> is_pending h"

definition iso_byte_len :: "nat \<Rightarrow> urb_header \<Rightarrow> nat" where
  "iso_byte_len iso_sz h = unat (iso_packet_count h) * iso_sz"

section \<open>The packed transfer kind\<close>

datatype urb_kind = KIso u8 | KInt | KCtrl | KBulk

definition PKT_MASK :: u8 where "PKT_MASK = 0b00111111"
definition MAX_PKTS :: u8 where "MAX_PKTS = 0b00111111"
definition KIND_MASK :: u8 where "KIND_MASK = 0b11000000"
definition KIND_ISO :: u8 where "KIND_ISO = 0b00000000"
definition KIND_INT :: u8 where "KIND_INT = 0b11000000"
definition KIND_CTRL :: u8 where "KIND_CTRL = 0b01000000"
definition KIND_BULK :: u8 where "KIND_BULK = 0b10000000"

definition packed_iso :: "u8 \<Rightarrow> u8 run" where
  "packed_iso num_pkts = rbind (assert_that (num_pkts \<le> MAX_PKTS)) (\<lambda>_. Ret num_pkts)"

definition packed_int :: u8 where "packed_int = KIND_INT"
definition packed_ctrl :: u8 where "packed_ctrl = KIND_CTRL"
definition packed_bulk :: u8 where "packed_bulk = KIND_BULK"

definition packed_num_pkts :: "u8 \<Rightarrow> u8" where
  "packed_num_pkts inner = inner AND PKT_MASK"

definition packed_get :: "u8 \<Rightarrow> urb_kind run" where
  "packed_get inner =
     (let k = inner AND KIND_MASK; pkts = packed_num_pkts inner
      in if k = KIND_ISO then Ret (KIso pkts)
         else if k = KIND_INT then Ret KInt
         else if k = KIND_CTRL then Ret KCtrl
         else if k = KIND_BULK then Ret KBulk
         else Panic)"

lemmas packed_defs = PKT_MASK_def MAX_PKTS_def KIND_MASK_def KIND_ISO_def KIND_INT_def
  KIND_CTRL_def KIND_BULK_def packed_int_def packed_ctrl_def packed_bulk_def
  packed_num_pkts_def packed_get_def packed_iso_def

section \<open>Facts: enums and layouts\<close>

text \<open>Every enum of the wire types is a byte enum.\<close>

interpretation status_enum: byte_enum status_to_u8 status_of_u8
  unfolding status_of_u8_def by (rule byte_enumI, case_tac x, simp_all)

interpretation transfer_status_enum: byte_enum transfer_status_to_u8 transfer_status_of_u8
  unfolding transfer_status_of_u8_def by (rule byte_enumI, case_tac x, simp_all)

interpretation transfer_kind_enum: byte_enum transfer_kind_to_u8 transfer_kind_of_u8
  unfolding transfer_kind_of_u8_def by (rule byte_enumI, case_tac x, simp_all)

interpretation data_rate_enum: byte_enum data_rate_to_u8 data_rate_of_u8
  unfolding data_rate_of_u8_def by (rule byte_enumI, case_tac x, simp_all)

interpretation speed_enum: byte_enum speed_to_u8 speed_of_u8
  unfolding speed_of_u8_def by (rule byte_enumI, case_tac x, simp_all)

interpretation command_enum: byte_enum command_to_u8 command_of_u8
  unfolding command_of_u8_def by (rule byte_enumI, case_tac x, simp_all)

lemmas enum_to_of = status_enum.to_of transfer_status_enum.to_of transfer_kind_enum.to_of
  data_rate_enum.to_of speed_enum.to_of command_enum.to_of

lemmas enum_of_to [simp] = status_enum.of_to transfer_status_enum.of_to transfer_kind_enum.of_to
  data_rate_enum.of_to speed_enum.of_to command_enum.of_to

interpretation version_layout: layout version_as_bytes version_from_bytes 4 "\<lambda>_. True"
proof unfold_locales
  fix bs v
  assume "version_from_bytes bs = Some v"
  then show "True \<and> version_as_bytes v = bs"
    by (cases rule: version_from_bytes.elims) (auto simp: version_as_bytes_def)
qed (simp_all add: version_as_bytes_def le16_def)

interpretation header_layout: layout header_as_bytes header_from_bytes HEADER_SIZE "\<lambda>_. True"
proof unfold_locales
  fix bs h
  assume "header_from_bytes bs = Some h"
  then show "True \<and> header_as_bytes h = bs"
    by (cases rule: header_from_bytes.elims)
      (auto simp: header_as_bytes_def dest: enum_to_of split: option.splits)
qed (simp_all add: header_as_bytes_def le16_def le32_def HEADER_SIZE_def)

interpretation urb_header_layout:
  layout urb_header_as_bytes urb_header_from_bytes URB_HEADER_SIZE "\<lambda>_. True"
proof unfold_locales
  fix bs h
  assume "urb_header_from_bytes bs = Some h"
  then show "True \<and> urb_header_as_bytes h = bs"
    by (cases rule: urb_header_from_bytes.elims)
      (auto simp: urb_header_as_bytes_def le64_un64 dest: enum_to_of split: option.splits if_splits)
next
  fix h :: urb_header
  show "urb_header_from_bytes (urb_header_as_bytes h) = Some h"
    by (cases "uh_padding h") (simp add: urb_header_as_bytes_def le16_def)
qed (simp_all add: urb_header_as_bytes_def URB_HEADER_SIZE_def split: prod.split)

lemma req_from_as_bytes: "wf_req r \<Longrightarrow> req_from_bytes (req_as_bytes r) = Some r"
  by (cases r) (auto simp: dev_id_as_bytes_def numeral_eq_Suc length_Suc_conv)

lemma length_req_as_bytes: "wf_req r \<Longrightarrow> length (req_as_bytes r) = 4"
  by (cases r) (auto simp: dev_id_as_bytes_def)

lemma req_as_from_bytes: "req_from_bytes bs = Some r \<Longrightarrow> wf_req r \<and> req_as_bytes r = bs"
proof -
  assume r: "req_from_bytes bs = Some r"
  then obtain t a b c where bs: "bs = [t, a, b, c]"
    by (cases bs rule: req_from_bytes.cases) auto
  show ?thesis
    using r unfolding bs by (auto simp: dev_id_as_bytes_def dest: enum_to_of split: if_splits)
qed

interpretation req_layout: layout req_as_bytes req_from_bytes 4 wf_req
  by unfold_locales (auto simp: req_from_as_bytes length_req_as_bytes dest: req_as_from_bytes)

interpretation req_frame_layout:
  layout "req_frame_as_bytes rf" "req_frame_from_bytes rf" 8 "\<lambda>f. wf_req (rf_req f)" for rf
proof unfold_locales
  fix bs f
  assume f: "req_frame_from_bytes rf bs = Some f"
  obtain v r where vr: "(v, r) = (if rf then (drop 4 bs, take 4 bs) else (take 4 bs, drop 4 bs))"
    by (cases rf) auto
  with f obtain v' r' where "version_from_bytes v = Some v'" "req_from_bytes r = Some r'"
    and "f = \<lparr>rf_version = v', rf_req = r'\<rparr>"
    by (auto simp: req_frame_from_bytes_def Let_def split: prod.splits option.splits)
  then show "wf_req (rf_req f) \<and> req_frame_as_bytes rf f = bs"
    using vr version_layout.enc_dec [of v v'] req_layout.enc_dec [of r r']
    by (auto simp: req_frame_as_bytes_def split: if_splits)
qed (auto simp: req_frame_as_bytes_def req_frame_from_bytes_def version_layout.length_enc
  req_layout.length_enc version_layout.dec_enc req_layout.dec_enc)

interpretation version_opt_layout: layout version_opt_as_bytes version_opt_from_bytes 6 wf_version_opt
proof unfold_locales
  fix bs v
  assume v: "version_opt_from_bytes bs = Some v"
  then obtain t0 t1 cs where bs: "bs = t0 # t1 # cs"
    by (cases bs rule: version_opt_from_bytes.cases) auto
  have tag: "un16 t0 t1 = w \<Longrightarrow> le16 w = [t0, t1]" for w by auto
  show "wf_version_opt v \<and> version_opt_as_bytes v = bs"
    using v unfolding bs by (auto simp: tag dest: version_layout.enc_dec split: if_splits)
next
  fix v :: version_opt
  assume "wf_version_opt v"
  then show "version_opt_from_bytes (version_opt_as_bytes v) = Some v"
    by (cases v) (simp_all add: le16_def un16_def version_layout.dec_enc)
  from \<open>wf_version_opt v\<close> show "length (version_opt_as_bytes v) = 6"
    by (cases v) (simp_all add: version_layout.length_enc)
qed

interpretation resp_layout: layout resp_as_bytes resp_from_bytes 8 wf_resp
proof unfold_locales
  fix bs r
  assume r: "resp_from_bytes bs = Some r"
  then have "length bs = 8" by (auto simp: resp_from_bytes_def split: if_splits)
  then obtain a b cs where bs: "bs = a # b # cs" "length cs = 6"
    by (auto simp: numeral_eq_Suc length_Suc_conv)
  with r show "wf_resp r \<and> resp_as_bytes r = bs"
    by (auto simp: resp_from_bytes_def dest: enum_to_of version_opt_layout.enc_dec
      split: if_splits option.splits)
next
  fix r
  assume wf: "wf_resp r"
  then show len: "length (resp_as_bytes r) = 8"
    by (cases r) (simp_all add: version_opt_layout.length_enc)
  with wf show "resp_from_bytes (resp_as_bytes r) = Some r"
    by (cases r) (simp_all add: resp_from_bytes_def version_opt_layout.dec_enc)
qed

section \<open>Facts: lengths, directions, padding\<close>

lemma and_not_mask_eq: "x AND NOT (mask k) = push_bit k (drop_bit k (x :: u64))"
  by (rule bit_word_eqI) (auto simp: bit_simps not_less)

lemma unat_mask_u64: "k < 64 \<Longrightarrow> unat (mask k :: u64) = 2 ^ k - 1"
proof -
  assume "k < 64"
  then have "unat (mask k :: u64) = mask k"
    by (intro bit_eqI) (auto simp: bit_unsigned_iff bit_mask_iff possible_bit_def)
  then show ?thesis by (simp add: mask_eq_exp_minus_1)
qed

lemma unat_and_not_mask: "unat (x AND NOT (mask k) :: u64) = unat x div 2 ^ k * 2 ^ k"
proof -
  have x: "unat x < 2 ^ 64" using unsigned_less [of x] by simp
  have le: "unat x div 2 ^ k * 2 ^ k < 2 ^ 64"
    by (rule le_less_trans [OF div_times_less_eq_dividend x])
  have d: "unat (drop_bit k x) = unat x div 2 ^ k"
    using x by (simp add: unsigned_drop_bit_eq take_bit_nat_eq_self del: drop_bit_eq_div) (simp add: drop_bit_eq_div)
  have "unat (push_bit k (drop_bit k x)) = take_bit 64 (unat (drop_bit k x) * 2 ^ k)"
    by (subst unsigned_push_bit_eq) (simp add: push_bit_eq_mult)
  with le d show ?thesis by (simp only: and_not_mask_eq take_bit_nat_eq_self)
qed

lemma unat_align:
  assumes "k < 64" and "unat v + 2 ^ k - 1 < 2 ^ 64"
  shows "unat (align v (2 ^ k)) = (unat v + 2 ^ k - 1) div 2 ^ k * 2 ^ k"
proof -
  have m: "2 ^ k - 1 = (mask k :: u64)" by (simp add: mask_eq_exp_minus_1)
  have "unat v + unat (mask k :: u64) < 2 ^ LENGTH(64)"
    using assms by (simp add: unat_mask_u64)
  then have "unat (v + mask k) = unat v + (2 ^ k - 1)"
    using assms(1) by (simp only: unat_mask_u64 unat_add_lem [THEN iffD1])
  then show ?thesis
    unfolding align_def m by (simp add: unat_and_not_mask)
qed

lemma unat_ucast_u16_u64 [simp]: "unat (ucast (w :: u16) :: u64) = unat w"
  by (simp add: unsigned_ucast_eq take_bit_nat_eq_self less_le_trans [OF unat_u16_less])

lemma unat_align8: "unat (align (ucast (w :: u16)) 8) = up8 (unat w)"
proof -
  have "unat (ucast w :: u64) + 2 ^ 3 - 1 < 2 ^ 64" using unat_u16_less [of w] by (simp del: unat_u16_less)
  then have "unat (align (ucast w) (2 ^ 3)) = (unat (ucast w :: u64) + 2 ^ 3 - 1) div 2 ^ 3 * 2 ^ 3"
    by (intro unat_align) simp_all
  then show ?thesis by (simp add: up8_def)
qed

lemma padded_transfer_len_eq: "padded_transfer_len h = up8 (unat (actual_transfer_len h))"
  by (simp add: padded_transfer_len_def unat_align8)

lemma padding_eq: "padding len = Ret (replicate (up8 (unat len) - unat len) 0)"
  using up8_less [of "unat len"] by (simp add: padding_def unat_align8 Let_def)

lemma dir_from_u8_eq: "dir_from_u8 n = Ret (if bit n 7 then In else Out)"
proof -
  have "n AND 128 = (if bit n 7 then 128 else 0)"
  proof (rule bit_word_eqI)
    fix i
    have "bit (128 :: u8) i \<longleftrightarrow> i = 7" if "i < 8"
      using that bit_exp_iff [of 7 i, where 'a = "8 word"] by (auto simp: possible_bit_def)
    then show "i < LENGTH(8) \<Longrightarrow> bit (n AND 128) i = bit (if bit n 7 then 128 else 0 :: u8) i"
      by (auto simp: bit_and_iff)
  qed
  then show ?thesis by (auto simp: dir_from_u8_def)
qed

lemma is_out_eq: "is_out h \<longleftrightarrow> \<not> bit (endpoint h) 7"
  by (simp add: is_out_def dir_from_u8_eq)

lemma length_header_as_bytes [simp]: "length (header_as_bytes h) = 8"
  using header_layout.length_enc [of h] by (simp add: HEADER_SIZE_def)

lemma length_urb_header_as_bytes [simp]: "length (urb_header_as_bytes h) = 24"
  using urb_header_layout.length_enc [of h] by (simp add: URB_HEADER_SIZE_def)

text \<open>\<^verbatim>\<open>put_u64_le(header.as_u64_le())\<close> writes the bytes of the header.\<close>

lemma le64_header_as_u64_le: "le64 (header_as_u64_le h) = header_as_bytes h"
  by (simp add: header_as_u64_le_def le64_un64)

lemma unat_compress_frame_len:
  assumes "len mod 8 = 0" and "len < 524288"
  shows "unat (compress_frame_len len) * 8 = len"
proof -
  have "len div 8 < 2 ^ 16" using assms(2) by simp
  then have "unat (of_nat (len div 8) :: u16) = len div 8"
    by (simp add: unat_of_nat take_bit_nat_eq_self)
  then show ?thesis using assms(1) by (simp add: compress_frame_len_def) presburger
qed

end
