(* ===== verification/Proto_Data.thy ===== *)
theory Proto_Data
  imports Proto_Msg
begin

text \<open>
  The receive buffer (\<^verbatim>\<open>Ring\<close>), the typed slices cut from it (\<^verbatim>\<open>Data<T>\<close>) and the trait
  \<^verbatim>\<open>GetSliceLen\<close>: \<^verbatim>\<open>crates/qusb-proto/src/data.rs\<close> and the trait part of \<^verbatim>\<open>lib.rs\<close>.

  A buffer is a window of memory: the address of its first byte (\<^verbatim>\<open>zerocopy\<close> checks it),
  its bytes, and its capacity. Three things belong to other crates and are parameters: the
  allocator behind \<^verbatim>\<open>BytesMut::reserve\<close> (\<open>al\<close>), the byte source behind
  \<^verbatim>\<open>AsyncRead::read\<close> (\<open>rd\<close>), and the error values of \<^verbatim>\<open>std::io\<close>.
\<close>

section \<open>Errors\<close>

datatype io_error =
    InvalidInput | PermissionDenied | ResourceBusy | IoTimedOut | BrokenPipe | Interrupted
  | OutOfMemory | Unsupported | IoOther | RawOs int

datatype slice_len_err = NoConfidence | SliceBufferShort nat

datatype read_error = CorruptedData | BufferShort nat

fun read_error_from :: "slice_len_err \<Rightarrow> read_error" where
  "read_error_from NoConfidence = CorruptedData"
| "read_error_from (SliceBufferShort n) = BufferShort n"

text \<open>The three ways in which a \<^verbatim>\<open>zerocopy\<close> conversion fails; \<open>ConvSize\<close> has the source's length.\<close>

datatype convert_error = ConvAlignment | ConvValidity | ConvSize nat

fun from_convert_err :: "bool \<Rightarrow> nat \<Rightarrow> convert_error \<Rightarrow> slice_len_err run" where
  "from_convert_err chk needed_size ConvAlignment = Ret NoConfidence"
| "from_convert_err chk needed_size ConvValidity = Ret NoConfidence"
| "from_convert_err chk needed_size (ConvSize src_len) =
     rbind (usize_sub chk needed_size src_len) (\<lambda>n. Ret (SliceBufferShort n))"

section \<open>Types that end in a slice\<close>

text \<open>
  What the generic code knows of a type \<^verbatim>\<open>T: TryFromBytes + GetSliceLen\<close>: the size of its
  header, its alignment, the size of an element of its slice, when header bytes are valid,
  and \<^verbatim>\<open>T::get_slice_len\<close> (which sees the address and the bytes of the buffer).
\<close>

record trait_dst =
  size_of_header :: nat
  align_of :: nat
  size_of_data :: nat
  header_valid :: "bytes \<Rightarrow> bool"
  get_slice_len :: "bool \<Rightarrow> nat \<Rightarrow> bytes \<Rightarrow> (slice_len_err + nat) run"

definition dst_size :: "trait_dst \<Rightarrow> nat \<Rightarrow> nat" where
  "dst_size T n = (size_of_header T + n * size_of_data T + align_of T - 1) div align_of T * align_of T"

definition try_ref_from_bytes :: "trait_dst \<Rightarrow> nat \<Rightarrow> bytes \<Rightarrow> bool" where
  "try_ref_from_bytes T addr bs \<longleftrightarrow>
     addr mod align_of T = 0 \<and> size_of_header T \<le> length bs \<and>
     dst_size T ((length bs - size_of_header T) div size_of_data T) = length bs \<and>
     header_valid T (take (size_of_header T) bs)"

definition try_ref_from_prefix_with_elems :: "trait_dst \<Rightarrow> nat \<Rightarrow> bytes \<Rightarrow> nat \<Rightarrow> (bytes \<times> bytes) option" where
  "try_ref_from_prefix_with_elems T addr bs n =
     (if addr mod align_of T = 0 \<and> dst_size T n \<le> length bs \<and>
         header_valid T (take (size_of_header T) bs)
      then Some (take (dst_size T n) bs, drop (dst_size T n) bs) else None)"

record data =
  d_addr :: nat
  d_bytes :: bytes

definition data_new :: "trait_dst \<Rightarrow> data \<Rightarrow> read_error + data" where
  "data_new T d = (if try_ref_from_bytes T (d_addr d) (d_bytes d) then Inr d else Inl CorruptedData)"

definition data_advance :: "nat \<Rightarrow> data \<Rightarrow> data run" where
  "data_advance n d =
     (if n \<le> length (d_bytes d) then Ret \<lparr>d_addr = d_addr d + n, d_bytes = drop n (d_bytes d)\<rparr>
      else Panic)"

text \<open>\<^verbatim>\<open>Data<T>::split_data::<U>\<close>: the bytes after the header of \<open>T\<close>, read as a \<open>U\<close>.\<close>

definition split_data :: "trait_dst \<Rightarrow> trait_dst \<Rightarrow> data \<Rightarrow> data option run" where
  "split_data T U d =
     rbind (data_advance (size_of_header T) d)
       (\<lambda>d'. Ret (case data_new U d' of Inl _ \<Rightarrow> None | Inr u \<Rightarrow> Some u))"

text \<open>The type \<^verbatim>\<open>[u8]\<close>: no header, no alignment, every byte is valid.\<close>

definition byte_slice :: trait_dst where
  "byte_slice = \<lparr>size_of_header = 0, align_of = 1, size_of_data = 1, header_valid = (\<lambda>_. True),
     get_slice_len = (\<lambda>_ _ bs. Ret (Inr (length bs)))\<rparr>"

section \<open>The ring buffer\<close>

record ring =
  r_addr :: nat
  r_buf :: bytes
  r_cap :: nat

type_synonym alloc = "ring \<Rightarrow> nat \<Rightarrow> nat \<times> nat"
type_synonym 'r reader = "'r \<Rightarrow> nat \<Rightarrow> (io_error + bytes) \<times> 'r"

definition ring_with_capacity :: "nat \<Rightarrow> nat \<Rightarrow> ring" where
  "ring_with_capacity addr cap = \<lparr>r_addr = addr, r_buf = [], r_cap = cap\<rparr>"

definition ring_reserve :: "alloc \<Rightarrow> nat \<Rightarrow> ring \<Rightarrow> ring" where
  "ring_reserve al additional r =
     (case al r additional of (addr, cap) \<Rightarrow> r\<lparr>r_addr := addr, r_cap := cap\<rparr>)"

definition ring_len :: "ring \<Rightarrow> nat" where
  "ring_len r = length (r_buf r)"

definition ring_is_empty :: "ring \<Rightarrow> bool" where
  "ring_is_empty r \<longleftrightarrow> r_buf r = []"

definition ring_remaining :: "ring \<Rightarrow> nat" where
  "ring_remaining r = length (r_buf r)"

text \<open>\<^verbatim>\<open>BytesMut::advance\<close> and \<^verbatim>\<open>BytesMut::split_to\<close> panic past the end.\<close>

definition ring_advance :: "nat \<Rightarrow> ring \<Rightarrow> ring" where
  "ring_advance n r = \<lparr>r_addr = r_addr r + n, r_buf = drop n (r_buf r), r_cap = r_cap r - n\<rparr>"

definition consume :: "nat \<Rightarrow> ring \<Rightarrow> ring run" where
  "consume num_bytes r = (if num_bytes \<le> ring_len r then Ret (ring_advance num_bytes r) else Panic)"

definition split_to :: "nat \<Rightarrow> ring \<Rightarrow> (data \<times> ring) run" where
  "split_to n r =
     (if n \<le> ring_len r
      then Ret (\<lparr>d_addr = r_addr r, d_bytes = take n (r_buf r)\<rparr>, ring_advance n r) else Panic)"

text \<open>\<^verbatim>\<open>Ring::read::<T>\<close>, for a sized type given by its size and decoder.\<close>

definition ring_read :: "nat \<Rightarrow> (bytes \<Rightarrow> 'a option) \<Rightarrow> ring \<Rightarrow> (read_error + 'a) \<times> ring" where
  "ring_read size_of dec r =
     (if ring_len r < size_of then (Inl (BufferShort (size_of - ring_len r)), r)
      else case dec (take size_of (r_buf r)) of
             None \<Rightarrow> (Inl CorruptedData, r)
           | Some item \<Rightarrow> (Inr item, ring_advance size_of r))"

definition claim_dst :: "bool \<Rightarrow> trait_dst \<Rightarrow> ring \<Rightarrow> ((read_error + data) \<times> ring) run" where
  "claim_dst chk T r =
     rbind (get_slice_len T chk (r_addr r) (r_buf r)) (\<lambda>res.
       case res of
         Inl err \<Rightarrow> Ret (Inl (read_error_from err), r)
       | Inr slice_len \<Rightarrow>
           rbind (usize_add chk (size_of_header T) (slice_len * size_of_data T)) (\<lambda>n.
             rbind (split_to n r) (\<lambda>(buf, r'). Ret (data_new T buf, r'))))"

section \<open>Iterators\<close>

text \<open>\<^verbatim>\<open>Ring::iter\<close>: exact chunks, up to the first that does not decode.\<close>

function ring_iter :: "nat \<Rightarrow> (bytes \<Rightarrow> 'a option) \<Rightarrow> bytes \<Rightarrow> 'a list" where
  "ring_iter size_of dec bs =
     (if size_of = 0 \<or> length bs < size_of then []
      else case dec (take size_of bs) of
             None \<Rightarrow> []
           | Some x \<Rightarrow> x # ring_iter size_of dec (drop size_of bs))"
  by pat_completeness auto
termination
  by (relation "measure (\<lambda>(n, dec, bs). length bs)") auto

declare ring_iter.simps [simp del]

text \<open>
  \<^verbatim>\<open>IterDst::next\<close> and \<^verbatim>\<open>IterMutDst::next\<close>; the state is the rest of the buffer with its
  address. The second takes the buffer out first, so it is empty after a failure.
\<close>

definition iter_dst_next :: "bool \<Rightarrow> trait_dst \<Rightarrow> data \<Rightarrow> (bytes option \<times> data) run" where
  "iter_dst_next chk T d =
     rbind (get_slice_len T chk (d_addr d) (d_bytes d)) (\<lambda>res.
       case res of
         Inl _ \<Rightarrow> Ret (None, d)
       | Inr len \<Rightarrow>
           (case try_ref_from_prefix_with_elems T (d_addr d) (d_bytes d) len of
              None \<Rightarrow> Ret (None, d)
            | Some (item, remaining) \<Rightarrow>
                Ret (Some item, \<lparr>d_addr = d_addr d + length item, d_bytes = remaining\<rparr>)))"

definition iter_mut_dst_next :: "bool \<Rightarrow> trait_dst \<Rightarrow> data \<Rightarrow> (bytes option \<times> data) run" where
  "iter_mut_dst_next chk T d =
     rbind (iter_dst_next chk T d) (\<lambda>(item, d').
       Ret (item, case item of None \<Rightarrow> \<lparr>d_addr = d_addr d, d_bytes = []\<rparr> | Some _ \<Rightarrow> d'))"

text \<open>The items of the first \<open>n\<close> calls of \<^verbatim>\<open>next\<close>, up to the first \<^verbatim>\<open>None\<close>.\<close>

fun iter_dst_take :: "nat \<Rightarrow> bool \<Rightarrow> trait_dst \<Rightarrow> data \<Rightarrow> bytes list run" where
  "iter_dst_take 0 chk T d = Ret []"
| "iter_dst_take (Suc n) chk T d =
     rbind (iter_dst_next chk T d) (\<lambda>(item, d').
       case item of
         None \<Rightarrow> Ret []
       | Some x \<Rightarrow> rbind (iter_dst_take n chk T d') (\<lambda>xs. Ret (x # xs)))"

section \<open>Filling the ring\<close>

definition fill_with_reader :: "'r reader \<Rightarrow> ring \<Rightarrow> 'r \<Rightarrow> (io_error + nat) \<times> ring \<times> 'r" where
  "fill_with_reader rd r rx =
     (case rd rx (r_cap r - ring_len r) of
        (Inl e, rx') \<Rightarrow> (Inl e, r, rx')
      | (Inr bs, rx') \<Rightarrow> (Inr (length bs), r\<lparr>r_buf := r_buf r @ bs\<rparr>, rx'))"

definition EXTRA :: nat where "EXTRA = 16384"

function fill_until :: "alloc \<Rightarrow> 'r reader \<Rightarrow> nat \<Rightarrow> ring \<Rightarrow> 'r \<Rightarrow>
    (io_error + unit option) \<times> ring \<times> 'r" where
  "fill_until al rd num_bytes r rx =
     (if num_bytes > ring_len r then
        (let is_full = (r_cap r < ring_len r + num_bytes);
             r1 = (if is_full then ring_reserve al EXTRA r else r)
         in case fill_with_reader rd r1 rx of
              (Inl e, r2, rx2) \<Rightarrow> (Inl e, r2, rx2)
            | (Inr n, r2, rx2) \<Rightarrow>
                if n = 0 then (Inr None, r2, rx2) else fill_until al rd num_bytes r2 rx2)
      else (Inr (Some ()), r, rx))"
  by pat_completeness auto
termination
  by (relation "measure (\<lambda>(al, rd, num_bytes, r, rx). num_bytes - ring_len r)")
    (auto simp: fill_with_reader_def ring_reserve_def ring_len_def intro!: diff_less_mono2
      split: prod.splits sum.splits if_splits)

declare fill_until.simps [simp del]

section \<open>Facts\<close>

lemma ring_len_simps [simp]:
  "ring_len (r\<lparr>r_buf := bs\<rparr>) = length bs"
  "ring_len (r\<lparr>r_addr := a\<rparr>) = ring_len r"
  "ring_len (r\<lparr>r_cap := c\<rparr>) = ring_len r"
  "ring_len (ring_advance n r) = ring_len r - n"
  by (simp_all add: ring_len_def ring_advance_def)

lemma ring_reserve_keeps [simp]: "r_buf (ring_reserve al n r) = r_buf r"
  "ring_len (ring_reserve al n r) = ring_len r"
  by (simp_all add: ring_reserve_def ring_len_def split: prod.splits)

lemma ring_advance_sel [simp]:
  "r_buf (ring_advance n r) = drop n (r_buf r)" "r_addr (ring_advance n r) = r_addr r + n"
  "r_cap (ring_advance n r) = r_cap r - n"
  by (simp_all add: ring_advance_def)

text \<open>Reading a value: the client side of the layout contract.\<close>

context layout
begin

lemma ring_read_enc:
  assumes "wf x" and "r_buf r = enc x @ rest"
  shows "ring_read sz dec r = (Inr x, ring_advance sz r) \<and> r_buf (ring_advance sz r) = rest"
  using assms by (simp add: ring_read_def ring_len_def length_enc dec_enc)

lemma ring_read_Inr:
  assumes "ring_read sz dec r = (Inr x, r')"
  shows "wf x" and "r_buf r = enc x @ r_buf r'" and "ring_len r = sz + ring_len r'"
proof -
  from assms have d: "dec (take sz (r_buf r)) = Some x" "sz \<le> ring_len r" "r' = ring_advance sz r"
    by (auto simp: ring_read_def split: if_splits option.splits)
  from enc_dec [OF d(1)] show "wf x" "r_buf r = enc x @ r_buf r'"
    using d(3) by simp_all
  show "ring_len r = sz + ring_len r'" using d(2,3) by simp
qed

lemma ring_read_short:
  assumes "ring_len r < sz"
  shows "ring_read sz dec r = (Inl (BufferShort (sz - ring_len r)), r)"
  using assms by (simp add: ring_read_def)

lemma ring_iter_enc:
  assumes "0 < sz" and "\<forall>x \<in> set xs. wf x"
  shows "ring_iter sz dec (concat (map enc xs)) = xs"
  using assms(2)
proof (induction xs)
  case Nil
  then show ?case using assms(1) by (simp add: ring_iter.simps)
next
  case (Cons x xs)
  then show ?case
    using assms(1) by (subst ring_iter.simps) (simp add: length_enc dec_enc)
qed

end

text \<open>
  What the code relies on of its environment. The allocator gives the room that was asked
  for, in memory aligned to eight bytes. The byte source delivers the bytes of a stream in
  order, as many as fit at most, and delivers nothing only at the end of the stream.
\<close>

definition alloc_ok :: "alloc \<Rightarrow> bool" where
  "alloc_ok al \<longleftrightarrow> (\<forall>r n. ring_len r + n \<le> snd (al r n) \<and>
     (r_addr r mod 8 = 0 \<longrightarrow> fst (al r n) mod 8 = 0))"

definition stream_reader :: "'r reader \<Rightarrow> ('r \<Rightarrow> bytes) \<Rightarrow> bool" where
  "stream_reader rd strm \<longleftrightarrow> (\<forall>s n. 0 < n \<longrightarrow> (\<exists>bs s'. rd s n = (Inr bs, s') \<and>
     strm s = bs @ strm s' \<and> length bs \<le> n \<and> (bs = [] \<longrightarrow> strm s = [])))"

definition ring_ok :: "ring \<Rightarrow> bool" where
  "ring_ok r \<longleftrightarrow> r_addr r mod 8 = 0 \<and> ring_len r \<le> r_cap r"

lemma stream_readerD:
  assumes "stream_reader rd strm" and "0 < n"
  obtains bs s' where "rd s n = (Inr bs, s')" and "strm s = bs @ strm s'" and "length bs \<le> n"
    and "bs = [] \<Longrightarrow> strm s = []"
  using assms unfolding stream_reader_def by blast

lemma ring_ok_reserve:
  assumes "alloc_ok al" and "ring_ok r"
  shows "ring_ok (ring_reserve al n r)" and "ring_len r + n \<le> r_cap (ring_reserve al n r)"
proof -
  obtain a c where ac: "al r n = (a, c)" by (cases "al r n")
  have "ring_len r + n \<le> c" "r_addr r mod 8 = 0 \<longrightarrow> a mod 8 = 0"
    using assms(1) ac unfolding alloc_ok_def by (metis fst_conv snd_conv)+
  with ac assms(2) show "ring_ok (ring_reserve al n r)" "ring_len r + n \<le> r_cap (ring_reserve al n r)"
    by (simp_all add: ring_ok_def ring_reserve_def)
qed

text \<open>The buffer that one round of \<open>fill_until\<close> reads into: never full, so a read of no bytes
  is the end of the stream and not a read into no room.\<close>

definition fill_room :: "alloc \<Rightarrow> nat \<Rightarrow> ring \<Rightarrow> ring" where
  "fill_room al num_bytes r =
     (if r_cap r < ring_len r + num_bytes then ring_reserve al EXTRA r else r)"

lemma fill_room_facts:
  assumes "alloc_ok al" and "ring_ok r" and "ring_len r < num_bytes"
  shows "ring_ok (fill_room al num_bytes r)" and "r_buf (fill_room al num_bytes r) = r_buf r"
    and "ring_len r < r_cap (fill_room al num_bytes r)"
  using assms ring_ok_reserve [OF assms(1,2), of EXTRA]
  by (auto simp: fill_room_def EXTRA_def)

lemma fill_until_step:
  "fill_until al rd num_bytes r rx =
     (if ring_len r < num_bytes then
        case rd rx (r_cap (fill_room al num_bytes r) - ring_len r) of
          (Inl e, rx2) \<Rightarrow> (Inl e, fill_room al num_bytes r, rx2)
        | (Inr bs, rx2) \<Rightarrow>
            let r2 = (fill_room al num_bytes r)\<lparr>r_buf := r_buf r @ bs\<rparr>
            in if bs = [] then (Inr None, r2, rx2) else fill_until al rd num_bytes r2 rx2
      else (Inr (Some ()), r, rx))"
  by (subst fill_until.simps)
    (auto simp: fill_room_def fill_with_reader_def Let_def ring_len_def split: prod.splits sum.splits)

text \<open>
  Filling keeps the unread bytes of the stream in order. It succeeds exactly when the buffer
  and the stream together hold enough bytes, and ends with the closed result otherwise.
\<close>

lemma fill_until_spec:
  assumes al: "alloc_ok al" and rd: "stream_reader rd strm" and ok: "ring_ok r"
  shows "\<exists>res r' rx'. fill_until al rd n r rx = (Inr res, r', rx') \<and> ring_ok r' \<and>
    r_buf r' @ strm rx' = r_buf r @ strm rx \<and> (\<exists>bs. r_buf r' = r_buf r @ bs) \<and>
    (res = Some () \<longleftrightarrow> n \<le> length (r_buf r @ strm rx)) \<and> (res = Some () \<longrightarrow> n \<le> ring_len r')"
  using ok
proof (induction "n - ring_len r" arbitrary: r rx rule: less_induct)
  case less
  show ?case
  proof (cases "ring_len r < n")
    case False
    then show ?thesis
      using less.prems by (subst fill_until_step) (auto simp: ring_len_def)
  next
    case True
    let ?r = "fill_room al n r"
    note room = fill_room_facts [OF al less.prems True]
    obtain bs rx2 where bs: "rd rx (r_cap ?r - ring_len r) = (Inr bs, rx2)" "strm rx = bs @ strm rx2"
      "length bs \<le> r_cap ?r - ring_len r" "bs = [] \<Longrightarrow> strm rx = []"
      by (rule stream_readerD [OF rd, of "r_cap ?r - ring_len r" rx]) (use room(3) in auto)
    let ?r2 = "?r\<lparr>r_buf := r_buf r @ bs\<rparr>"
    have ok2: "ring_ok ?r2" and len2: "ring_len ?r2 = ring_len r + length bs"
      using room bs(3) by (auto simp: ring_ok_def ring_len_def)
    have step: "fill_until al rd n r rx =
        (if bs = [] then (Inr None, ?r2, rx2) else fill_until al rd n ?r2 rx2)"
      using True bs(1) by (subst fill_until_step) (simp add: Let_def)
    show ?thesis
    proof (cases "bs = []")
      case True
      with step bs ok2 \<open>ring_len r < n\<close> show ?thesis
        by (auto simp: ring_len_def)
    next
      case False
      then have "0 < length bs" by simp
      then have "n - ring_len ?r2 < n - ring_len r" using True len2 by linarith
      from less.hyps [OF this ok2, of rx2] show ?thesis
        using False step bs(2) by auto
    qed
  qed
qed

text \<open>Instances of the two parameters: an allocator that gives exactly what is asked for, and a
  stream that arrives in pieces of at most \<open>k\<close> bytes.\<close>

definition exact_alloc :: alloc where
  "exact_alloc r n = (0, ring_len r + n)"

definition chunk_reader :: "nat \<Rightarrow> bytes reader" where
  "chunk_reader k s n = (Inr (take (min k n) s), drop (min k n) s)"

lemma exact_alloc_ok [simp]: "alloc_ok exact_alloc"
  by (simp add: alloc_ok_def exact_alloc_def)

lemma chunk_reader_ok [simp]: "0 < k \<Longrightarrow> stream_reader (chunk_reader k) id"
  by (auto simp: stream_reader_def chunk_reader_def)

lemma ring_ok_new [simp]: "addr mod 8 = 0 \<Longrightarrow> ring_ok (ring_with_capacity addr n)"
  "r_buf (ring_with_capacity addr n) = []"
  by (simp_all add: ring_ok_def ring_with_capacity_def ring_len_def)

end
