(* ===== verification/Send_Loop.thy ===== *)
theory Send_Loop
  imports Proto_Data
begin

text \<open>
  The part that the two send loops (\<^verbatim>\<open>crates/qusb-borrow\<close> and \<^verbatim>\<open>crates/qusb-lend\<close>) share:
  a buffer that collects frames, a timer, and a writer that is either held by the loop or lent
  to a flush in progress. The writer is the bytes written to it. A \<^verbatim>\<open>MaybeFut\<close> is the data of
  the future in it, or nothing.
\<close>

datatype loop_state = Flush | Solicit | Timer

record 'h sender =
  s_state :: loop_state
  tx_holder :: "bytes option"
  sleeper :: bool
  flusher :: "(bytes \<times> bytes) option"
  s_handler :: 'h

definition start_sender :: "bytes \<Rightarrow> 'h \<Rightarrow> 'h sender" where
  "start_sender tx h = \<lparr>s_state = Solicit, tx_holder = Some tx, sleeper = False, flusher = None,
     s_handler = h\<rparr>"

text \<open>The arm \<^verbatim>\<open>Event::FlushBuf\<close>.\<close>

definition on_flush_buf :: "('h \<Rightarrow> bytes \<times> 'h) \<Rightarrow> ('h, 'a) sender_scheme \<Rightarrow> ('h, 'a) sender_scheme run" where
  "on_flush_buf flush_buf s =
     rbind (unwrap (tx_holder s)) (\<lambda>tx.
       case flush_buf (s_handler s) of (bs, h) \<Rightarrow>
         Ret (s\<lparr>sleeper := False, tx_holder := None, s_handler := h, flusher := Some (tx, bs),
           s_state := Flush\<rparr>))"

text \<open>The arm \<^verbatim>\<open>Event::FlushComplete(Ok(tx))\<close>.\<close>

definition on_flush_complete :: "('h \<Rightarrow> bool) \<Rightarrow> bytes \<Rightarrow> ('h, 'a) sender_scheme \<Rightarrow> ('h, 'a) sender_scheme" where
  "on_flush_complete is_buf_empty tx s =
     (let s1 = s\<lparr>flusher := None, tx_holder := Some tx\<rparr>
      in if is_buf_empty (s_handler s) then s1\<lparr>s_state := Solicit\<rparr>
         else s1\<lparr>sleeper := True, s_state := Timer\<rparr>)"

text \<open>The round that a sender goes on with when nothing else happens and the writer works.\<close>

definition flush_next :: "('h \<Rightarrow> bool) \<Rightarrow> ('h \<Rightarrow> bytes \<times> 'h) \<Rightarrow> ('h, 'a) sender_scheme \<Rightarrow> ('h, 'a) sender_scheme run" where
  "flush_next is_buf_empty flush_buf s =
     (case s_state s of
        Solicit \<Rightarrow> Ret s
      | Timer \<Rightarrow> on_flush_buf flush_buf s
      | Flush \<Rightarrow> (case flusher s of None \<Rightarrow> Ret s | Some (tx, bs) \<Rightarrow> Ret (on_flush_complete is_buf_empty (tx @ bs) s)))"

text \<open>All bytes so far: written, being written, and waiting.\<close>

definition all_bytes :: "('h \<Rightarrow> bytes) \<Rightarrow> ('h, 'a) sender_scheme \<Rightarrow> bytes" where
  "all_bytes buf s = (case tx_holder s of Some tx \<Rightarrow> tx | None \<Rightarrow> []) @
     (case flusher s of Some (tx, bs) \<Rightarrow> tx @ bs | None \<Rightarrow> []) @ buf (s_handler s)"

section \<open>The contract of a buffer\<close>

text \<open>
  What the loops rely on: \<open>is_buf_empty\<close> tells whether the buffer is empty and \<open>flush_buf\<close>
  takes all of it out. The content is always a sequence of whole messages (\<open>framed\<close>).
\<close>

locale flush_handler =
  fixes hinv :: "'h \<Rightarrow> bool"
    and buf :: "'h \<Rightarrow> bytes"
    and is_buf_empty :: "'h \<Rightarrow> bool"
    and flush_buf :: "'h \<Rightarrow> bytes \<times> 'h"
    and framed :: "bytes \<Rightarrow> bool"
  assumes is_buf_empty_iff: "hinv h \<Longrightarrow> is_buf_empty h \<longleftrightarrow> buf h = []"
    and flush_buf_all: "hinv h \<Longrightarrow> \<exists>h'. flush_buf h = (buf h, h') \<and> hinv h' \<and> buf h' = []"
    and buf_framed: "hinv h \<Longrightarrow> framed (buf h)"
    and framed_append: "framed xs \<Longrightarrow> framed ys \<Longrightarrow> framed (xs @ ys)"
begin

text \<open>The writer is lent exactly during a flush, the timer runs exactly in \<open>Timer\<close>, and no
  byte waits in \<open>Solicit\<close>. What has been written and what is being written is framed.\<close>

definition sender_inv :: "('h, 'a) sender_scheme \<Rightarrow> bool" where
  "sender_inv s \<longleftrightarrow> hinv (s_handler s) \<and>
     (case s_state s of
        Solicit \<Rightarrow> (\<exists>tx. tx_holder s = Some tx \<and> framed tx) \<and> flusher s = None \<and> \<not> sleeper s \<and>
          buf (s_handler s) = []
      | Timer \<Rightarrow> (\<exists>tx. tx_holder s = Some tx \<and> framed tx) \<and> flusher s = None \<and> sleeper s
      | Flush \<Rightarrow> tx_holder s = None \<and> \<not> sleeper s \<and>
          (\<exists>tx bs. flusher s = Some (tx, bs) \<and> framed tx \<and> framed bs))"

abbreviation sender_out :: "('h, 'a) sender_scheme \<Rightarrow> bytes" where
  "sender_out \<equiv> all_bytes buf"

lemmas sender_out_def = all_bytes_def [of buf]

lemma start_inv:
  assumes "hinv h" and "buf h = []" and "framed tx"
  shows "sender_inv (start_sender tx h)" and "sender_out (start_sender tx h) = tx"
  using assms by (simp_all add: sender_inv_def sender_out_def start_sender_def)

lemma out_framed:
  assumes "framed []" and "sender_inv s"
  shows "framed (sender_out s)"
  using assms buf_framed [of "s_handler s"]
  by (auto simp: sender_inv_def sender_out_def intro!: framed_append split: loop_state.splits)

lemma flush_buf_inv:
  assumes "sender_inv s" and "s_state s = Timer"
  shows "\<exists>s'. on_flush_buf flush_buf s = Ret s' \<and> sender_inv s' \<and> sender_out s' = sender_out s \<and>
    s_state s' = Flush \<and> sender.more s' = sender.more s"
proof -
  from assms obtain tx where tx: "tx_holder s = Some tx" "framed tx" "flusher s = None"
    and h: "hinv (s_handler s)" by (auto simp: sender_inv_def)
  obtain h' where h': "flush_buf (s_handler s) = (buf (s_handler s), h')" "hinv h'" "buf h' = []"
    using flush_buf_all [OF h] by blast
  from tx h' buf_framed [OF h] show ?thesis
    by (simp add: on_flush_buf_def sender_inv_def sender_out_def)
qed

lemma flush_complete_inv:
  assumes "sender_inv s" and "flusher s = Some (tx, bs)"
  shows "sender_inv (on_flush_complete is_buf_empty (tx @ bs) s) \<and>
    sender_out (on_flush_complete is_buf_empty (tx @ bs) s) = sender_out s"
proof -
  from assms have f: "framed (tx @ bs)" "hinv (s_handler s)" "tx_holder s = None" "\<not> sleeper s"
    by (auto simp: sender_inv_def intro: framed_append split: loop_state.splits)
  with assms(2) show ?thesis
    by (simp add: on_flush_complete_def sender_inv_def sender_out_def is_buf_empty_iff Let_def)
qed

text \<open>Three rounds that only flush write out everything.\<close>

lemma flush_next_inv:
  assumes "sender_inv s"
  shows "\<exists>s'. flush_next is_buf_empty flush_buf s = Ret s' \<and> sender_inv s' \<and> sender_out s' = sender_out s"
proof (cases "s_state s")
  case Timer
  from flush_buf_inv [OF assms Timer] Timer show ?thesis by (auto simp: flush_next_def)
next
  case Flush
  with assms obtain tx bs where "flusher s = Some (tx, bs)" by (auto simp: sender_inv_def)
  with flush_complete_inv [OF assms this] Flush show ?thesis by (simp add: flush_next_def)
qed (use assms in \<open>simp add: flush_next_def\<close>)

lemma flush_rounds:
  assumes "sender_inv s"
  shows "\<exists>s1 s2 s3. flush_next is_buf_empty flush_buf s = Ret s1 \<and> flush_next is_buf_empty flush_buf s1 = Ret s2 \<and>
    flush_next is_buf_empty flush_buf s2 = Ret s3 \<and> sender_inv s1 \<and> sender_inv s2 \<and>
    s_state s3 = Solicit \<and> tx_holder s3 = Some (sender_out s)"
proof -
  obtain s1 where s1: "flush_next is_buf_empty flush_buf s = Ret s1" "sender_inv s1" "sender_out s1 = sender_out s"
    using flush_next_inv [OF assms] by blast
  obtain s2 where s2: "flush_next is_buf_empty flush_buf s1 = Ret s2" "sender_inv s2" "sender_out s2 = sender_out s1"
    using flush_next_inv [OF s1(2)] by blast
  obtain s3 where s3: "flush_next is_buf_empty flush_buf s2 = Ret s3" "sender_inv s3" "sender_out s3 = sender_out s2"
    using flush_next_inv [OF s2(2)] by blast
  have timer: "s_state t' = Flush \<and> buf (s_handler t') = []"
    if "sender_inv t" "s_state t = Timer" "flush_next is_buf_empty flush_buf t = Ret t'" for t t' :: "('h, 'a) sender_scheme"
  proof -
    have "hinv (s_handler t)" using that(1) by (simp add: sender_inv_def)
    with flush_buf_all [OF this] that show ?thesis
      by (auto simp: flush_next_def on_flush_buf_def rbind_eq_Ret split: prod.splits)
  qed
  have flush: "s_state t' = (if buf (s_handler t) = [] then Solicit else Timer)"
    if "sender_inv t" "s_state t = Flush" "flush_next is_buf_empty flush_buf t = Ret t'" for t t' :: "('h, 'a) sender_scheme"
    using that is_buf_empty_iff [of "s_handler t"]
    by (auto simp: flush_next_def on_flush_complete_def Let_def sender_inv_def)
  have stay: "s_state t' = Solicit" if "s_state t = Solicit" "flush_next is_buf_empty flush_buf t = Ret t'"
    for t t' :: "('h, 'a) sender_scheme" using that by (simp add: flush_next_def)
  have "s_state s3 = Solicit"
  proof (cases "s_state s")
    case Solicit
    from stay [OF stay [OF stay [OF Solicit s1(1)] s2(1)] s3(1)] show ?thesis .
  next
    case Timer
    note t1 = timer [OF assms Timer s1(1)]
    from flush [OF s1(2) conjunct1 [OF t1] s2(1)] t1 have "s_state s2 = Solicit" by simp
    from stay [OF this s3(1)] show ?thesis .
  next
    case Flush
    show ?thesis
    proof (cases "buf (s_handler s) = []")
      case True
      with flush [OF assms Flush s1(1)] have "s_state s1 = Solicit" by simp
      from stay [OF stay [OF this s2(1)] s3(1)] show ?thesis .
    next
      case False
      with flush [OF assms Flush s1(1)] have "s_state s1 = Timer" by simp
      note t2 = timer [OF s1(2) this s2(1)]
      from flush [OF s2(2) conjunct1 [OF t2] s3(1)] t2 show ?thesis by simp
    qed
  qed
  moreover from this s3(2) have "tx_holder s3 = Some (sender_out s3)" by (auto simp: sender_inv_def sender_out_def)
  ultimately show ?thesis using s1 s2 s3 by auto
qed

text \<open>Work that only appends whole messages, followed by arming the timer if need be.\<close>

lemma append_inv:
  assumes "sender_inv s" and "hinv h" and "buf h = buf (s_handler s) @ bs"
    and "s_state s \<noteq> Solicit \<or> bs = []"
  shows "sender_inv (s\<lparr>s_handler := h\<rparr>) \<and> sender_out (s\<lparr>s_handler := h\<rparr>) = sender_out s @ bs"
  using assms by (auto simp: sender_inv_def sender_out_def split: loop_state.splits)

lemma arm_inv:
  assumes "sender_inv s" and "hinv h" and "buf h = buf (s_handler s) @ bs" and "s_state s = Solicit"
  shows "sender_inv (s\<lparr>s_handler := h, sleeper := True, s_state := Timer\<rparr>) \<and>
    sender_out (s\<lparr>s_handler := h, sleeper := True, s_state := Timer\<rparr>) = sender_out s @ bs"
  using assms by (auto simp: sender_inv_def sender_out_def)

end

end
