(* ===== verification/Vhci.thy ===== *)
theory Vhci
  imports Proto_Data
begin

text \<open>
  What the code uses of the crate \<^verbatim>\<open>vhci\<close>: work items, requests and port states, with the
  fields and flags that the source names. The functions of that crate are parameters, bundled
  in the record \<open>vhci_ops\<close>. An address is the number \<^verbatim>\<open>Address::get\<close> returns; a length or
  count of a request is its value after the cast to \<^verbatim>\<open>usize\<close>.
\<close>

type_synonym port = u8
type_synonym address = u8
type_synonym urb_handle = u64

record ioc_urb =
  iu_typ :: urb_type
  iu_address :: address
  iu_setup_packet :: setup_packet
  iu_buffer_length :: nat
  iu_packet_count :: nat
  iu_interval :: u16
  iu_flags :: u16
  iu_endpoint :: u8

datatype port_change = PC_CONNECTION | PC_RESET
datatype port_status = PS_CONNECTION | PS_ENABLE | PS_RESET | PS_POWER
datatype port_flag = PF_RESUMING

record ioc_port_stat =
  ps_index :: port
  ps_status :: "port_status set"
  ps_change :: "port_change set"
  ps_flags :: "port_flag set"

definition default_port_stat :: ioc_port_stat where
  "default_port_stat = \<lparr>ps_index = 0, ps_status = {}, ps_change = {}, ps_flags = {}\<rparr>"

datatype work =
    PortStat ioc_port_stat
  | ProcessUrb ioc_urb urb_handle
  | CancelUrb urb_handle

text \<open>The requests that the code tells apart.\<close>

datatype request =
    STANDARD_DEVICE_SET_ADDRESS | STANDARD_INTERFACE_SET_INTERFACE
  | STANDARD_DEVICE_SET_CONFIGURATION | STANDARD_ENDPOINT_CLEAR_FEATURE
  | STANDARD_DEVICE_GET_STATUS | OtherRequest

record vhci_ops =
  setup_req :: "setup_packet \<Rightarrow> request"
  setup_value :: "setup_packet \<Rightarrow> u16"
  setup_index :: "setup_packet \<Rightarrow> u16"
  setup_length :: "setup_packet \<Rightarrow> u16"
  is_for_unassigned :: "address \<Rightarrow> bool"
  is_anycast :: "u8 \<Rightarrow> bool"
  address_new :: "u8 \<Rightarrow> address option"

end
