(* ===== verification/Proto_Frame.thy ===== *)
theory Proto_Frame
  imports Proto_Data
begin

text \<open>
  Frames on the wire: \<^verbatim>\<open>QusbFrame\<close> and \<^verbatim>\<open>UrbFrame\<close> of \<^verbatim>\<open>crates/qusb-proto/src/msg.rs\<close>,
  \<^verbatim>\<open>recv_frame\<close> and \<^verbatim>\<open>parse_frame\<close> of \<^verbatim>\<open>crates/qusb-proto/src/lib.rs\<close>.
\<close>

section \<open>The two frame types\<close>

definition qusb_get_slice_len :: "bool \<Rightarrow> nat \<Rightarrow> bytes \<Rightarrow> (slice_len_err + nat) run" where
  "qusb_get_slice_len chk addr buf =
     (case buf of
        b0 # b1 # _ \<Rightarrow>
          rbind (u16_mul chk (un16 b0 b1) 8) (\<lambda>l.
            let frame_len = unat l
            in if frame_len > length buf then Ret (Inl (SliceBufferShort (frame_len - length buf)))
               else rbind (usize_sub chk frame_len HEADER_SIZE) (\<lambda>n. Ret (Inr n)))
      | _ \<Rightarrow> Ret (Inl (SliceBufferShort (HEADER_SIZE - length buf))))"

definition qusb_frame :: trait_dst where
  "qusb_frame = \<lparr>size_of_header = HEADER_SIZE, align_of = 4, size_of_data = 1,
     header_valid = (\<lambda>bs. header_from_bytes bs \<noteq> None), get_slice_len = qusb_get_slice_len\<rparr>"

definition urb_try_ref_from_prefix :: "nat \<Rightarrow> bytes \<Rightarrow> convert_error + (urb_header \<times> bytes)" where
  "urb_try_ref_from_prefix addr buf =
     (if addr mod 2 \<noteq> 0 then Inl ConvAlignment
      else if length buf < URB_HEADER_SIZE then Inl (ConvSize (length buf))
      else case urb_header_from_bytes (take URB_HEADER_SIZE buf) of
             None \<Rightarrow> Inl ConvValidity
           | Some h \<Rightarrow> Inr (h, drop URB_HEADER_SIZE buf))"

definition has_transfer :: "urb_header \<Rightarrow> bool" where
  "has_transfer h \<longleftrightarrow> (is_out h \<and> \<not> is_reply h) \<or> (\<not> is_out h \<and> is_reply h)"

definition urb_data_len :: "nat \<Rightarrow> urb_header \<Rightarrow> nat" where
  "urb_data_len iso_sz h =
     padded_transfer_len h * (if has_transfer h then 1 else 0) + iso_byte_len iso_sz h"

definition urb_get_slice_len :: "nat \<Rightarrow> bool \<Rightarrow> nat \<Rightarrow> bytes \<Rightarrow> (slice_len_err + nat) run" where
  "urb_get_slice_len iso_sz chk addr buf =
     (case urb_try_ref_from_prefix addr buf of
        Inl err \<Rightarrow> rbind (from_convert_err chk URB_HEADER_SIZE err) (\<lambda>e. Ret (Inl e))
      | Inr (h, rest) \<Rightarrow>
          let required_byte_len = urb_data_len iso_sz h
          in if required_byte_len > length rest
             then Ret (Inl (SliceBufferShort (required_byte_len - length rest)))
             else rbind (usize_sub chk required_byte_len URB_HEADER_SIZE) (\<lambda>n. Ret (Inr n)))"

definition urb_frame :: "nat \<Rightarrow> trait_dst" where
  "urb_frame iso_sz = \<lparr>size_of_header = URB_HEADER_SIZE, align_of = 2, size_of_data = 1,
     header_valid = (\<lambda>bs. urb_header_from_bytes bs \<noteq> None),
     get_slice_len = urb_get_slice_len iso_sz\<rparr>"

section \<open>Receiving a frame\<close>

datatype recv_error = Io io_error | RecvCorruptedData

text \<open>
  \<open>None\<close> of the outer option is a loop that never returns; \<open>Inl None\<close> is the orderly close.
\<close>

partial_function (option) recv_loop ::
  "bool \<Rightarrow> alloc \<Rightarrow> 'r reader \<Rightarrow> nat \<Rightarrow> ring \<Rightarrow> 'r \<Rightarrow>
     ((recv_error option + data) \<times> ring \<times> 'r) run option" where
  "recv_loop chk al rd min_len buf rx =
     (case fill_until al rd min_len buf rx of
        (Inl e, buf', rx') \<Rightarrow> Some (Ret (Inl (Some (Io e)), buf', rx'))
      | (Inr None, buf', rx') \<Rightarrow> Some (Ret (Inl None, buf', rx'))
      | (Inr (Some _), buf', rx') \<Rightarrow>
          (case claim_dst chk qusb_frame buf' of
             Ret (Inr frame, buf'') \<Rightarrow> Some (Ret (Inr frame, buf'', rx'))
           | Ret (Inl CorruptedData, buf'') \<Rightarrow>
               Some (Ret (Inl (Some RecvCorruptedData), buf'', rx'))
           | Ret (Inl (BufferShort num_bytes_needed), buf'') \<Rightarrow>
               recv_loop chk al rd (ring_len buf'' + num_bytes_needed) buf'' rx'
           | Panic \<Rightarrow> Some Panic
           | Undef \<Rightarrow> Some Undef))"

definition recv_frame ::
  "bool \<Rightarrow> alloc \<Rightarrow> 'r reader \<Rightarrow> ring \<Rightarrow> 'r \<Rightarrow>
     ((recv_error option + data) \<times> ring \<times> 'r) run option" where
  "recv_frame chk al rd buf rx = recv_loop chk al rd HEADER_SIZE buf rx"

section \<open>Parsing a frame\<close>

record 'a seq =
  sq_seqnum :: u32
  sq_data :: 'a

datatype frame = FUrb "data seq" | FPortReset u32 | FUnlink u32

definition qusb_split :: "nat \<Rightarrow> data \<Rightarrow> (header \<times> data option) run" where
  "qusb_split iso_sz d =
     (case header_from_bytes (take HEADER_SIZE (d_bytes d)) of
        None \<Rightarrow> Undef
      | Some h \<Rightarrow> rbind (split_data qusb_frame (urb_frame iso_sz) d) (\<lambda>u. Ret (h, u)))"

definition urb_or_invalid :: "u32 \<Rightarrow> data option \<Rightarrow> abortable_error + frame" where
  "urb_or_invalid sn u =
     (case u of None \<Rightarrow> Inl InvalidData | Some d \<Rightarrow> Inr (FUrb \<lparr>sq_seqnum = sn, sq_data = d\<rparr>))"

definition parse_frame :: "nat \<Rightarrow> data \<Rightarrow> (abortable_error + frame) run" where
  "parse_frame iso_sz d =
     (case header_from_bytes (take HEADER_SIZE (d_bytes d)) of
        None \<Rightarrow> Undef
      | Some h \<Rightarrow>
          (case command h of
             RetSubmit \<Rightarrow>
               rbind (qusb_split iso_sz d) (\<lambda>(h, u).
                 case hdr_status h of
                   Success \<Rightarrow> Ret (urb_or_invalid (seqnum h) u)
                 | Failed \<Rightarrow> Panic
                 | DevBusy \<Rightarrow> Panic
                 | DevErr \<Rightarrow> Ret (Inl AbortProto)
                 | NoDev \<Rightarrow> Ret (Inl DeviceDisconnected)
                 | Unexpected \<Rightarrow> Panic
                 | VersionMismatch \<Rightarrow> Panic
                 | Timeout \<Rightarrow> Panic
                 | Proto \<Rightarrow> Ret (Inl Oops))
           | CmdSubmit \<Rightarrow>
               rbind (qusb_split iso_sz d) (\<lambda>(h, u). Ret (urb_or_invalid (seqnum h) u))
           | CmdUnlink \<Rightarrow> Ret (Inr (FUnlink (seqnum h)))
           | CmdPort \<Rightarrow> Ret (Inr (FPortReset (seqnum h)))
           | RetPort \<Rightarrow>
               (case hdr_status h of
                  Success \<Rightarrow> Ret (Inr (FPortReset (seqnum h)))
                | Failed \<Rightarrow> Panic
                | DevBusy \<Rightarrow> Panic
                | DevErr \<Rightarrow> Ret (Inl AbortProto)
                | NoDev \<Rightarrow> Ret (Inl DeviceDisconnected)
                | Unexpected \<Rightarrow> Panic
                | VersionMismatch \<Rightarrow> Panic
                | Timeout \<Rightarrow> Panic
                | Proto \<Rightarrow> Ret (Inl Oops))))"

section \<open>Facts: cutting one frame\<close>

text \<open>A header announces a frame that the length field can carry: at least the header itself
  and less than 64 KiB.\<close>

definition frame_ok :: "header \<Rightarrow> bytes \<Rightarrow> bool" where
  "frame_ok h payload \<longleftrightarrow>
     unat (total_frame_len h) * 8 = 8 + length payload \<and> unat (total_frame_len h) < 8192"

lemma qusb_frame_simps [simp]:
  "size_of_header qusb_frame = 8" "align_of qusb_frame = 4" "size_of_data qusb_frame = 1"
  "header_valid qusb_frame bs \<longleftrightarrow> header_from_bytes bs \<noteq> None"
  "get_slice_len qusb_frame = qusb_get_slice_len"
  by (simp_all add: qusb_frame_def HEADER_SIZE_def)

lemma urb_frame_simps [simp]:
  "size_of_header (urb_frame iso_sz) = 24" "align_of (urb_frame iso_sz) = 2"
  "size_of_data (urb_frame iso_sz) = 1"
  "header_valid (urb_frame iso_sz) bs \<longleftrightarrow> urb_header_from_bytes bs \<noteq> None"
  by (simp_all add: urb_frame_def URB_HEADER_SIZE_def)

lemma dst_round: "8 \<le> n \<Longrightarrow> (11 + (n - 8)) div 4 * 4 = n \<longleftrightarrow> n mod 4 = (0::nat)"
  by presburger

lemma dst_round_urb: "24 \<le> n \<Longrightarrow> (25 + (n - 24)) div 2 * 2 = n \<longleftrightarrow> n mod 2 = (0::nat)"
  by presburger

lemma try_ref_qusb:
  "try_ref_from_bytes qusb_frame addr bs \<longleftrightarrow>
     addr mod 4 = 0 \<and> 8 \<le> length bs \<and> length bs mod 4 = 0 \<and>
     header_from_bytes (take 8 bs) \<noteq> None"
  using dst_round [of "length bs"] by (auto simp: try_ref_from_bytes_def dst_size_def)

lemma try_ref_urb:
  "try_ref_from_bytes (urb_frame iso_sz) addr bs \<longleftrightarrow>
     addr mod 2 = 0 \<and> 24 \<le> length bs \<and> length bs mod 2 = 0 \<and>
     urb_header_from_bytes (take 24 bs) \<noteq> None"
  using dst_round_urb [of "length bs"] by (auto simp: try_ref_from_bytes_def dst_size_def)

lemma header_from_as [simp]: "header_from_bytes (header_as_bytes h) = Some h"
  using header_layout.dec_enc by simp

lemma urb_header_from_as [simp]: "urb_header_from_bytes (urb_header_as_bytes h) = Some h"
  using urb_header_layout.dec_enc by simp

lemma header_bytes_first:
  obtains rest where "header_as_bytes h = ucast (total_frame_len h) #
    ucast (drop_bit 8 (total_frame_len h)) # rest"
  by (simp add: header_as_bytes_def le16_def)

lemma u16_mul_8:
  "unat w < 8192 \<Longrightarrow> \<exists>l. u16_mul chk w 8 = Ret l \<and> unat l = unat w * 8"
  by (simp add: u16_mul_def unat_word_ariths)

lemma qusb_get_slice_len_header:
  assumes "unat (total_frame_len h) < 8192" and "8 \<le> unat (total_frame_len h) * 8"
  shows "qusb_get_slice_len chk addr (header_as_bytes h @ bs) =
    (let n = unat (total_frame_len h) * 8
     in if n > 8 + length bs then Ret (Inl (SliceBufferShort (n - (8 + length bs))))
        else Ret (Inr (n - 8)))"
proof -
  obtain l where l: "u16_mul chk (total_frame_len h) 8 = Ret l" "unat l = unat (total_frame_len h) * 8"
    using u16_mul_8 [OF assms(1), of chk] by blast
  obtain xs where xs: "header_as_bytes h = ucast (total_frame_len h) #
      ucast (drop_bit 8 (total_frame_len h)) # xs"
    by (rule header_bytes_first)
  have "length xs = 6" using arg_cong [OF xs, of length] by simp
  then show ?thesis
    using l assms(2) by (simp add: qusb_get_slice_len_def xs Let_def HEADER_SIZE_def)
qed

lemma claim_qusb_frame:
  assumes fr: "frame_ok h payload" and ok: "ring_ok r"
    and buf: "r_buf r = header_as_bytes h @ payload @ rest"
  shows "claim_dst chk qusb_frame r =
    Ret (Inr \<lparr>d_addr = r_addr r, d_bytes = header_as_bytes h @ payload\<rparr>,
      ring_advance (8 + length payload) r)"
proof -
  let ?n = "unat (total_frame_len h) * 8"
  from fr have n: "?n = 8 + length payload" "unat (total_frame_len h) < 8192" "?n < 65536"
    by (simp_all add: frame_ok_def)
  have sl: "qusb_get_slice_len chk (r_addr r) (r_buf r) = Ret (Inr (length payload))"
    using n by (simp add: buf qusb_get_slice_len_header Let_def)
  have al: "r_addr r mod 4 = 0" "length payload mod 4 = 0"
    using ok n(1) unfolding ring_ok_def by presburger+
  have "data_new qusb_frame \<lparr>d_addr = r_addr r, d_bytes = header_as_bytes h @ payload\<rparr> =
      Inr \<lparr>d_addr = r_addr r, d_bytes = header_as_bytes h @ payload\<rparr>"
    using al by (simp add: data_new_def try_ref_qusb mod_add_eq [symmetric])
  then show ?thesis
    using n sl by (simp add: claim_dst_def split_to_def ring_len_def buf)
qed

lemma two_bytesE:
  assumes "2 \<le> ring_len r"
  obtains b0 b1 bs where "r_buf r = b0 # b1 # bs"
  using assms by (cases "r_buf r" rule: remdups_adj.cases) (auto simp: ring_len_def)

lemma claim_qusb_cases:
  assumes "u16_mul chk (un16 b0 b1) 8 = Ret l" and "r_buf r = b0 # b1 # bs"
  shows "claim_dst chk qusb_frame r =
    (if unat l > ring_len r then Ret (Inl (BufferShort (unat l - ring_len r)), r)
     else rbind (usize_sub chk (unat l) HEADER_SIZE) (\<lambda>s.
       rbind (usize_add chk HEADER_SIZE s) (\<lambda>n.
         rbind (split_to n r) (\<lambda>(buf, r'). Ret (data_new qusb_frame buf, r')))))"
proof (cases "usize_sub chk (unat l) HEADER_SIZE")
qed (use assms in \<open>simp_all add: claim_dst_def qusb_get_slice_len_def Let_def ring_len_def HEADER_SIZE_def\<close>)

lemma data_new_not_short: "data_new T d \<noteq> Inl (BufferShort n)"
  by (simp add: data_new_def)

lemma claim_qusb_short:
  assumes "claim_dst chk qusb_frame r = Ret (Inl (BufferShort n), r')" and "2 \<le> ring_len r"
  shows "r' = r \<and> 0 < n \<and>
    (\<exists>l. u16_mul chk (un16 (r_buf r ! 0) (r_buf r ! 1)) 8 = Ret l \<and> unat l = ring_len r + n)"
proof -
  from assms(2) obtain b0 b1 bs where buf: "r_buf r = b0 # b1 # bs"
    by (rule two_bytesE)
  show ?thesis
  proof (cases "u16_mul chk (un16 b0 b1) 8")
    case (Ret l)
    show ?thesis
    proof (cases "unat l > ring_len r")
      case True
      with assms(1) have "r' = r" "n = unat l - ring_len r"
        by (auto simp: claim_qusb_cases [OF Ret buf])
      with True Ret buf show ?thesis by simp
    next
      case False
      with assms(1) show ?thesis
        by (auto simp: claim_qusb_cases [OF Ret buf] rbind_eq_Ret data_new_not_short split: prod.splits)
    qed
  qed (use assms(1) in \<open>simp_all add: claim_dst_def qusb_get_slice_len_def buf\<close>)
qed

lemma claim_qusb_not_short:
  assumes "u16_mul chk (un16 (r_buf r ! 0) (r_buf r ! 1)) 8 = Ret l" and "unat l \<le> ring_len r"
    and "2 \<le> ring_len r"
  shows "claim_dst chk qusb_frame r \<noteq> Ret (Inl (BufferShort n), r')"
  using claim_qusb_short [of chk r n r'] assms by auto

section \<open>Facts: receiving\<close>

lemma fill_until_appends:
  "fill_until al rd n r rx = (res, r', rx') \<Longrightarrow>
     (\<exists>bs. r_buf r' = r_buf r @ bs) \<and> (res = Inr (Some ()) \<longrightarrow> n \<le> ring_len r')"
proof (induction "n - ring_len r" arbitrary: r rx rule: less_induct)
  case less
  show ?case
  proof (cases "ring_len r < n")
    case False
    with less.prems show ?thesis by (subst (asm) fill_until_step) auto
  next
    case True
    let ?r = "fill_room al n r"
    obtain x rx2 where x: "rd rx (r_cap ?r - ring_len r) = (x, rx2)" by fastforce
    show ?thesis
    proof (cases x)
      case (Inl e)
      with less.prems True x show ?thesis
        by (subst (asm) fill_until_step) (auto simp: fill_room_def split: if_splits)
    next
      case (Inr bs)
      let ?r2 = "?r\<lparr>r_buf := r_buf r @ bs\<rparr>"
      have step: "fill_until al rd n r rx =
          (if bs = [] then (Inr None, ?r2, rx2) else fill_until al rd n ?r2 rx2)"
        using True x Inr by (subst fill_until_step) (simp add: Let_def)
      show ?thesis
      proof (cases "bs = []")
        case True
        with step less.prems show ?thesis by auto
      next
        case False
        then have "0 < length bs" by simp
        moreover have "ring_len ?r2 = ring_len r + length bs" by (simp add: ring_len_def)
        ultimately have "n - ring_len ?r2 < n - ring_len r" using True by linarith
        from less.hyps [OF this, of rx2] step False less.prems show ?thesis by auto
      qed
    qed
  qed
qed

text \<open>
  Two rounds are enough: after the first, at least a header is in the buffer, so the frame's
  length is known; after the second, the whole frame is.
\<close>

lemma recv_loop_second_round:
  assumes l: "u16_mul chk (un16 (r_buf r ! 0) (r_buf r ! 1)) 8 = Ret l" "unat l \<le> n"
    and len: "2 \<le> ring_len r"
  shows "\<exists>res. recv_loop chk al rd n r rx = Some res"
proof -
  obtain res r' rx' where f: "fill_until al rd n r rx = (res, r', rx')" by (metis prod_cases3)
  from fill_until_appends [OF f] obtain bs where bs: "r_buf r' = r_buf r @ bs"
    and n: "res = Inr (Some ()) \<Longrightarrow> n \<le> ring_len r'" by blast
  have pre: "u16_mul chk (un16 (r_buf r' ! 0) (r_buf r' ! 1)) 8 = Ret l" "2 \<le> ring_len r'"
    using l(1) len bs by (auto simp: nth_append ring_len_def)
  have "res = Inr (Some ()) \<Longrightarrow> claim_dst chk qusb_frame r' \<noteq> Ret (Inl (BufferShort m), r'')" for m r''
    using claim_qusb_not_short [OF pre(1) _ pre(2)] n l(2) by (meson le_trans)
  then show ?thesis
    by (subst recv_loop.simps) (auto simp: f split: sum.splits option.splits run.splits read_error.splits)
qed

lemma recv_loop_total:
  assumes "2 \<le> n"
  shows "\<exists>res. recv_loop chk al rd n r rx = Some res"
proof -
  obtain res r' rx' where f: "fill_until al rd n r rx = (res, r', rx')" by (metis prod_cases3)
  have "\<exists>out. recv_loop chk al rd (ring_len r'' + m) r'' rx' = Some out"
    if "res = Inr (Some ())" "claim_dst chk qusb_frame r' = Ret (Inl (BufferShort m), r'')" for m r''
  proof -
    have len: "2 \<le> ring_len r'" using fill_until_appends [OF f] that(1) assms by auto
    from claim_qusb_short [OF that(2) len] obtain l
      where "r'' = r'" "u16_mul chk (un16 (r_buf r' ! 0) (r_buf r' ! 1)) 8 = Ret l"
        "unat l = ring_len r' + m" by blast
    with len show ?thesis by (auto intro: recv_loop_second_round)
  qed
  then show ?thesis
    by (subst recv_loop.simps) (auto simp: f split: sum.splits option.splits run.splits read_error.splits)
qed

lemma claim_qusb_partial:
  assumes fr: "frame_ok h payload" and buf: "r_buf r = header_as_bytes h @ xs"
    and short: "length xs < length payload"
  shows "claim_dst chk qusb_frame r = Ret (Inl (BufferShort (length payload - length xs)), r)"
  using assms by (simp add: claim_dst_def frame_ok_def qusb_get_slice_len_header Let_def)

lemma recv_frame_delivers_aux:
  assumes al: "alloc_ok al" and rd: "stream_reader rd strm" and ok: "ring_ok r"
    and fr: "frame_ok h payload" and str: "r_buf r @ strm rx = header_as_bytes h @ payload @ rest"
  shows "\<exists>a r' rx'. recv_frame chk al rd r rx =
      Some (Ret (Inr \<lparr>d_addr = a, d_bytes = header_as_bytes h @ payload\<rparr>, r', rx')) \<and>
    a mod 8 = 0 \<and> ring_ok r' \<and> r_buf r' @ strm rx' = rest"
proof -
  let ?all = "header_as_bytes h @ payload @ rest"
  have whole: "claim_dst chk qusb_frame r2 = Ret (Inr \<lparr>d_addr = r_addr r2,
      d_bytes = header_as_bytes h @ payload\<rparr>, ring_advance (8 + length payload) r2) \<and>
    ring_ok (ring_advance (8 + length payload) r2) \<and>
    r_buf (ring_advance (8 + length payload) r2) @ strm rx2 = rest"
    if r2: "ring_ok r2" "r_buf r2 @ strm rx2 = ?all" "8 + length payload \<le> ring_len r2" for r2 rx2
  proof -
    obtain rest2 where rest2: "r_buf r2 = header_as_bytes h @ payload @ rest2" "rest2 @ strm rx2 = rest"
      using append_prefixE [of "r_buf r2" "strm rx2" "header_as_bytes h @ payload" rest] r2(2,3)
      by (auto simp: ring_len_def)
    have "length payload mod 8 = 0" using fr unfolding frame_ok_def by presburger
    then have "ring_ok (ring_advance (8 + length payload) r2)"
      using r2(1,3) by (auto simp: ring_ok_def mod_add_eq [symmetric])
    with rest2 show ?thesis
      using claim_qusb_frame [OF fr r2(1) rest2(1)] by simp
  qed
  obtain res r1 rx1 where f1: "fill_until al rd 8 r rx = (Inr res, r1, rx1)" "ring_ok r1"
    "r_buf r1 @ strm rx1 = ?all" "res = Some ()" "8 \<le> ring_len r1"
    using fill_until_spec [OF al rd ok, of 8 rx] str by auto
  show ?thesis
  proof (cases "8 + length payload \<le> ring_len r1")
    case True
    from whole [OF f1(2,3) True] f1(1,2,4) show ?thesis
      unfolding recv_frame_def HEADER_SIZE_def
      by (subst recv_loop.simps) (simp add: ring_ok_def)
  next
    case False
    obtain xs where xs: "r_buf r1 = header_as_bytes h @ xs"
      by (rule append_prefixE [OF f1(3)]) (use f1(5) in \<open>simp_all add: ring_len_def\<close>)
    with False have short: "length xs < length payload" by (simp add: ring_len_def)
    let ?n = "8 + length payload"
    have n: "ring_len r1 + (length payload - length xs) = ?n"
      using short xs by (simp add: ring_len_def)
    obtain res2 r2 rx2 where f2: "fill_until al rd ?n r1 rx1 = (Inr res2, r2, rx2)" "ring_ok r2"
      "r_buf r2 @ strm rx2 = ?all" "res2 = Some ()" "?n \<le> ring_len r2"
      using fill_until_spec [OF al rd f1(2), of ?n rx1] f1(3) by auto
    have "recv_frame chk al rd r rx = recv_loop chk al rd ?n r1 rx1"
      unfolding recv_frame_def HEADER_SIZE_def using f1(1,4) n
      by (subst recv_loop.simps) (simp add: claim_qusb_partial [OF fr xs short])
    also have "\<dots> = Some (Ret (Inr \<lparr>d_addr = r_addr r2, d_bytes = header_as_bytes h @ payload\<rparr>,
        ring_advance ?n r2, rx2))"
      using whole [OF f2(2,3,5)] f2(1,4) by (subst recv_loop.simps) simp
    finally show ?thesis using whole [OF f2(2,3,5)] f2(2) by (auto simp: ring_ok_def)
  qed
qed

text \<open>Frames received one after another, as the receive loops do: the frames, and whether
  the peer closed the stream in an orderly way within the first \<open>n\<close> calls.\<close>

fun recv_frames :: "nat \<Rightarrow> bool \<Rightarrow> alloc \<Rightarrow> 'r reader \<Rightarrow> ring \<Rightarrow> 'r \<Rightarrow> bytes list \<times> bool" where
  "recv_frames 0 chk al rd r rx = ([], False)"
| "recv_frames (Suc n) chk al rd r rx =
     (case recv_frame chk al rd r rx of
        Some (Ret (Inr d, r', rx')) \<Rightarrow>
          (case recv_frames n chk al rd r' rx' of (fs, closed) \<Rightarrow> (d_bytes d # fs, closed))
      | Some (Ret (Inl None, _, _)) \<Rightarrow> ([], True)
      | _ \<Rightarrow> ([], False))"

lemma recv_frame_closed_aux:
  assumes al: "alloc_ok al" and rd: "stream_reader rd strm" and ok: "ring_ok r"
    and fr: "frame_ok h payload" and str: "(r_buf r @ strm rx) @ missing = header_as_bytes h @ payload"
    and miss: "missing \<noteq> []"
  shows "\<exists>r' rx'. recv_frame chk al rd r rx = Some (Ret (Inl None, r', rx'))"
proof -
  let ?all = "r_buf r @ strm rx"
  obtain res r1 rx1 where f1: "fill_until al rd 8 r rx = (Inr res, r1, rx1)" "ring_ok r1"
    "r_buf r1 @ strm rx1 = ?all" "res = Some () \<longleftrightarrow> 8 \<le> length ?all" "res = Some () \<longrightarrow> 8 \<le> ring_len r1"
    using fill_until_spec [OF al rd ok, of 8 rx] by auto
  show ?thesis
  proof (cases res)
    case None
    with f1(1) show ?thesis
      unfolding recv_frame_def HEADER_SIZE_def by (subst recv_loop.simps) simp
  next
    case (Some u)
    with f1 have len: "8 \<le> ring_len r1" by simp
    have whole: "r_buf r1 @ strm rx1 @ missing = header_as_bytes h @ payload"
      using str f1(3) by (metis append.assoc)
    obtain xs where xs: "r_buf r1 = header_as_bytes h @ xs" "xs @ strm rx1 @ missing = payload"
      by (rule append_prefixE [OF whole]) (use len in \<open>simp_all add: ring_len_def\<close>)
    have short: "length xs < length payload" using xs(2) miss by auto
    let ?n = "8 + length payload"
    have n: "ring_len r1 + (length payload - length xs) = ?n"
      using short xs by (simp add: ring_len_def)
    have "\<not> ?n \<le> length ?all"
      using arg_cong [OF str, of length] miss by (cases missing) simp_all
    then obtain r2 rx2 where f2: "fill_until al rd ?n r1 rx1 = (Inr None, r2, rx2)"
      using fill_until_spec [OF al rd f1(2), of ?n rx1] f1(3) by (auto simp: not_Some_unit)
    have "recv_frame chk al rd r rx = recv_loop chk al rd ?n r1 rx1"
      unfolding recv_frame_def HEADER_SIZE_def using f1(1) Some n
      by (subst recv_loop.simps) (simp add: claim_qusb_partial [OF fr xs(1) short])
    also have "\<dots> = Some (Ret (Inl None, r2, rx2))"
      using f2 by (subst recv_loop.simps) simp
    finally show ?thesis by blast
  qed
qed

lemma recv_frames_aux:
  assumes al: "alloc_ok al" and rd: "stream_reader rd strm"
  shows "ring_ok r \<Longrightarrow> \<forall>(h, p) \<in> set fs. frame_ok h p \<Longrightarrow>
    r_buf r @ strm rx = concat (map (\<lambda>(h, p). header_as_bytes h @ p) fs) \<Longrightarrow>
    recv_frames (Suc (length fs)) chk al rd r rx =
      (map (\<lambda>(h, p). header_as_bytes h @ p) fs, True)"
proof (induction fs arbitrary: r rx)
  case Nil
  let ?h = "\<lparr>total_frame_len = 1, command = CmdPort, hdr_status = Success, seqnum = 0\<rparr>"
  have "\<exists>r' rx'. recv_frame chk al rd r rx = Some (Ret (Inl None, r', rx'))"
    by (rule recv_frame_closed_aux [OF al rd Nil(1), of ?h "[]" _ "header_as_bytes ?h"])
      (use Nil(3) length_header_as_bytes [of ?h] in \<open>auto simp: frame_ok_def simp del: length_header_as_bytes\<close>)
  then show ?case by auto
next
  case (Cons f fs)
  obtain h p where f: "f = (h, p)" by (cases f)
  obtain a r' rx' where "recv_frame chk al rd r rx =
      Some (Ret (Inr \<lparr>d_addr = a, d_bytes = header_as_bytes h @ p\<rparr>, r', rx'))"
    "ring_ok r'" "r_buf r' @ strm rx' = concat (map (\<lambda>(h, p). header_as_bytes h @ p) fs)"
    using recv_frame_delivers_aux [OF al rd Cons.prems(1), of h p] Cons.prems f by auto blast
  with Cons.IH [of r' rx'] Cons.prems(2) f show ?case by simp
qed

lemma claim_dst_valid:
  "claim_dst chk qusb_frame r \<noteq> Undef \<and>
   (claim_dst chk qusb_frame r = Ret (Inr d, r') \<longrightarrow> try_ref_from_bytes qusb_frame (d_addr d) (d_bytes d))"
proof -
  have "qusb_get_slice_len chk a bs \<noteq> Undef" for a bs
    by (auto simp: qusb_get_slice_len_def u16_mul_def usize_sub_def Let_def split: list.splits)
  then show ?thesis
    by (cases "qusb_get_slice_len chk (r_addr r) (r_buf r)")
      (auto simp: claim_dst_def usize_add_def split_to_def data_new_def split: sum.splits if_splits)
qed

lemma recv_loop_valid:
  assumes "recv_loop chk al rd n r rx = Some out"
  shows "out \<noteq> Undef \<and> (\<forall>d r' rx'. out = Ret (Inr d, r', rx') \<longrightarrow>
    try_ref_from_bytes qusb_frame (d_addr d) (d_bytes d))"
proof (rule recv_loop.raw_induct [where P = "\<lambda>chk al rd n r rx out. out \<noteq> Undef \<and>
    (\<forall>d r' rx'. out = Ret (Inr d, r', rx') \<longrightarrow> try_ref_from_bytes qusb_frame (d_addr d) (d_bytes d))",
    OF _ assms], goal_cases)
  case (1 rec chk al rd n r rx out)
  show ?case
  proof (cases "fill_until al rd n r rx")
    case (fields res r1 rx1)
    note u = claim_dst_valid [of chk r1, THEN conjunct1]
    have v: "\<And>d r'. claim_dst chk qusb_frame r1 = Ret (Inr d, r') \<Longrightarrow>
        try_ref_from_bytes qusb_frame (d_addr d) (d_bytes d)"
      using claim_dst_valid [of chk r1] by blast
    have ih: "\<And>n r rx. rec chk al rd n r rx \<noteq> Some Undef" using 1(1) by blast
    show ?thesis
      using 1 fields u v ih
      by (auto split: sum.splits option.splits run.splits read_error.splits)
  qed
qed

section \<open>Facts: parsing\<close>

lemma try_ref_header:
  assumes "try_ref_from_bytes qusb_frame (d_addr d) (d_bytes d)"
  obtains h payload where "d_bytes d = header_as_bytes h @ payload"
    and "header_from_bytes (take HEADER_SIZE (d_bytes d)) = Some h"
proof -
  from assms obtain h where h: "header_from_bytes (take 8 (d_bytes d)) = Some h"
    by (auto simp: try_ref_qusb)
  then have "header_as_bytes h = take 8 (d_bytes d)" by (simp add: header_layout.dec_iff)
  then have "d_bytes d = header_as_bytes h @ drop 8 (d_bytes d)" by simp
  with h that show ?thesis by (simp add: HEADER_SIZE_def)
qed

lemma split_qusb:
  assumes "try_ref_from_bytes qusb_frame (d_addr d) (d_bytes d)"
  shows "split_data qusb_frame (urb_frame iso_sz) d =
    Ret (let d' = \<lparr>d_addr = d_addr d + 8, d_bytes = drop 8 (d_bytes d)\<rparr>
         in if try_ref_from_bytes (urb_frame iso_sz) (d_addr d') (d_bytes d') then Some d' else None)"
  using assms by (simp add: split_data_def data_advance_def try_ref_qusb data_new_def)

text \<open>The statuses that \<open>parse_frame\<close> has no arm for.\<close>

definition unexpected_status :: "status \<Rightarrow> bool" where
  "unexpected_status st \<longleftrightarrow> st \<in> {Failed, DevBusy, Unexpected, VersionMismatch, Timeout}"

lemma parse_frame_cases_aux:
  assumes d: "try_ref_from_bytes qusb_frame (d_addr d) (d_bytes d)"
    and h: "header_from_bytes (take HEADER_SIZE (d_bytes d)) = Some h"
  shows "parse_frame iso_sz d \<noteq> Undef \<and>
    (parse_frame iso_sz d = Panic \<longleftrightarrow>
       command h \<in> {RetSubmit, RetPort} \<and> unexpected_status (hdr_status h))"
  using h split_qusb [OF d, of iso_sz]
  by (auto simp: parse_frame_def qusb_split_def unexpected_status_def
    split: command.splits status.splits)

lemma parse_urb_aux:
  assumes a: "a mod 8 = 0" and len: "length body mod 8 = 0"
    and c: "command h = CmdSubmit \<or> (command h = RetSubmit \<and> hdr_status h = Success)"
  shows "parse_frame iso_sz \<lparr>d_addr = a, d_bytes = header_as_bytes h @ urb_header_as_bytes uh @ body\<rparr> =
    Ret (Inr (FUrb \<lparr>sq_seqnum = seqnum h,
      sq_data = \<lparr>d_addr = a + 8, d_bytes = urb_header_as_bytes uh @ body\<rparr>\<rparr>))"
proof -
  let ?d = "\<lparr>d_addr = a, d_bytes = header_as_bytes h @ urb_header_as_bytes uh @ body\<rparr>"
  have al: "a mod 4 = 0" "a mod 2 = 0" "length body mod 4 = 0" "length body mod 2 = 0"
    using a len by presburger+
  then have "(a + 8) mod 2 = 0" "(24 + length body) mod 2 = 0" "(32 + length body) mod 4 = 0"
    by presburger+
  with al have t: "try_ref_from_bytes qusb_frame (d_addr ?d) (d_bytes ?d)"
    "try_ref_from_bytes (urb_frame iso_sz) (a + 8) (urb_header_as_bytes uh @ body)"
    by (simp_all add: try_ref_qusb try_ref_urb)
  have "split_data qusb_frame (urb_frame iso_sz) ?d =
      Ret (Some \<lparr>d_addr = a + 8, d_bytes = urb_header_as_bytes uh @ body\<rparr>)"
    using split_qusb [OF t(1), of iso_sz] t(2) by (simp add: Let_def)
  with c show ?thesis
    by (auto simp: parse_frame_def qusb_split_def HEADER_SIZE_def urb_or_invalid_def)
qed

section \<open>Properties of frames on the wire\<close>

text \<open>C38. Whatever pieces the stream arrives in, a stream of well-formed frames is received as
  exactly those frames, in order, and after the last one the receiver sees an orderly close.\<close>

theorem recv_frames_in_order:
  assumes "alloc_ok al" and "stream_reader rd strm" and "ring_ok r"
    and "\<forall>(h, p) \<in> set fs. frame_ok h p"
    and "r_buf r @ strm rx = concat (map (\<lambda>(h, p). header_as_bytes h @ p) fs)"
  shows "recv_frames (Suc (length fs)) chk al rd r rx =
    (map (\<lambda>(h, p). header_as_bytes h @ p) fs, True)"
  by (rule recv_frames_aux [OF assms(1,2,3,4,5)])

theorem recv_frames_in_order_witness:
  "let h = \<lparr>total_frame_len = 2, command = CmdUnlink, hdr_status = Success, seqnum = 7\<rparr>;
       fs = [(h, [1,2,3,4,5,6,7,8]), (h\<lparr>total_frame_len := 1\<rparr>, [])]
   in recv_frames 3 True exact_alloc (chunk_reader 5) (ring_with_capacity 0 0)
        (concat (map (\<lambda>(h, p). header_as_bytes h @ p) fs)) =
      (map (\<lambda>(h, p). header_as_bytes h @ p) fs, True)"
  using recv_frames_in_order [of exact_alloc "chunk_reader 5" id "ring_with_capacity 0 0"
    "let h = \<lparr>total_frame_len = 2, command = CmdUnlink, hdr_status = Success, seqnum = 7\<rparr>
     in [(h, [1,2,3,4,5,6,7,8]), (h\<lparr>total_frame_len := 1\<rparr>, [])]" _ True]
  by (simp add: Let_def frame_ok_def numeral_3_eq_3)

text \<open>C39. \<open>recv_frame\<close> returns for every reader, even one that fails or ends early: the loop never
  goes round more than twice. It does not break the contract of an unsafe call, and a frame it
  hands out starts with a valid header and is aligned as its type demands.\<close>

theorem recv_frame_returns:
  "\<exists>out. recv_frame chk al rd r rx = Some out \<and>
     (case out of
        Ret (Inr d, _, _) \<Rightarrow> try_ref_from_bytes qusb_frame (d_addr d) (d_bytes d)
      | Undef \<Rightarrow> False
      | _ \<Rightarrow> True)"
proof -
  obtain out where "recv_loop chk al rd 8 r rx = Some out"
    using recv_loop_total [of 8 chk al rd r rx] by auto
  with recv_loop_valid [OF this] show ?thesis
    by (auto simp: recv_frame_def HEADER_SIZE_def split: run.split sum.split)
qed

text \<open>A stream that ends in the middle of a frame is an orderly close, not an error and
  not a truncated frame.\<close>

theorem recv_frame_closed:
  assumes "alloc_ok al" and "stream_reader rd strm" and "ring_ok r" and "frame_ok h payload"
    and "(r_buf r @ strm rx) @ missing = header_as_bytes h @ payload" and "missing \<noteq> []"
  shows "\<exists>r' rx'. recv_frame chk al rd r rx = Some (Ret (Inl None, r', rx'))"
  by (rule recv_frame_closed_aux [OF assms])

theorem recv_frame_closed_witness:
  "\<exists>r' rx'. recv_frame True exact_alloc (chunk_reader 3) (ring_with_capacity 0 0)
     [2, 0, 1, 0, 9, 0, 0, 0, 1, 2, 3] = Some (Ret (Inl None, r', rx'))"
  by (rule recv_frame_closed [of exact_alloc "chunk_reader 3" id _
      "\<lparr>total_frame_len = 2, command = CmdUnlink, hdr_status = Success, seqnum = 9\<rparr>"
      "[1,2,3,4,5,6,7,8]" _ "[4,5,6,7,8]"])
    (simp_all add: frame_ok_def header_as_bytes_def le16_def le32_def)

text \<open>A frame of 64 KiB or more, which the 16-bit length in units of eight bytes can announce
  and \<open>compress_frame_len\<close> does produce, is not received: with overflow checks the receiver
  panics, because the length in bytes is computed in sixteen bits.\<close>

theorem recv_frame_oversized:
  assumes "alloc_ok al" and "stream_reader rd strm" and "ring_ok r"
    and "65536 \<le> len" and "len < 524288" and "len mod 8 = 0"
    and "total_frame_len h = compress_frame_len len"
    and "r_buf r @ strm rx = header_as_bytes h @ rest"
  shows "recv_frame True al rd r rx = Some Panic"
proof -
  obtain r1 rx1 where f: "fill_until al rd 8 r rx = (Inr (Some ()), r1, rx1)"
    "r_buf r1 @ strm rx1 = header_as_bytes h @ rest" "8 \<le> ring_len r1"
    using fill_until_spec [OF assms(1-3), of 8 rx] assms(8) by auto
  obtain xs where xs: "r_buf r1 = header_as_bytes h @ xs"
    by (rule append_prefixE [OF f(2)]) (use f(3) in \<open>simp_all add: ring_len_def\<close>)
  obtain b where b: "header_as_bytes h = ucast (total_frame_len h) #
      ucast (drop_bit 8 (total_frame_len h)) # b" by (rule header_bytes_first)
  have "unat (total_frame_len h) * 8 = len"
    using unat_compress_frame_len [OF assms(6,5)] assms(7) by simp
  then have "u16_mul True (total_frame_len h) 8 = Panic"
    using assms(4) by (simp add: u16_mul_def)
  then have "claim_dst True qusb_frame r1 = Panic"
    by (simp add: claim_dst_def qusb_get_slice_len_def xs b)
  then show ?thesis
    unfolding recv_frame_def HEADER_SIZE_def by (subst recv_loop.simps) (simp add: f(1))
qed

theorem recv_frame_oversized_witness:
  "recv_frame True exact_alloc (chunk_reader 100) (ring_with_capacity 0 0)
     [0, 32, 0, 0, 9, 0, 0, 0, 1, 2, 3] = Some Panic"
  by (rule recv_frame_oversized [of exact_alloc "chunk_reader 100" id _ 65536
      "\<lparr>total_frame_len = 8192, command = CmdSubmit, hdr_status = Success, seqnum = 9\<rparr>" _ "[1,2,3]"])
    (simp_all add: header_as_bytes_def le16_def le32_def compress_frame_len_def drop_bit_eq_div)

text \<open>Parsing inverts framing for transfers: a request, or a successful reply, is parsed to its
  sequence number and a view of exactly the transfer's bytes, behind the frame header.\<close>

theorem parse_frame_urb:
  assumes "a mod 8 = 0" and "length body mod 8 = 0"
    and "command h = CmdSubmit \<or> (command h = RetSubmit \<and> hdr_status h = Success)"
  shows "parse_frame iso_sz \<lparr>d_addr = a, d_bytes = header_as_bytes h @ urb_header_as_bytes uh @ body\<rparr> =
    Ret (Inr (FUrb \<lparr>sq_seqnum = seqnum h,
      sq_data = \<lparr>d_addr = a + 8, d_bytes = urb_header_as_bytes uh @ body\<rparr>\<rparr>))"
  by (rule parse_urb_aux [OF assms])

theorem parse_frame_urb_witness:
  "parse_frame 16 \<lparr>d_addr = 64, d_bytes =
     header_as_bytes \<lparr>total_frame_len = 5, command = RetSubmit, hdr_status = Success, seqnum = 3\<rparr> @
     urb_header_as_bytes (\<lparr>actual_transfer_len = 2, iso_packet_count = 0, endpoint = 129, kind = Bulk,
       interval = 0, urb_status = TS_Success, uh_padding = (0, 0, 0), flags = 0, num_errors = 0,
       ctrl_packet = 0\<rparr>) @ [1, 2, 0, 0, 0, 0, 0, 0]\<rparr> =
   Ret (Inr (FUrb \<lparr>sq_seqnum = 3, sq_data = \<lparr>d_addr = 72, d_bytes =
     urb_header_as_bytes (\<lparr>actual_transfer_len = 2, iso_packet_count = 0, endpoint = 129, kind = Bulk,
       interval = 0, urb_status = TS_Success, uh_padding = (0, 0, 0), flags = 0, num_errors = 0,
       ctrl_packet = 0\<rparr>) @ [1, 2, 0, 0, 0, 0, 0, 0]\<rparr>\<rparr>))"
  by (subst parse_frame_urb) simp_all

text \<open>C40. On every frame that \<open>recv_frame\<close> hands out, \<open>parse_frame\<close> keeps the contracts of its unsafe
  calls, and it panics exactly for a reply whose status it has no arm for.\<close>

theorem parse_frame_cases:
  assumes "try_ref_from_bytes qusb_frame (d_addr d) (d_bytes d)"
    and "d_bytes d = header_as_bytes h @ payload"
  shows "parse_frame iso_sz d \<noteq> Undef \<and>
    (parse_frame iso_sz d = Panic \<longleftrightarrow>
       command h \<in> {RetSubmit, RetPort} \<and> unexpected_status (hdr_status h))"
  by (rule parse_frame_cases_aux [OF assms(1)]) (simp add: assms(2) HEADER_SIZE_def)

theorem parse_frame_cases_witness:
  "parse_frame 16 \<lparr>d_addr = 64, d_bytes = header_as_bytes
     \<lparr>total_frame_len = 1, command = RetPort, hdr_status = Failed, seqnum = 3\<rparr>\<rparr> = Panic"
  using parse_frame_cases [of "\<lparr>d_addr = 64, d_bytes = header_as_bytes
    \<lparr>total_frame_len = 1, command = RetPort, hdr_status = Failed, seqnum = 3\<rparr>\<rparr>"
    "\<lparr>total_frame_len = 1, command = RetPort, hdr_status = Failed, seqnum = 3\<rparr>" "[]" 16]
  by (simp add: try_ref_qusb unexpected_status_def)

end
