(* ===== verification/Borrow_Loop.thy ===== *)
theory Borrow_Loop
  imports Send_Loop Vhci Proto_Frame
begin

text \<open>
  The loops of \<^verbatim>\<open>crates/qusb-borrow/src/lib.rs\<close>: \<^verbatim>\<open>SendLoop::do_loop\<close> turns work of the VHCI
  driver into frames, \<^verbatim>\<open>RecvLoop::do_loop\<close> turns frames of the peer into replies for the
  driver. A loop is a step function on its state; an event is what the race of its futures
  yields. The handler traits are records of functions.
\<close>

section \<open>Errors\<close>

datatype vhci_error = Driver io_error | Phys abortable_error

datatype borrow_error = BVhci vhci_error | BRecv recv_error | BSend io_error

section \<open>The send loop\<close>

record 'h borrow_send_handler =
  bh_port_stat :: "ioc_port_stat \<Rightarrow> 'h \<Rightarrow> 'h run"
  bh_set_address :: "ioc_urb \<Rightarrow> urb_handle \<Rightarrow> 'h \<Rightarrow> 'h"
  bh_process_urb :: "ioc_urb \<Rightarrow> urb_handle \<Rightarrow> 'h \<Rightarrow> ((io_error + unit) \<times> 'h) run"
  bh_cancel_urb :: "urb_handle \<Rightarrow> 'h \<Rightarrow> 'h"
  bh_is_buf_empty :: "'h \<Rightarrow> bool"
  bh_flush_buf :: "'h \<Rightarrow> bytes \<times> 'h"

datatype work_result =
    WSetAddress ioc_urb urb_handle
  | WProcessUrb "io_error + unit"
  | MustveBeenTheWind

definition is_set_address :: "vhci_ops \<Rightarrow> ioc_urb \<Rightarrow> bool" where
  "is_set_address V urb \<longleftrightarrow> iu_typ urb = UrbCtrl \<and> is_for_unassigned V (iu_address urb) \<and>
     setup_req V (iu_setup_packet urb) = STANDARD_DEVICE_SET_ADDRESS"

definition handle_work :: "vhci_ops \<Rightarrow> 'h borrow_send_handler \<Rightarrow> work \<Rightarrow> 'h \<Rightarrow> (work_result \<times> 'h) run" where
  "handle_work V H w h =
     (case w of
        PortStat nxt \<Rightarrow> rbind (bh_port_stat H nxt h) (\<lambda>h'. Ret (MustveBeenTheWind, h'))
      | ProcessUrb urb hnd \<Rightarrow>
          if is_set_address V urb then Ret (WSetAddress urb hnd, bh_set_address H urb hnd h)
          else rbind (bh_process_urb H urb hnd h) (\<lambda>(r, h'). Ret (WProcessUrb r, h'))
      | CancelUrb hnd \<Rightarrow> Ret (MustveBeenTheWind, bh_cancel_urb H hnd h))"

text \<open>The pending future of \<open>set_address\<close> (the giveback of that request) is \<open>addr_setter\<close>.\<close>

record 'h borrow_sender = "'h sender" +
  addr_setter :: "(ioc_urb \<times> urb_handle) option"

datatype send_event =
    EvSetAddress "io_error + unit"
  | EvWork work
  | EvFlushBuf
  | EvFlushComplete "io_error + bytes"
  | EvClosed

text \<open>The events that the race can yield: a flush that completes has written all its bytes.\<close>

fun send_ready :: "('h, 'a) borrow_sender_scheme \<Rightarrow> send_event \<Rightarrow> bool" where
  "send_ready s (EvWork _) = True"
| "send_ready s EvClosed = True"
| "send_ready s EvFlushBuf = (s_state s = Timer \<and> sleeper s)"
| "send_ready s (EvFlushComplete r) = (s_state s = Flush \<and>
     (case flusher s of None \<Rightarrow> False
      | Some (tx, bs) \<Rightarrow> (case r of Inl _ \<Rightarrow> True | Inr tx' \<Rightarrow> tx' = tx @ bs)))"
| "send_ready s (EvSetAddress _) = (addr_setter s \<noteq> None)"

text \<open>One round of the loop. \<open>Inl None\<close> is the orderly end, \<open>Inl (Some e)\<close> an error.\<close>

definition borrow_send_step :: "vhci_ops \<Rightarrow> 'h borrow_send_handler \<Rightarrow> send_event \<Rightarrow> 'h borrow_sender \<Rightarrow>
    (borrow_error option + 'h borrow_sender) run" where
  "borrow_send_step V H ev s =
     (case ev of
        EvClosed \<Rightarrow> Ret (Inl None)
      | EvWork w \<Rightarrow>
          rbind (handle_work V H w (s_handler s)) (\<lambda>(r, h).
            let s1 = s\<lparr>s_handler := h\<rparr> in
            case r of
              WSetAddress urb hnd \<Rightarrow> Ret (Inr (s1\<lparr>addr_setter := Some (urb, hnd)\<rparr>))
            | WProcessUrb (Inl err) \<Rightarrow> Ret (Inl (Some (BVhci (Driver err))))
            | _ \<Rightarrow>
                if s_state s = Solicit \<and> \<not> bh_is_buf_empty H h
                then Ret (Inr (s1\<lparr>sleeper := True, s_state := Timer\<rparr>))
                else Ret (Inr s1))
      | EvFlushBuf \<Rightarrow> rbind (on_flush_buf (bh_flush_buf H) s) (\<lambda>s'. Ret (Inr s'))
      | EvFlushComplete (Inr tx) \<Rightarrow> Ret (Inr (on_flush_complete (bh_is_buf_empty H) tx s))
      | EvSetAddress (Inr _) \<Rightarrow> Ret (Inr (s\<lparr>addr_setter := None\<rparr>))
      | EvSetAddress (Inl err) \<Rightarrow> Ret (Inl (Some (BVhci (Driver err))))
      | EvFlushComplete (Inl err) \<Rightarrow> Ret (Inl (Some (BSend err))))"

definition start_borrow_sender :: "bytes \<Rightarrow> 'h \<Rightarrow> 'h borrow_sender" where
  "start_borrow_sender tx h = \<lparr>s_state = Solicit, tx_holder = Some tx, sleeper = False,
     flusher = None, s_handler = h, addr_setter = None\<rparr>"

inductive borrow_send_reach :: "vhci_ops \<Rightarrow> 'h borrow_send_handler \<Rightarrow> (work \<Rightarrow> bool) \<Rightarrow> 'h \<Rightarrow>
    'h borrow_sender \<Rightarrow> bool" for V H ok h0 where
  start: "borrow_send_reach V H ok h0 (start_borrow_sender [] h0)"
| step: "borrow_send_reach V H ok h0 s \<Longrightarrow> send_ready s ev \<Longrightarrow>
    (case ev of EvWork w \<Rightarrow> ok w | _ \<Rightarrow> True) \<Longrightarrow>
    borrow_send_step V H ev s = Ret (Inr s') \<Longrightarrow> borrow_send_reach V H ok h0 s'"

text \<open>The loop taking some events, each of which it was waiting for.\<close>

fun borrow_send_run :: "vhci_ops \<Rightarrow> 'h borrow_send_handler \<Rightarrow> send_event list \<Rightarrow> 'h borrow_sender \<Rightarrow>
    'h borrow_sender option" where
  "borrow_send_run V H [] s = Some s"
| "borrow_send_run V H (ev # evs) s =
     (if send_ready s ev
      then (case borrow_send_step V H ev s of Ret (Inr s') \<Rightarrow> borrow_send_run V H evs s' | _ \<Rightarrow> None)
      else None)"

lemma send_run_append:
  "borrow_send_run V H (evs @ evs') s = Option.bind (borrow_send_run V H evs s) (borrow_send_run V H evs')"
  by (induction evs arbitrary: s) (auto split: run.split sum.split)

definition flush_events :: "send_event set" where
  "flush_events = insert EvFlushBuf (range (\<lambda>tx. EvFlushComplete (Inr tx)))"

section \<open>The receive loop\<close>

record 'h borrow_recv_handler =
  br_device_reset :: "u32 \<Rightarrow> 'h \<Rightarrow> ((io_error + unit) \<times> 'h) run"
  br_urb_reply :: "data seq \<Rightarrow> 'h \<Rightarrow> 'h run"

text \<open>The state is the handler and the number of giveback futures in \<^verbatim>\<open>replies\<close>.\<close>

record 'h borrow_receiver =
  br_handler :: 'h
  replies :: nat

datatype recv_event =
    EvFrame "borrow_error + frame"
  | GivebackComplete "io_error + unit"
  | EvFramesClosed

fun recv_ready :: "'h borrow_receiver \<Rightarrow> recv_event \<Rightarrow> bool" where
  "recv_ready s (GivebackComplete _) = (0 < replies s)"
| "recv_ready s _ = True"

definition borrow_recv_step :: "'h borrow_recv_handler \<Rightarrow> recv_event \<Rightarrow> 'h borrow_receiver \<Rightarrow>
    (borrow_error option + 'h borrow_receiver) run" where
  "borrow_recv_step H ev s =
     (case ev of
        EvFramesClosed \<Rightarrow> Ret (Inl None)
      | GivebackComplete (Inr _) \<Rightarrow> Ret (Inr (s\<lparr>replies := replies s - 1\<rparr>))
      | EvFrame (Inr (FUrb sq)) \<Rightarrow>
          rbind (br_urb_reply H sq (br_handler s)) (\<lambda>h.
            Ret (Inr (s\<lparr>br_handler := h, replies := replies s + 1\<rparr>)))
      | EvFrame (Inr (FPortReset sn)) \<Rightarrow>
          rbind (br_device_reset H sn (br_handler s)) (\<lambda>(r, h).
            case r of Inl err \<Rightarrow> Ret (Inl (Some (BVhci (Driver err))))
                    | Inr _ \<Rightarrow> Ret (Inr (s\<lparr>br_handler := h\<rparr>)))
      | EvFrame (Inl err) \<Rightarrow> Ret (Inl (Some err))
      | GivebackComplete (Inl err) \<Rightarrow> Ret (Inl (Some (BVhci (Driver err))))
      | EvFrame (Inr (FUnlink _)) \<Rightarrow> Panic)"

text \<open>One item of the frame stream of \<^verbatim>\<open>RecvLoop::run\<close>: \<open>None\<close> is the end of the stream.\<close>

definition borrow_next_frame :: "bool \<Rightarrow> nat \<Rightarrow> alloc \<Rightarrow> 'r reader \<Rightarrow> ring \<Rightarrow> 'r \<Rightarrow>
    (((borrow_error + frame) \<times> ring \<times> 'r) option) run option" where
  "borrow_next_frame chk iso_sz al rd buf rx =
     map_option (\<lambda>res. rbind res (\<lambda>(fr, buf', rx').
       case fr of
         Inr d \<Rightarrow> rbind (parse_frame iso_sz d) (\<lambda>p.
           Ret (Some (case p of Inr f \<Rightarrow> Inr f | Inl err \<Rightarrow> Inl (BVhci (Phys err)), buf', rx')))
       | Inl None \<Rightarrow> Ret None
       | Inl (Some err) \<Rightarrow> Ret (Some (Inl (BRecv err), buf', rx'))))
       (recv_frame chk al rd buf rx)"

text \<open>The end of both \<^verbatim>\<open>run\<close> functions: an orderly end of a loop is not an error.\<close>

fun borrow_run_result :: "borrow_error option \<Rightarrow> borrow_error + unit" where
  "borrow_run_result None = Inr ()"
| "borrow_run_result (Some err) = Inl err"

text \<open>Draining: read into a buffer of 32 bytes that is never emptied, until a read gives nothing
  or fails. The result is what is left of the stream.\<close>

partial_function (option) drain :: "'r reader \<Rightarrow> ring \<Rightarrow> 'r \<Rightarrow> 'r option" where
  "drain rd buf rx =
     (case fill_with_reader rd buf rx of
        (Inr n, buf', rx') \<Rightarrow> if n \<noteq> 0 then drain rd buf' rx' else Some rx'
      | (Inl _, _, rx') \<Rightarrow> Some rx')"

section \<open>The contract of a send handler\<close>

text \<open>
  On work that satisfies \<open>ok\<close>, a handler only appends whole messages to its buffer, and
  \<^verbatim>\<open>set_address\<close> appends nothing.
\<close>

locale borrow_handler = flush_handler hinv buf "bh_is_buf_empty H" "bh_flush_buf H" framed
  for hinv :: "'h \<Rightarrow> bool" and buf :: "'h \<Rightarrow> bytes" and framed :: "bytes \<Rightarrow> bool"
    and H :: "'h borrow_send_handler" +
  fixes ok :: "work \<Rightarrow> bool"
  assumes set_address_keeps: "hinv h \<Longrightarrow>
      hinv (bh_set_address H urb hnd h) \<and> buf (bh_set_address H urb hnd h) = buf h"
    and port_stat_appends: "hinv h \<Longrightarrow> ok (PortStat p) \<Longrightarrow> bh_port_stat H p h = Ret h' \<Longrightarrow>
      hinv h' \<and> (\<exists>bs. framed bs \<and> buf h' = buf h @ bs)"
    and process_urb_appends: "hinv h \<Longrightarrow> ok (ProcessUrb urb hnd) \<Longrightarrow>
      bh_process_urb H urb hnd h = Ret (Inr (), h') \<Longrightarrow>
      hinv h' \<and> (\<exists>bs. framed bs \<and> buf h' = buf h @ bs)"
    and cancel_urb_appends: "hinv h \<Longrightarrow> ok (CancelUrb hnd) \<Longrightarrow>
      hinv (bh_cancel_urb H hnd h) \<and> (\<exists>bs. framed bs \<and> buf (bh_cancel_urb H hnd h) = buf h @ bs)"
begin

lemma handle_work_appends:
  assumes h: "hinv h" and ok: "ok w" and res: "handle_work V H w h = Ret (r, h')"
    and r: "\<forall>e. r \<noteq> WProcessUrb (Inl e)"
  shows "hinv h' \<and> (\<exists>bs. framed bs \<and> buf h' = buf h @ bs \<and>
    ((\<exists>u n. r = WSetAddress u n) \<longrightarrow> bs = []))"
proof (cases w)
  case (PortStat p)
  with port_stat_appends [OF h ok [unfolded PortStat]] res show ?thesis
    by (auto simp: handle_work_def rbind_eq_Ret)
next
  case (CancelUrb n)
  with cancel_urb_appends [OF h ok [unfolded CancelUrb]] res show ?thesis
    by (auto simp: handle_work_def)
next
  case (ProcessUrb u n)
  show ?thesis
  proof (cases "is_set_address V u")
    case True
    have "framed []" using buf_framed flush_buf_all [OF h] by metis
    with True set_address_keeps [OF h] ProcessUrb res show ?thesis by (auto simp: handle_work_def)
  next
    case False
    with ProcessUrb res obtain x where x: "bh_process_urb H u n h = Ret (x, h')" "r = WProcessUrb x"
      by (auto simp: handle_work_def rbind_eq_Ret)
    with r obtain "x = Inr ()" by (cases x) auto
    with process_urb_appends [OF h ok [unfolded ProcessUrb]] x show ?thesis by auto
  qed
qed

text \<open>One round keeps the invariant of the loop and only appends to its output.\<close>

lemma step_inv:
  assumes inv: "sender_inv s" and rdy: "send_ready s ev" and ok: "case ev of EvWork w \<Rightarrow> ok w | _ \<Rightarrow> True"
    and step: "borrow_send_step V H ev s = Ret (Inr s')"
  shows "sender_inv s' \<and> (\<exists>bs. sender_out s' = sender_out s @ bs \<and> (framed bs \<or> bs = []))"
proof (cases ev)
  case (EvWork w)
  from step EvWork obtain r h' where rh: "handle_work V H w (s_handler s) = Ret (r, h')"
    by (cases "handle_work V H w (s_handler s)") (auto simp: borrow_send_step_def)
  have r: "\<forall>e. r \<noteq> WProcessUrb (Inl e)"
    using step EvWork rh by (auto simp: borrow_send_step_def Let_def)
  have h: "hinv (s_handler s)" using inv by (simp add: sender_inv_def)
  from handle_work_appends [OF h _ rh r] ok EvWork obtain bs where
    bs: "hinv h'" "framed bs" "buf h' = buf (s_handler s) @ bs" "(\<exists>u n. r = WSetAddress u n) \<longrightarrow> bs = []"
    by auto
  have addr: "sender_inv (t\<lparr>addr_setter := a\<rparr>) = sender_inv t"
    "sender_out (t\<lparr>addr_setter := a\<rparr>) = sender_out t" for t :: "'h borrow_sender" and a
    by (auto simp: sender_inv_def sender_out_def split: loop_state.splits)
  consider (set) u n where "r = WSetAddress u n" "s' = s\<lparr>s_handler := h', addr_setter := Some (u, n)\<rparr>"
    | (arm) "s_state s = Solicit" "s' = s\<lparr>s_handler := h', sleeper := True, s_state := Timer\<rparr>"
    | (keep) "s' = s\<lparr>s_handler := h'\<rparr>" "s_state s \<noteq> Solicit \<or> bh_is_buf_empty H h'"
    using step EvWork rh r
    by (cases r) (auto simp: borrow_send_step_def Let_def split: sum.splits if_splits)
  then show ?thesis
  proof cases
    case set
    with bs have "bs = []" by simp
    with append_inv [OF inv bs(1,3)] set addr show ?thesis by auto
  next
    case arm
    with arm_inv [OF inv bs(1,3)] bs(2) show ?thesis by auto
  next
    case keep
    have "s_state s \<noteq> Solicit \<or> bs = []" using keep(2) is_buf_empty_iff [OF bs(1)] bs(3) by auto
    with append_inv [OF inv bs(1,3)] keep(1) bs(2) show ?thesis by auto
  qed
next
  case EvFlushBuf
  with rdy flush_buf_inv [OF inv] step show ?thesis by (auto simp: borrow_send_step_def)
next
  case (EvFlushComplete x)
  with rdy step obtain tx bs where "flusher s = Some (tx, bs)" "x = Inr (tx @ bs)"
    by (auto simp: borrow_send_step_def split: option.splits sum.splits)
  with flush_complete_inv [OF inv] EvFlushComplete step show ?thesis
    by (auto simp: borrow_send_step_def)
next
  case (EvSetAddress x)
  with step show ?thesis
    using inv by (auto simp: borrow_send_step_def sender_inv_def sender_out_def
      split: sum.splits loop_state.splits)
qed (use step in \<open>simp add: borrow_send_step_def\<close>)

lemma reach_inv:
  assumes "borrow_send_reach V H ok h0 s" and "hinv h0" and "buf h0 = []"
  shows "sender_inv s"
  using assms(1)
proof induction
  case start
  have "framed []" using buf_framed [OF assms(2)] assms(3) by simp
  with assms(2,3) show ?case by (simp add: sender_inv_def start_borrow_sender_def)
next
  case (step s ev s')
  then show ?case using step_inv by blast
qed

text \<open>Without further work the loop writes out everything, in at most three rounds.\<close>

lemma send_drains:
  assumes "sender_inv s"
  shows "\<exists>evs s'. length evs \<le> 3 \<and> set evs \<subseteq> flush_events \<and> borrow_send_run V H evs s = Some s' \<and>
    s_state s' = Solicit \<and> tx_holder s' = Some (sender_out s)"
proof -
  obtain s1 s2 s3 where s: "flush_next (bh_is_buf_empty H) (bh_flush_buf H) s = Ret s1" "flush_next (bh_is_buf_empty H) (bh_flush_buf H) s1 = Ret s2"
    "flush_next (bh_is_buf_empty H) (bh_flush_buf H) s2 = Ret s3" "sender_inv s1" "sender_inv s2"
    "s_state s3 = Solicit" "tx_holder s3 = Some (sender_out s)"
    using flush_rounds [OF assms] by blast
  have round: "\<exists>evs. length evs \<le> 1 \<and> set evs \<subseteq> flush_events \<and> borrow_send_run V H evs t = Some t'"
    if "sender_inv t" "flush_next (bh_is_buf_empty H) (bh_flush_buf H) t = Ret t'" for t t'
  proof (cases "s_state t")
    case Solicit
    with that show ?thesis by (intro exI [of _ "[]"]) (simp add: flush_next_def)
  next
    case Timer
    with that show ?thesis
      by (intro exI [of _ "[EvFlushBuf]"]) (simp add: flush_next_def borrow_send_step_def sender_inv_def flush_events_def)
  next
    case Flush
    with that obtain tx bs where "flusher t = Some (tx, bs)" by (auto simp: sender_inv_def)
    with that Flush show ?thesis
      by (intro exI [of _ "[EvFlushComplete (Inr (tx @ bs))]"]) (simp add: flush_next_def borrow_send_step_def flush_events_def)
  qed
  obtain e1 e2 e3 where "length e1 \<le> 1" "set e1 \<subseteq> flush_events" "borrow_send_run V H e1 s = Some s1"
    "length e2 \<le> 1" "set e2 \<subseteq> flush_events" "borrow_send_run V H e2 s1 = Some s2"
    "length e3 \<le> 1" "set e3 \<subseteq> flush_events" "borrow_send_run V H e3 s2 = Some s3"
    using round [OF assms s(1)] round [OF s(4,2)] round [OF s(5,3)] by blast
  with s(6,7) show ?thesis
    by (intro exI [of _ "e1 @ e2 @ e3"] exI [of _ s3]) (simp add: send_run_append)
qed

text \<open>In every reachable state the flush takes the writer without a panic.\<close>

lemma flush_total:
  assumes "borrow_send_reach V H ok h0 s" and "hinv h0" and "buf h0 = []"
    and "send_ready s EvFlushBuf"
  shows "\<exists>s'. borrow_send_step V H EvFlushBuf s = Ret (Inr s')"
  using flush_buf_inv [OF reach_inv [OF assms(1-3)]] assms(4)
  by (auto simp: borrow_send_step_def)

end

section \<open>Draining\<close>

lemma drain_aux:
  assumes rd: "stream_reader rd strm" and zero: "\<And>s. rd s 0 = (Inr [], s)"
  shows "ring_len r \<le> r_cap r \<Longrightarrow> \<exists>rx' taken. drain rd r rx = Some rx' \<and> strm rx = taken @ strm rx' \<and>
    ring_len r + length taken \<le> r_cap r"
proof (induction "r_cap r - ring_len r" arbitrary: r rx rule: less_induct)
  case less
  let ?n = "r_cap r - ring_len r"
  show ?case
  proof (cases "?n = 0")
    case True
    then show ?thesis
      using less.prems zero by (subst drain.simps) (simp add: fill_with_reader_def)
  next
    case False
    then have pos: "0 < ?n" by simp
    obtain bs rx2 where bs: "rd rx ?n = (Inr bs, rx2)" "strm rx = bs @ strm rx2" "length bs \<le> ?n"
      by (rule stream_readerD [OF rd pos, of rx])
    let ?r = "r\<lparr>r_buf := r_buf r @ bs\<rparr>"
    have step: "drain rd r rx = (if bs \<noteq> [] then drain rd ?r rx2 else Some rx2)"
      using bs(1) by (subst drain.simps) (simp add: fill_with_reader_def)
    have len: "ring_len ?r = ring_len r + length bs" by (simp add: ring_len_def)
    show ?thesis
    proof (cases "bs = []")
      case True
      with step bs(2) less.prems show ?thesis by (intro exI [of _ rx2] exI [of _ "[]"]) simp
    next
      case F: False
      then have "0 < length bs" by simp
      moreover have "r_cap ?r = r_cap r" by simp
      ultimately have "r_cap ?r - ring_len ?r < ?n" "ring_len ?r \<le> r_cap ?r"
        using len bs(3) less.prems False by linarith+
      from less.hyps [OF this, of rx2] obtain rx' taken where
        "drain rd ?r rx2 = Some rx'" "strm rx2 = taken @ strm rx'" "ring_len ?r + length taken \<le> r_cap ?r"
        by blast
      with step F bs(2) len show ?thesis by (intro exI [of _ rx'] exI [of _ "bs @ taken"]) simp
    qed
  qed
qed

text \<open>Draining after the loop ends stops after at most 32 bytes, whatever the peer still
  sends: the buffer is never emptied, and a read into a full buffer gives nothing.\<close>

theorem drain_stops_early:
  assumes "stream_reader rd strm" and "\<And>s. rd s 0 = (Inr [], s)"
  shows "\<exists>rx' taken. drain rd (ring_with_capacity addr 32) rx = Some rx' \<and>
    strm rx = taken @ strm rx' \<and> length taken \<le> 32"
  using drain_aux [OF assms, of "ring_with_capacity addr 32" rx]
  by (simp add: ring_with_capacity_def ring_len_def)

theorem drain_stops_early_witness:
  "\<exists>rx' taken. drain (chunk_reader 5) (ring_with_capacity 0 32) (replicate 100 7) = Some rx' \<and>
     replicate 100 7 = taken @ rx' \<and> length taken \<le> 32"
  using drain_stops_early [of "chunk_reader 5" id 0 "replicate 100 7"]
  by (simp add: chunk_reader_def)

end
