(* ===== verification/Wire.thy ===== *)
theory Wire
  imports Proto_Frame
begin

text \<open>
  The messages that the two sides exchange, as the senders build them: a specification of the
  byte streams, shared by the borrower and the lender. A stream is a sequence of messages; the
  receiver of a well-formed stream sees exactly these messages.
\<close>

section \<open>Messages\<close>

datatype wire_msg =
    MUrb command u32 urb_header bytes
  | MShort command u32

fun wire_header :: "wire_msg \<Rightarrow> header" where
  "wire_header (MUrb c sn uh body) = \<lparr>total_frame_len = compress_frame_len (32 + length body),
     command = c, hdr_status = Success, seqnum = sn\<rparr>"
| "wire_header (MShort c sn) = \<lparr>total_frame_len = compress_frame_len 8,
     command = c, hdr_status = Success, seqnum = sn\<rparr>"

fun wire_payload :: "wire_msg \<Rightarrow> bytes" where
  "wire_payload (MUrb c sn uh body) = urb_header_as_bytes uh @ body"
| "wire_payload (MShort c sn) = []"

fun wire_ok :: "wire_msg \<Rightarrow> bool" where
  "wire_ok (MUrb c sn uh body) = (length body mod 8 = 0 \<and> 32 + length body < 65536 \<and>
     (c = CmdSubmit \<or> c = RetSubmit))"
| "wire_ok (MShort c sn) = (c = CmdUnlink \<or> c = CmdPort \<or> c = RetPort)"

definition wire_bytes :: "wire_msg \<Rightarrow> bytes" where
  "wire_bytes m = header_as_bytes (wire_header m) @ wire_payload m"

definition framed :: "bytes \<Rightarrow> bool" where
  "framed bs \<longleftrightarrow> (\<exists>ms. (\<forall>m \<in> set ms. wire_ok m) \<and> bs = concat (map wire_bytes ms))"

text \<open>What \<open>parse_frame\<close> makes of a message at an address.\<close>

fun wire_frame :: "nat \<Rightarrow> wire_msg \<Rightarrow> frame" where
  "wire_frame a (MUrb c sn uh body) = FUrb \<lparr>sq_seqnum = sn,
     sq_data = \<lparr>d_addr = a + 8, d_bytes = urb_header_as_bytes uh @ body\<rparr>\<rparr>"
| "wire_frame a (MShort c sn) = (if c = CmdUnlink then FUnlink sn else FPortReset sn)"

section \<open>Facts\<close>

lemma framed_Nil [simp]: "framed []"
  unfolding framed_def by (rule exI [of _ "[]"]) simp

lemma framed_wire: "wire_ok m \<Longrightarrow> framed (wire_bytes m)"
  unfolding framed_def by (rule exI [of _ "[m]"]) simp

lemma framed_append: "framed xs \<Longrightarrow> framed ys \<Longrightarrow> framed (xs @ ys)"
  unfolding framed_def
proof (elim exE conjE)
  fix ms ns
  assume "\<forall>m \<in> set ms. wire_ok m" "xs = concat (map wire_bytes ms)"
    "\<forall>m \<in> set ns. wire_ok m" "ys = concat (map wire_bytes ns)"
  then show "\<exists>os. (\<forall>m \<in> set os. wire_ok m) \<and> xs @ ys = concat (map wire_bytes os)"
    by (intro exI [of _ "ms @ ns"]) auto
qed

lemma compress_8 [simp]: "compress_frame_len 8 = 1"
  by (simp add: compress_frame_len_def)

lemma wire_frame_ok: "wire_ok m \<Longrightarrow> frame_ok (wire_header m) (wire_payload m)"
proof (cases m)
  case (MUrb c sn uh body)
  assume "wire_ok m"
  with MUrb have b: "length body mod 8 = 0" "32 + length body < 65536" by simp_all
  then have "(32 + length body) mod 8 = 0" "32 + length body < 524288" by presburger+
  from unat_compress_frame_len [OF this] b MUrb show ?thesis by (simp add: frame_ok_def)
qed (simp add: frame_ok_def)

lemma wire_bytes_mod: "wire_ok m \<Longrightarrow> length (wire_bytes m) mod 8 = 0"
  by (cases m) (auto simp: wire_bytes_def mod_add_eq [symmetric])

lemma framed_mod: "framed bs \<Longrightarrow> length bs mod 8 = 0"
proof -
  have "\<forall>m \<in> set ms. wire_ok m \<Longrightarrow> length (concat (map wire_bytes ms)) mod 8 = 0" for ms
    by (induction ms) (auto simp: wire_bytes_mod mod_add_eq [symmetric])
  then show "framed bs \<Longrightarrow> length bs mod 8 = 0" by (auto simp: framed_def)
qed

lemma parse_wire:
  assumes "wire_ok m" and "a mod 8 = 0"
  shows "parse_frame iso_sz \<lparr>d_addr = a, d_bytes = wire_bytes m\<rparr> = Ret (Inr (wire_frame a m))"
proof (cases m)
  case (MUrb c sn uh body)
  then show ?thesis
    using assms parse_urb_aux [of a body "wire_header m" iso_sz uh] by (auto simp: wire_bytes_def)
next
  case (MShort c sn)
  then show ?thesis using assms by (auto simp: wire_bytes_def parse_frame_def HEADER_SIZE_def)
qed

lemma recv_wire:
  assumes "alloc_ok al" and "stream_reader rd strm" and "ring_ok r" and "wire_ok m"
    and "r_buf r @ strm rx = wire_bytes m @ rest"
  shows "\<exists>a r' rx'. recv_frame chk al rd r rx =
      Some (Ret (Inr \<lparr>d_addr = a, d_bytes = wire_bytes m\<rparr>, r', rx')) \<and>
    a mod 8 = 0 \<and> ring_ok r' \<and> r_buf r' @ strm rx' = rest"
  unfolding wire_bytes_def
  by (rule recv_frame_delivers_aux [OF assms(1-3) wire_frame_ok [OF assms(4)]])
    (use assms(5) in \<open>simp add: wire_bytes_def\<close>)

text \<open>A framed stream is received and parsed message by message.\<close>

fun recv_parsed :: "nat \<Rightarrow> bool \<Rightarrow> nat \<Rightarrow> alloc \<Rightarrow> 'r reader \<Rightarrow> ring \<Rightarrow> 'r \<Rightarrow> frame list \<times> bool" where
  "recv_parsed 0 chk iso_sz al rd r rx = ([], False)"
| "recv_parsed (Suc n) chk iso_sz al rd r rx =
     (case recv_frame chk al rd r rx of
        Some (Ret (Inr d, r', rx')) \<Rightarrow>
          (case parse_frame iso_sz d of
             Ret (Inr f) \<Rightarrow> (case recv_parsed n chk iso_sz al rd r' rx' of (fs, c) \<Rightarrow> (f # fs, c))
           | _ \<Rightarrow> ([], False))
      | Some (Ret (Inl None, _, _)) \<Rightarrow> ([], True)
      | _ \<Rightarrow> ([], False))"

lemma recv_parsed_wire:
  assumes al: "alloc_ok al" and rd: "stream_reader rd strm"
  shows "ring_ok r \<Longrightarrow> \<forall>m \<in> set ms. wire_ok m \<Longrightarrow> r_buf r @ strm rx = concat (map wire_bytes ms) \<Longrightarrow>
    \<exists>as. length as = length ms \<and>
      recv_parsed (Suc (length ms)) chk iso_sz al rd r rx = (map2 wire_frame as ms, True)"
proof (induction ms arbitrary: r rx)
  case Nil
  let ?h = "\<lparr>total_frame_len = 1, command = CmdPort, hdr_status = Success, seqnum = 0\<rparr>"
  have "\<exists>r' rx'. recv_frame chk al rd r rx = Some (Ret (Inl None, r', rx'))"
    by (rule recv_frame_closed_aux [OF al rd Nil(1), of ?h "[]" _ "header_as_bytes ?h"])
      (use Nil(3) length_header_as_bytes [of ?h] in \<open>auto simp: frame_ok_def simp del: length_header_as_bytes\<close>)
  then show ?case by auto
next
  case (Cons m ms)
  have ok: "wire_ok m" "\<forall>m \<in> set ms. wire_ok m" using Cons.prems(2) by simp_all
  from Cons.prems(3) have "r_buf r @ strm rx = wire_bytes m @ concat (map wire_bytes ms)" by simp
  from recv_wire [OF al rd Cons.prems(1) ok(1) this, of chk]
  obtain a r' rx' where recv: "recv_frame chk al rd r rx =
      Some (Ret (Inr \<lparr>d_addr = a, d_bytes = wire_bytes m\<rparr>, r', rx'))"
    and a: "a mod 8 = 0" "ring_ok r'" "r_buf r' @ strm rx' = concat (map wire_bytes ms)"
    by (elim exE conjE) (rule that)
  obtain as where as: "length as = length ms"
    "recv_parsed (Suc (length ms)) chk iso_sz al rd r' rx' = (map2 wire_frame as ms, True)"
    using Cons.IH [OF a(2) ok(2) a(3)] by blast
  show ?case
    by (rule exI [of _ "a # as"])
      (use recv as parse_wire [OF ok(1) a(1), of iso_sz] in \<open>simp del: recv_parsed.simps(2)
        add: recv_parsed.simps(2) [of "Suc (length ms)"]\<close>)
qed

end
