(* ===== verification/Borrow_Operator.thy ===== *)
theory Borrow_Operator
  imports Borrow_Loop Wire
begin

text \<open>
  The borrower's handlers of \<^verbatim>\<open>crates/qusb/src/operator.rs\<close>: \<^verbatim>\<open>BorrowSendHandler\<close> builds the
  frames for the lender, \<^verbatim>\<open>BorrowRecvHandler\<close> hands replies back to the VHCI driver. Both share
  the two maps between the driver's handles and sequence numbers.

  Parameters: the allocator behind \<^verbatim>\<open>BytesMut::reserve\<close> gives the address of the buffer
  (\<open>mem_at\<close>); \<open>junk\<close> is the content of memory that nothing has been written to; \<open>rnd\<close> is the
  random handle drawn for a port reset; \<open>fetch\<close> is the driver call that fills in the data of
  an outgoing transfer; \<open>iso_sz\<close> and \<open>iso_align\<close> are the layout of \<^verbatim>\<open>IocIsoPacketData\<close>.
\<close>

section \<open>Counters and maps\<close>

definition counter_increment :: "bool \<Rightarrow> u32 \<Rightarrow> (u32 \<times> u32) run" where
  "counter_increment chk inner =
     (if chk \<and> inner = -1 then Panic else Ret (inner, inner + 1))"

record linker =
  seqnums :: "urb_handle \<Rightarrow> u32 option"
  handles :: "u32 \<Rightarrow> urb_handle option"

text \<open>\<^verbatim>\<open>assert!(insert(..).is_none())\<close> on both maps.\<close>

definition link_new :: "u32 \<Rightarrow> urb_handle \<Rightarrow> linker \<Rightarrow> linker run" where
  "link_new sn hnd l =
     (if seqnums l hnd \<noteq> None \<or> handles l sn \<noteq> None then Panic
      else Ret \<lparr>seqnums = (seqnums l)(hnd \<mapsto> sn), handles = (handles l)(sn \<mapsto> hnd)\<rparr>)"

definition link_over :: "u32 \<Rightarrow> urb_handle \<Rightarrow> linker \<Rightarrow> linker" where
  "link_over sn hnd l = \<lparr>seqnums = (seqnums l)(hnd \<mapsto> sn), handles = (handles l)(sn \<mapsto> hnd)\<rparr>"

text \<open>\<^verbatim>\<open>remove(..).unwrap()\<close> on both maps.\<close>

definition unlink :: "u32 \<Rightarrow> linker \<Rightarrow> (urb_handle \<times> linker) run" where
  "unlink sn l =
     rbind (unwrap (handles l sn)) (\<lambda>hnd.
     rbind (unwrap (seqnums l hnd)) (\<lambda>_.
       Ret (hnd, \<lparr>seqnums = (seqnums l)(hnd := None), handles = (handles l)(sn := None)\<rparr>)))"

section \<open>The send handler\<close>

type_synonym mem_at = "nat \<Rightarrow> nat \<Rightarrow> nat \<Rightarrow> nat"
type_synonym fetch = "urb_handle \<Rightarrow> urb_header \<Rightarrow> bytes \<Rightarrow> bytes \<Rightarrow> io_error + (bytes \<times> bytes)"

record borrow_send =
  bs_addr :: nat
  bs_buf :: bytes
  cur_seq :: u32
  prev :: ioc_port_stat
  dev_addr :: u8
  linked :: linker

definition borrow_send_new :: "nat \<Rightarrow> linker \<Rightarrow> borrow_send" where
  "borrow_send_new a l = \<lparr>bs_addr = a, bs_buf = [], cur_seq = 0, prev = default_port_stat,
     dev_addr = 0, linked = l\<rparr>"

definition put_slice :: "mem_at \<Rightarrow> bytes \<Rightarrow> borrow_send \<Rightarrow> borrow_send" where
  "put_slice al bs b = b\<lparr>bs_addr := al (bs_addr b) (length (bs_buf b)) (length bs), bs_buf := bs_buf b @ bs\<rparr>"

definition short_header :: "command \<Rightarrow> u32 \<Rightarrow> header" where
  "short_header c sn = \<lparr>total_frame_len = compress_frame_len HEADER_SIZE, command = c,
     hdr_status = Success, seqnum = sn\<rparr>"

definition port_stat :: "bool \<Rightarrow> mem_at \<Rightarrow> (u32 \<Rightarrow> urb_handle) \<Rightarrow> ioc_port_stat \<Rightarrow> borrow_send \<Rightarrow> borrow_send run" where
  "port_stat chk al rnd nxt b =
     (let address_invalidated = (PC_CONNECTION \<in> ps_change nxt);
          reset_successful = (PC_RESET \<in> ps_change nxt \<and> PS_RESET \<notin> ps_status nxt \<and> PS_ENABLE \<in> ps_status nxt);
          power_off = (PS_POWER \<in> ps_status (prev b) \<and> PS_POWER \<notin> ps_status nxt);
          send_port_reset = (PS_RESET \<notin> ps_status (prev b) \<and> PS_RESET \<in> ps_status nxt \<and>
            PS_CONNECTION \<in> ps_status nxt)
      in rbind
        (if address_invalidated then Ret (b\<lparr>dev_addr := 0xff\<rparr>)
         else if reset_successful then Ret (b\<lparr>dev_addr := 0\<rparr>)
         else if power_off then Ret b
         else if send_port_reset then
           rbind (counter_increment chk (cur_seq b)) (\<lambda>(next_seqnum, c).
           rbind (link_new next_seqnum (rnd next_seqnum) (linked b)) (\<lambda>l.
             Ret (put_slice al (header_as_bytes (short_header CmdPort next_seqnum))
               (b\<lparr>cur_seq := c, linked := l\<rparr>))))
         else Ret b)
        (\<lambda>b'. Ret (b'\<lparr>prev := nxt\<rparr>)))"

text \<open>The part of \<^verbatim>\<open>set_address\<close> that runs at once; the future gives the request back.\<close>

definition set_address :: "vhci_ops \<Rightarrow> ioc_urb \<Rightarrow> urb_handle \<Rightarrow> borrow_send \<Rightarrow> borrow_send" where
  "set_address V urb hnd b = b\<lparr>dev_addr := ucast (setup_value V (iu_setup_packet urb))\<rparr>"

definition cancel_urb :: "mem_at \<Rightarrow> urb_handle \<Rightarrow> borrow_send \<Rightarrow> borrow_send" where
  "cancel_urb al hnd b =
     (case seqnums (linked b) hnd of
        Some sn \<Rightarrow> put_slice al (header_as_bytes (short_header CmdUnlink sn)) b
      | None \<Rightarrow> b)"

definition URB_NO_TRANSFER_DMA_MAP :: u16 where "URB_NO_TRANSFER_DMA_MAP = 4"

definition urb_request_header :: "ioc_urb \<Rightarrow> urb_header" where
  "urb_request_header urb =
     \<lparr>actual_transfer_len = of_nat (iu_buffer_length urb),
      iso_packet_count = of_nat (iu_packet_count urb),
      endpoint = iu_endpoint urb,
      kind = kind_from_urb_type (iu_typ urb),
      interval = iu_interval urb,
      urb_status = TS_Pending,
      uh_padding = (0, 0, 0),
      flags = iu_flags urb AND NOT URB_NO_TRANSFER_DMA_MAP,
      num_errors = 0,
      ctrl_packet = iu_setup_packet urb\<rparr>"

text \<open>Steps 2 to 4 of \<^verbatim>\<open>process_urb\<close>: the data section of the frame, at address \<open>a\<close>. \<open>Undef\<close> is an
  \<^verbatim>\<open>unsafe\<close> call whose condition does not hold.\<close>

definition fetch_section :: "nat \<Rightarrow> nat \<Rightarrow> (nat \<Rightarrow> u8) \<Rightarrow> fetch \<Rightarrow> ioc_urb \<Rightarrow> urb_handle \<Rightarrow> urb_header \<Rightarrow>
    nat \<Rightarrow> (io_error + bytes) run" where
  "fetch_section iso_sz iso_align junk fetch urb hnd h a =
     (let actual_len = iu_buffer_length urb;
          packet_count = iu_packet_count urb;
          out = (if is_out h then 1 else 0);
          needs_fetch = (actual_len > 0 \<and> is_out h) \<or> packet_count > 0;
          real_transfer_len = padded_transfer_len h * out;
          data = map junk [a ..< a + real_transfer_len + iso_byte_len iso_sz h];
          transfer = take real_transfer_len data;
          iso_raw = drop real_transfer_len data
      in if actual_len * out > length transfer then Undef
         else if length iso_raw \<noteq> packet_count * iso_sz \<or> (a + real_transfer_len) mod iso_align \<noteq> 0 then Undef
         else if needs_fetch then
           (case fetch hnd h (take (actual_len * out) transfer) iso_raw of
              Inl err \<Rightarrow> Ret (Inl err)
            | Inr (t, pkts) \<Rightarrow> Ret (Inr (t @ drop (actual_len * out) transfer @ pkts)))
         else Ret (Inr data))"

definition process_urb :: "bool \<Rightarrow> nat \<Rightarrow> nat \<Rightarrow> mem_at \<Rightarrow> (nat \<Rightarrow> u8) \<Rightarrow> fetch \<Rightarrow> ioc_urb \<Rightarrow> urb_handle \<Rightarrow>
    borrow_send \<Rightarrow> ((io_error + unit) \<times> borrow_send) run" where
  "process_urb chk iso_sz iso_align al junk fetch urb hnd b =
     (if chk \<and> dev_addr b \<noteq> iu_address urb then Panic
      else
       rbind (counter_increment chk (cur_seq b)) (\<lambda>(next_seq, c).
       let l = link_over next_seq hnd (linked b);
           h = urb_request_header urb;
           header_len = HEADER_SIZE + URB_HEADER_SIZE;
           data_len = padded_transfer_len h * (if is_out h then 1 else 0) + iso_byte_len iso_sz h;
           frame_len = header_len + data_len;
           base = al (bs_addr b) (length (bs_buf b)) frame_len;
           a = base + length (bs_buf b)
       in rbind (fetch_section iso_sz iso_align junk fetch urb hnd h (a + header_len)) (\<lambda>res.
          case res of
            Inl err \<Rightarrow> Ret (Inl err, b\<lparr>bs_addr := a + frame_len, bs_buf := [], cur_seq := c, linked := l\<rparr>)
          | Inr data \<Rightarrow>
              if a mod 4 \<noteq> 0 then Undef
              else
               let hdr = \<lparr>total_frame_len = compress_frame_len frame_len, command = CmdSubmit,
                     hdr_status = Success, seqnum = next_seq\<rparr>
               in Ret (Inr (), b\<lparr>bs_addr := base,
                    bs_buf := bs_buf b @ header_as_bytes hdr @ urb_header_as_bytes h @ data,
                    cur_seq := c, linked := l\<rparr>))))"

definition is_buf_empty :: "borrow_send \<Rightarrow> bool" where
  "is_buf_empty b \<longleftrightarrow> bs_buf b = []"

definition flush_buf :: "borrow_send \<Rightarrow> bytes \<times> borrow_send" where
  "flush_buf b = (bs_buf b, b\<lparr>bs_addr := bs_addr b + length (bs_buf b), bs_buf := []\<rparr>)"

definition borrow_send_handler_ops :: "bool \<Rightarrow> nat \<Rightarrow> nat \<Rightarrow> mem_at \<Rightarrow> (nat \<Rightarrow> u8) \<Rightarrow> (u32 \<Rightarrow> urb_handle) \<Rightarrow>
    fetch \<Rightarrow> vhci_ops \<Rightarrow> borrow_send borrow_send_handler" where
  "borrow_send_handler_ops chk iso_sz iso_align al junk rnd fetch V =
     \<lparr>bh_port_stat = port_stat chk al rnd, bh_set_address = set_address V,
      bh_process_urb = process_urb chk iso_sz iso_align al junk fetch,
      bh_cancel_urb = cancel_urb al, bh_is_buf_empty = is_buf_empty, bh_flush_buf = flush_buf\<rparr>"

section \<open>The receive handler\<close>

datatype giveback_data = GivebackIn bytes | GivebackOut u16

record owned_urb_giveback =
  gb_handle :: urb_handle
  gb_kind :: urb_type
  gb_status :: vhci_status
  gb_data :: giveback_data
  gb_iso_packets :: bytes

fun gb_dir :: "owned_urb_giveback \<Rightarrow> dir" where
  "gb_dir g = (case gb_data g of GivebackIn _ \<Rightarrow> In | GivebackOut _ \<Rightarrow> Out)"

fun gb_bytes_transferred :: "owned_urb_giveback \<Rightarrow> u16" where
  "gb_bytes_transferred g =
     (case gb_data g of GivebackIn d \<Rightarrow> of_nat (length d) | GivebackOut transferred \<Rightarrow> transferred)"

fun gb_transfer_mut :: "owned_urb_giveback \<Rightarrow> bytes" where
  "gb_transfer_mut g = (case gb_data g of GivebackIn d \<Rightarrow> d | GivebackOut _ \<Rightarrow> [])"

text \<open>\<open>iso_status\<close> reads the statuses of a sequence of \<^verbatim>\<open>IocIsoPacketGiveback\<close>.\<close>

definition gb_error_count :: "(bytes \<Rightarrow> u32 list option) \<Rightarrow> owned_urb_giveback \<Rightarrow> u16 run" where
  "gb_error_count iso_status g =
     rbind (unwrap (iso_status (gb_iso_packets g))) (\<lambda>sts.
       Ret (of_nat (length (filter (\<lambda>st. st \<noteq> 0) sts))))"

text \<open>\<^verbatim>\<open>urb_reply\<close>: the giveback that the returned future passes on to the driver.\<close>

definition urb_reply :: "data seq \<Rightarrow> linker \<Rightarrow> (owned_urb_giveback \<times> linker) run" where
  "urb_reply sq l =
     rbind (unlink (sq_seqnum sq) l) (\<lambda>(hnd, l').
       case urb_header_from_bytes (take URB_HEADER_SIZE (d_bytes (sq_data sq))) of
         None \<Rightarrow> Undef
       | Some urb \<Rightarrow>
           rbind (data_advance URB_HEADER_SIZE (sq_data sq)) (\<lambda>d.
             let body = d_bytes d; n = padded_transfer_len urb in
             if is_out urb then
               Ret (\<lparr>gb_handle = hnd, gb_kind = urb_type_from_kind (kind urb),
                 gb_status = vhci_from_ts (urb_status urb),
                 gb_data = GivebackOut (actual_transfer_len urb), gb_iso_packets = body\<rparr>, l')
             else if n \<le> length body then
               Ret (\<lparr>gb_handle = hnd, gb_kind = urb_type_from_kind (kind urb),
                 gb_status = vhci_from_ts (urb_status urb),
                 gb_data = GivebackIn (take (unat (actual_transfer_len urb)) (take n body)),
                 gb_iso_packets = drop n body\<rparr>, l')
             else Panic))"

text \<open>\<open>reset_done\<close> is the driver call.\<close>

definition borrow_device_reset :: "(io_error + unit) \<Rightarrow> u32 \<Rightarrow> linker \<Rightarrow> ((io_error + unit) \<times> linker) run" where
  "borrow_device_reset reset_done sn l =
     rbind (unlink sn l) (\<lambda>(_, l'). Ret (reset_done, l'))"

text \<open>The receive handler keeps the givebacks it has started, in order.\<close>

record borrow_recv =
  rlinked :: linker
  givebacks :: "owned_urb_giveback list"

definition borrow_recv_handler_ops :: "(u32 \<Rightarrow> io_error + unit) \<Rightarrow> borrow_recv borrow_recv_handler" where
  "borrow_recv_handler_ops reset_done =
     \<lparr>br_device_reset = (\<lambda>sn b. rbind (borrow_device_reset (reset_done sn) sn (rlinked b))
        (\<lambda>(r, l). Ret (r, b\<lparr>rlinked := l\<rparr>))),
      br_urb_reply = (\<lambda>sq b. rbind (urb_reply sq (rlinked b))
        (\<lambda>(g, l). Ret (b\<lparr>rlinked := l, givebacks := givebacks b @ [g]\<rparr>)))\<rparr>"

section \<open>Facts: the frames that the send handler builds\<close>

text \<open>
  What is assumed of the environment: the allocator keeps the alignment of the buffer, the
  driver call does not change the length of the slices it fills, and a packet descriptor is a
  multiple of eight bytes with an alignment that divides eight.
\<close>

definition borrow_env :: "nat \<Rightarrow> nat \<Rightarrow> mem_at \<Rightarrow> fetch \<Rightarrow> bool" where
  "borrow_env iso_sz iso_align al fetch \<longleftrightarrow>
     (\<forall>a len n. a mod 8 = 0 \<longrightarrow> al a len n mod 8 = 0) \<and>
     (\<forall>hnd h t i t' i'. fetch hnd h t i = Inr (t', i') \<longrightarrow> length t' = length t \<and> length i' = length i) \<and>
     iso_sz mod 8 = 0 \<and> iso_align dvd 8"

definition urb_data_size :: "nat \<Rightarrow> ioc_urb \<Rightarrow> nat" where
  "urb_data_size iso_sz urb =
     (if bit (iu_endpoint urb) 7 then 0 else up8 (iu_buffer_length urb)) + iu_packet_count urb * iso_sz"

text \<open>A request whose sizes fit the fields of the header and whose frame is below 64 KiB.\<close>

definition urb_fits :: "nat \<Rightarrow> ioc_urb \<Rightarrow> bool" where
  "urb_fits iso_sz urb \<longleftrightarrow> iu_buffer_length urb < 65536 \<and> iu_packet_count urb < 65536 \<and>
     32 + urb_data_size iso_sz urb < 65536"

fun work_fits :: "nat \<Rightarrow> work \<Rightarrow> bool" where
  "work_fits iso_sz (ProcessUrb urb _) = urb_fits iso_sz urb"
| "work_fits iso_sz _ = True"

definition borrow_send_inv :: "nat \<Rightarrow> nat \<Rightarrow> mem_at \<Rightarrow> fetch \<Rightarrow> borrow_send \<Rightarrow> bool" where
  "borrow_send_inv iso_sz iso_align al fetch b \<longleftrightarrow> borrow_env iso_sz iso_align al fetch \<and>
     bs_addr b mod 8 = 0 \<and> framed (bs_buf b)"

lemma borrow_envD:
  assumes "borrow_env iso_sz iso_align al fetch"
  shows "a mod 8 = 0 \<Longrightarrow> al a len n mod 8 = 0"
    and "fetch hnd h t i = Inr (t', i') \<Longrightarrow> length t' = length t \<and> length i' = length i"
    and "iso_sz mod 8 = 0" and "iso_align dvd 8"
  using assms unfolding borrow_env_def by auto

lemma unat_of_nat_u16: "n < 65536 \<Longrightarrow> unat (of_nat n :: u16) = n"
  by (simp add: unat_of_nat take_bit_nat_eq_self)

lemma request_header_lens:
  assumes "urb_fits iso_sz urb"
  shows "padded_transfer_len (urb_request_header urb) = up8 (iu_buffer_length urb)"
    and "iso_byte_len iso_sz (urb_request_header urb) = iu_packet_count urb * iso_sz"
    and "is_out (urb_request_header urb) \<longleftrightarrow> \<not> bit (iu_endpoint urb) 7"
  using assms by (simp_all add: urb_fits_def padded_transfer_len_eq iso_byte_len_def is_out_eq
    urb_request_header_def unat_of_nat_u16)

lemma fetch_section_ok:
  assumes env: "borrow_env iso_sz iso_align al fetch" and fits: "urb_fits iso_sz urb"
    and a: "a mod 8 = 0"
  shows "\<exists>res. fetch_section iso_sz iso_align junk fetch urb hnd (urb_request_header urb) a = Ret res \<and>
    (\<forall>data. res = Inr data \<longrightarrow> length data = urb_data_size iso_sz urb)"
proof -
  let ?h = "urb_request_header urb" and ?n = "if bit (iu_endpoint urb) 7 then 0 else iu_buffer_length urb"
  note lens = request_header_lens [OF fits]
  have r: "padded_transfer_len ?h * (if is_out ?h then 1 else 0) = up8 ?n"
    "iu_buffer_length urb * (if is_out ?h then 1 else 0) = ?n"
    "up8 ?n + iu_packet_count urb * iso_sz = urb_data_size iso_sz urb"
    by (simp_all add: lens urb_data_size_def)
  have "(a + up8 ?n) mod 8 = 0" by (rule mod8_add [OF a up8_mod])
  then have "8 dvd a + up8 ?n" by presburger
  with borrow_envD(4) [OF env] have "iso_align dvd a + up8 ?n" by (rule dvd_trans)
  then have al: "(a + up8 ?n) mod iso_align = 0" by simp
  let ?data = "map junk [a ..< a + up8 ?n + iu_packet_count urb * iso_sz]"
  let ?t = "take ?n (take (up8 ?n) ?data)" and ?i = "drop (up8 ?n) ?data"
  have sec: "fetch_section iso_sz iso_align junk fetch urb hnd ?h a =
      (if 0 < iu_buffer_length urb \<and> is_out ?h \<or> 0 < iu_packet_count urb
       then (case fetch hnd ?h ?t ?i of Inl err \<Rightarrow> Ret (Inl err)
         | Inr (t, pkts) \<Rightarrow> Ret (Inr (t @ drop ?n (take (up8 ?n) ?data) @ pkts)))
       else Ret (Inr ?data))"
    unfolding fetch_section_def Let_def r(1,2) lens(2)
    by (rule trans [OF if_not_P if_not_P]) (simp_all add: al not_less del: take_map drop_map take_upt drop_upt)
  have len: "length t = ?n" "length i = iu_packet_count urb * iso_sz"
    if "fetch hnd ?h ?t ?i = Inr (t, i)" for t i
    using borrow_envD(2) [OF env that] up8_ge [of ?n] by (simp_all add: min_absorb1)
  show ?thesis
  proof (cases "fetch hnd ?h ?t ?i")
    case (Inl e)
    then show ?thesis unfolding sec r(3) [symmetric] by simp
  next
    case (Inr p)
    obtain t i where p: "p = (t, i)" by (cases p)
    have "length (t @ drop ?n (take (up8 ?n) ?data) @ i) = urb_data_size iso_sz urb"
      using len [OF Inr [unfolded p]] by (simp add: r(3) [symmetric] trans_le_add1)
    then show ?thesis unfolding sec Inr p by (simp add: r(3) [symmetric] del: length_append)
  qed
qed

text \<open>What \<open>process_urb\<close> does around the driver call: the data section has an aligned address.\<close>

lemma process_urb_eq:
  assumes inv: "borrow_send_inv iso_sz iso_align al fetch b" and fits: "urb_fits iso_sz urb"
    and addr: "chk \<longrightarrow> dev_addr b = iu_address urb" and cnt: "chk \<longrightarrow> cur_seq b \<noteq> -1"
  shows "\<exists>a a1 a2. a mod 8 = 0 \<and> a1 mod 8 = 0 \<and>
    process_urb chk iso_sz iso_align al junk fetch urb hnd b =
      rbind (fetch_section iso_sz iso_align junk fetch urb hnd (urb_request_header urb) a) (\<lambda>res. Ret (case res of
        Inl err \<Rightarrow> (Inl err, b\<lparr>bs_addr := a2, bs_buf := [], cur_seq := cur_seq b + 1,
          linked := link_over (cur_seq b) hnd (linked b)\<rparr>)
      | Inr data \<Rightarrow> (Inr (), b\<lparr>bs_addr := a1,
          bs_buf := bs_buf b @ header_as_bytes \<lparr>total_frame_len = compress_frame_len (32 + urb_data_size iso_sz urb),
            command = CmdSubmit, hdr_status = Success, seqnum = cur_seq b\<rparr> @
            urb_header_as_bytes (urb_request_header urb) @ data,
          cur_seq := cur_seq b + 1, linked := link_over (cur_seq b) hnd (linked b)\<rparr>)))"
proof -
  let ?h = "urb_request_header urb" and ?sz = "urb_data_size iso_sz urb"
  from inv have env: "borrow_env iso_sz iso_align al fetch" and b: "bs_addr b mod 8 = 0" "framed (bs_buf b)"
    by (simp_all add: borrow_send_inv_def)
  have n: "padded_transfer_len ?h * (if is_out ?h then 1 else 0) + iso_byte_len iso_sz ?h = ?sz"
    by (simp add: request_header_lens [OF fits] urb_data_size_def)
  define base where "base = al (bs_addr b) (length (bs_buf b)) (32 + ?sz)"
  let ?a = "base + length (bs_buf b)"
  have base: "base mod 8 = 0" using borrow_envD(1) [OF env b(1)] by (simp add: base_def)
  then have a: "?a mod 8 = 0" "(?a + 32) mod 8 = 0"
    using framed_mod [OF b(2)] by presburger+
  have a4: "?a mod 4 = 0" using a(1) by presburger
  have c: "counter_increment chk (cur_seq b) = Ret (cur_seq b, cur_seq b + 1)"
    using cnt by (auto simp: counter_increment_def)
  have ad: "(chk \<and> dev_addr b \<noteq> iu_address urb) = False" using addr by auto
  have base_eq: "al (bs_addr b) (length (bs_buf b)) (32 + ?sz) = base" by (simp add: base_def)
  show ?thesis
    by (rule exI [of _ "?a + 32"], rule exI [of _ base], rule exI [of _ "?a + (32 + ?sz)"],
        intro conjI a(2) base, unfold process_urb_def Let_def HEADER_SIZE_def URB_HEADER_SIZE_def c ad,
        cases "fetch_section iso_sz iso_align junk fetch urb hnd ?h (?a + 32)")
      (auto simp: n base_eq a4 split: sum.split)
qed

text \<open>\<open>process_urb\<close> appends exactly one request message, or reports the error of the driver call.\<close>

lemma process_urb_spec:
  assumes inv: "borrow_send_inv iso_sz iso_align al fetch b" and fits: "urb_fits iso_sz urb"
    and addr: "chk \<longrightarrow> dev_addr b = iu_address urb" and cnt: "chk \<longrightarrow> cur_seq b \<noteq> -1"
  shows "\<exists>a res b'. a mod 8 = 0 \<and>
    fetch_section iso_sz iso_align junk fetch urb hnd (urb_request_header urb) a = Ret res \<and>
    process_urb chk iso_sz iso_align al junk fetch urb hnd b = Ret (map_sum id (\<lambda>_. ()) res, b') \<and>
    (\<forall>data. res = Inr data \<longrightarrow> borrow_send_inv iso_sz iso_align al fetch b' \<and>
      length data = urb_data_size iso_sz urb \<and>
      bs_buf b' = bs_buf b @ wire_bytes (MUrb CmdSubmit (cur_seq b) (urb_request_header urb) data) \<and>
      wire_ok (MUrb CmdSubmit (cur_seq b) (urb_request_header urb) data)) \<and>
    linked b' = link_over (cur_seq b) hnd (linked b) \<and> cur_seq b' = cur_seq b + 1"
proof -
  let ?h = "urb_request_header urb" and ?sz = "urb_data_size iso_sz urb"
  from inv have env: "borrow_env iso_sz iso_align al fetch" and b: "framed (bs_buf b)"
    by (simp_all add: borrow_send_inv_def)
  obtain a a1 a2 where a: "a mod 8 = 0" "a1 mod 8 = 0" and eq: "process_urb chk iso_sz iso_align al junk fetch urb hnd b =
      rbind (fetch_section iso_sz iso_align junk fetch urb hnd ?h a) (\<lambda>res. Ret (case res of
        Inl err \<Rightarrow> (Inl err, b\<lparr>bs_addr := a2, bs_buf := [], cur_seq := cur_seq b + 1,
          linked := link_over (cur_seq b) hnd (linked b)\<rparr>)
      | Inr data \<Rightarrow> (Inr (), b\<lparr>bs_addr := a1,
          bs_buf := bs_buf b @ header_as_bytes \<lparr>total_frame_len = compress_frame_len (32 + ?sz),
            command = CmdSubmit, hdr_status = Success, seqnum = cur_seq b\<rparr> @ urb_header_as_bytes ?h @ data,
          cur_seq := cur_seq b + 1, linked := link_over (cur_seq b) hnd (linked b)\<rparr>)))"
    using process_urb_eq [OF assms, of junk hnd] by (elim exE conjE) (rule that)
  obtain res where res: "fetch_section iso_sz iso_align junk fetch urb hnd ?h a = Ret res"
    "\<forall>data. res = Inr data \<longrightarrow> length data = ?sz"
    using fetch_section_ok [OF env fits a(1)] by blast
  have sz: "?sz mod 8 = 0" "32 + ?sz < 65536"
    using fits borrow_envD(3) [OF env]
    by (auto simp: urb_fits_def urb_data_size_def intro!: mod8_add mod8_mult)
  show ?thesis
  proof (cases res)
    case (Inl e)
    with res(1) a(1) eq show ?thesis by (intro exI conjI) (assumption | simp)+
  next
    case (Inr data)
    let ?m = "MUrb CmdSubmit (cur_seq b) ?h data"
    have m: "wire_ok ?m" "length data = ?sz" using res(2) Inr sz by auto
    have "borrow_send_inv iso_sz iso_align al fetch (b\<lparr>bs_addr := a1,
        bs_buf := bs_buf b @ wire_bytes ?m, cur_seq := cur_seq b + 1,
        linked := link_over (cur_seq b) hnd (linked b)\<rparr>)"
      using framed_append [OF b framed_wire [OF m(1)]] env a(2) by (simp add: borrow_send_inv_def)
    moreover have "wire_bytes ?m = header_as_bytes \<lparr>total_frame_len = compress_frame_len (32 + ?sz),
            command = CmdSubmit, hdr_status = Success, seqnum = cur_seq b\<rparr> @ urb_header_as_bytes ?h @ data"
      using m(2) by (simp add: wire_bytes_def)
    ultimately show ?thesis
      using res(1) a(1) eq m Inr by (intro exI [of _ a] exI [of _ res] exI conjI) (assumption | simp)+
  qed
qed

lemma port_stat_spec:
  assumes "port_stat chk al rnd nxt b = Ret b'"
  shows "prev b' = nxt \<and>
    (bs_buf b' = bs_buf b \<and> bs_addr b' = bs_addr b \<and> linked b' = linked b \<and> cur_seq b' = cur_seq b \<or>
     bs_buf b' = bs_buf b @ wire_bytes (MShort CmdPort (cur_seq b)) \<and>
     bs_addr b' = al (bs_addr b) (length (bs_buf b)) 8 \<and>
     cur_seq b' = cur_seq b + 1 \<and>
     link_new (cur_seq b) (rnd (cur_seq b)) (linked b) = Ret (linked b'))"
  using assms
  by (auto simp: port_stat_def Let_def rbind_eq_Ret counter_increment_def put_slice_def
    wire_bytes_def short_header_def HEADER_SIZE_def split: if_splits)

lemma cancel_urb_spec:
  "cancel_urb al hnd b =
    (case seqnums (linked b) hnd of None \<Rightarrow> b
     | Some sn \<Rightarrow> b\<lparr>bs_addr := al (bs_addr b) (length (bs_buf b)) 8,
         bs_buf := bs_buf b @ wire_bytes (MShort CmdUnlink sn)\<rparr>)"
  by (simp add: cancel_urb_def put_slice_def wire_bytes_def short_header_def HEADER_SIZE_def
    split: option.split)

lemma borrow_ops_sel [simp]:
  "bh_port_stat (borrow_send_handler_ops chk iso_sz iso_align al junk rnd fetch V) = port_stat chk al rnd"
  "bh_set_address (borrow_send_handler_ops chk iso_sz iso_align al junk rnd fetch V) = set_address V"
  "bh_process_urb (borrow_send_handler_ops chk iso_sz iso_align al junk rnd fetch V) =
     process_urb chk iso_sz iso_align al junk fetch"
  "bh_cancel_urb (borrow_send_handler_ops chk iso_sz iso_align al junk rnd fetch V) = cancel_urb al"
  "bh_is_buf_empty (borrow_send_handler_ops chk iso_sz iso_align al junk rnd fetch V) = is_buf_empty"
  "bh_flush_buf (borrow_send_handler_ops chk iso_sz iso_align al junk rnd fetch V) = flush_buf"
  by (simp_all add: borrow_send_handler_ops_def)

lemma framed_short: "c = CmdUnlink \<or> c = CmdPort \<or> c = RetPort \<Longrightarrow> framed (wire_bytes (MShort c sn))"
  by (rule framed_wire) simp

lemma process_urb_guards:
  assumes "process_urb chk iso_sz iso_align al junk fetch urb hnd b = Ret (Inr (), b')"
  shows "chk \<longrightarrow> dev_addr b = iu_address urb" and "chk \<longrightarrow> cur_seq b \<noteq> -1"
  using assms by (auto simp: process_urb_def counter_increment_def split: if_splits)

lemma process_urb_appends:
  assumes inv: "borrow_send_inv iso_sz iso_align al fetch b" and fits: "urb_fits iso_sz urb"
    and res: "process_urb chk iso_sz iso_align al junk fetch urb hnd b = Ret (Inr (), b')"
  shows "borrow_send_inv iso_sz iso_align al fetch b' \<and> (\<exists>bs. framed bs \<and> bs_buf b' = bs_buf b @ bs)"
proof -
  obtain x :: "io_error + bytes" where x: "map_sum id (\<lambda>_. ()) x = Inr ()"
    "\<forall>data. x = Inr data \<longrightarrow> borrow_send_inv iso_sz iso_align al fetch b' \<and>
      bs_buf b' = bs_buf b @ wire_bytes (MUrb CmdSubmit (cur_seq b) (urb_request_header urb) data) \<and>
      wire_ok (MUrb CmdSubmit (cur_seq b) (urb_request_header urb) data)"
  proof -
    from process_urb_spec [OF inv fits process_urb_guards [OF res], of junk hnd] show thesis
      unfolding res
    proof (elim exE conjE)
      fix y :: "io_error + bytes" and c
      assume "Ret (Inr (), b') = Ret (map_sum id (\<lambda>_. ()) y, c)" and
        "\<forall>data. y = Inr data \<longrightarrow> borrow_send_inv iso_sz iso_align al fetch c \<and>
          length data = urb_data_size iso_sz urb \<and>
          bs_buf c = bs_buf b @ wire_bytes (MUrb CmdSubmit (cur_seq b) (urb_request_header urb) data) \<and>
          wire_ok (MUrb CmdSubmit (cur_seq b) (urb_request_header urb) data)"
      then show thesis by (intro that [of y]) auto
    qed
  qed
  then obtain data where "x = Inr data" by (cases x) auto
  with x(2) have "borrow_send_inv iso_sz iso_align al fetch b'"
    "bs_buf b' = bs_buf b @ wire_bytes (MUrb CmdSubmit (cur_seq b) (urb_request_header urb) data)"
    "wire_ok (MUrb CmdSubmit (cur_seq b) (urb_request_header urb) data)" by auto
  then show ?thesis using framed_wire by blast
qed

interpretation borrow_h: borrow_handler "borrow_send_inv iso_sz iso_align al fetch" bs_buf framed
  "borrow_send_handler_ops chk iso_sz iso_align al junk rnd fetch V" "work_fits iso_sz"
  for chk iso_sz iso_align al junk rnd fetch V
proof unfold_locales
  fix h h' p
  assume inv: "borrow_send_inv iso_sz iso_align al fetch h"
  have al: "al (bs_addr h) (length (bs_buf h)) 8 mod 8 = 0"
    using inv by (auto simp: borrow_send_inv_def intro: borrow_envD(1))
  show "\<exists>h'. bh_flush_buf (borrow_send_handler_ops chk iso_sz iso_align al junk rnd fetch V) h =
      (bs_buf h, h') \<and> borrow_send_inv iso_sz iso_align al fetch h' \<and> bs_buf h' = []"
    using inv framed_mod [of "bs_buf h"]
    by (auto simp: flush_buf_def borrow_send_inv_def intro: mod8_add)
  show "borrow_send_inv iso_sz iso_align al fetch
        (bh_cancel_urb (borrow_send_handler_ops chk iso_sz iso_align al junk rnd fetch V) hnd h) \<and>
      (\<exists>bs. framed bs \<and> bs_buf (bh_cancel_urb (borrow_send_handler_ops chk iso_sz iso_align al junk rnd fetch V) hnd h) =
        bs_buf h @ bs)" for hnd
  proof (cases "seqnums (linked h) hnd")
    case (Some sn)
    then show ?thesis using inv al framed_short [of CmdUnlink sn]
      by (auto simp: cancel_urb_spec borrow_send_inv_def intro: framed_append)
  qed (use inv in \<open>auto simp: cancel_urb_spec intro: exI [of _ "[]"]\<close>)
  assume "bh_port_stat (borrow_send_handler_ops chk iso_sz iso_align al junk rnd fetch V) p h = Ret h'"
  then have "port_stat chk al rnd p h = Ret h'" by simp
  from port_stat_spec [OF this] inv al framed_short [of CmdPort "cur_seq h"]
  show "borrow_send_inv iso_sz iso_align al fetch h' \<and> (\<exists>bs. framed bs \<and> bs_buf h' = bs_buf h @ bs)"
    by (auto simp: borrow_send_inv_def intro: framed_append exI [of _ "[]"])
next
  fix h h' urb hnd
  assume "borrow_send_inv iso_sz iso_align al fetch h" "work_fits iso_sz (ProcessUrb urb hnd)"
    "bh_process_urb (borrow_send_handler_ops chk iso_sz iso_align al junk rnd fetch V) urb hnd h = Ret (Inr (), h')"
  then show "borrow_send_inv iso_sz iso_align al fetch h' \<and> (\<exists>bs. framed bs \<and> bs_buf h' = bs_buf h @ bs)"
    using process_urb_appends by simp
qed (auto simp: is_buf_empty_def borrow_send_inv_def set_address_def intro: framed_append)

section \<open>Facts: handles and sequence numbers\<close>

text \<open>The two maps are inverse to each other, and every outstanding sequence number has been
  drawn from the counter.\<close>

definition link_ok :: "u32 \<Rightarrow> linker \<Rightarrow> bool" where
  "link_ok c l \<longleftrightarrow> (\<forall>hnd sn. seqnums l hnd = Some sn \<longleftrightarrow> handles l sn = Some hnd) \<and>
     (\<forall>sn. handles l sn \<noteq> None \<longrightarrow> sn < c)"

lemma link_okD:
  assumes "link_ok c l"
  shows "seqnums l hnd = Some sn \<longleftrightarrow> handles l sn = Some hnd"
    and "handles l sn = Some hnd \<Longrightarrow> sn < c"
  using assms by (auto simp: link_ok_def)

lemma unat_inc_u32: "(c :: u32) \<noteq> -1 \<Longrightarrow> unat (c + 1) = unat c + 1"
  using unatSuc [of c] by (simp add: add.commute add_eq_0_iff)

lemma less_inc_u32: "(c :: u32) \<noteq> -1 \<Longrightarrow> sn < c + 1 \<longleftrightarrow> sn < c \<or> sn = c"
  by (auto simp: word_less_nat_alt unat_inc_u32 less_Suc_eq word_unat_eq_iff)

lemma link_over_ok:
  assumes "link_ok c l" and "seqnums l hnd = None" and "c \<noteq> -1"
  shows "link_ok (c + 1) (link_over c hnd l)"
proof -
  have "handles l c = None"
    using link_okD(2) [OF assms(1), of c] by (cases "handles l c") auto
  moreover have "handles l sn \<noteq> Some hnd" for sn
    using link_okD(1) [OF assms(1), of hnd sn] assms(2) by simp
  ultimately show ?thesis
    using link_okD [OF assms(1)] less_inc_u32 [OF assms(3)]
    by (auto simp: link_ok_def link_over_def)
qed

lemma link_new_over:
  "link_new sn hnd l = (if seqnums l hnd \<noteq> None \<or> handles l sn \<noteq> None then Panic else Ret (link_over sn hnd l))"
  by (simp add: link_new_def link_over_def)

lemma unlink_ok:
  assumes "link_ok c l" and "handles l sn = Some hnd"
  shows "\<exists>l'. unlink sn l = Ret (hnd, l') \<and> link_ok c l' \<and> handles l' = (handles l)(sn := None) \<and>
    seqnums l' = (seqnums l)(hnd := None)"
proof -
  have s: "seqnums l hnd = Some sn" using link_okD(1) [OF assms(1)] assms(2) by blast
  have "handles l x = Some hnd \<longleftrightarrow> x = sn" for x
    using link_okD(1) [OF assms(1), of hnd x] s by auto
  moreover have "seqnums l y = Some sn \<longleftrightarrow> y = hnd" for y
    using link_okD(1) [OF assms(1), of y sn] assms(2) by auto
  ultimately have "link_ok c \<lparr>seqnums = (seqnums l)(hnd := None), handles = (handles l)(sn := None)\<rparr>"
    using link_okD [OF assms(1)] by (auto simp: link_ok_def)
  then show ?thesis using s assms(2) by (simp add: unlink_def)
qed

lemma unlink_unknown: "handles l sn = None \<Longrightarrow> unlink sn l = Panic"
  by (simp add: unlink_def)

text \<open>
  The two handlers run interleaved on the same maps. \<open>LSubmit\<close> is a request that
  \<open>process_urb\<close> registers, \<open>LReply\<close> a reply or a finished reset.
\<close>

datatype link_event = LSubmit urb_handle | LReply u32

fun link_step :: "link_event \<Rightarrow> u32 \<times> linker \<Rightarrow> (u32 \<times> linker) run" where
  "link_step (LSubmit hnd) (c, l) = rbind (counter_increment True c) (\<lambda>(sn, c'). Ret (c', link_over sn hnd l))"
| "link_step (LReply sn) (c, l) = rbind (unlink sn l) (\<lambda>(_, l'). Ret (c, l'))"

fun link_run :: "link_event list \<Rightarrow> u32 \<times> linker \<Rightarrow> (u32 \<times> linker) run" where
  "link_run [] s = Ret s"
| "link_run (e # es) s = rbind (link_step e s) (link_run es)"

text \<open>A fair driver submits only handles that are not outstanding; a fair peer replies only to
  outstanding sequence numbers.\<close>

definition link_fair :: "link_event \<Rightarrow> u32 \<times> linker \<Rightarrow> bool" where
  "link_fair e s = (case e of LSubmit hnd \<Rightarrow> seqnums (snd s) hnd = None \<and> fst s \<noteq> -1
     | LReply sn \<Rightarrow> handles (snd s) sn \<noteq> None)"

fun link_fair_run :: "link_event list \<Rightarrow> u32 \<times> linker \<Rightarrow> bool" where
  "link_fair_run [] s = True"
| "link_fair_run (e # es) s = (link_fair e s \<and> (case link_step e s of Ret s' \<Rightarrow> link_fair_run es s' | _ \<Rightarrow> False))"

lemma link_step_ok:
  assumes "link_ok c l" and "link_fair e (c, l)"
  shows "\<exists>c' l'. link_step e (c, l) = Ret (c', l') \<and> link_ok c' l' \<and>
    (\<forall>sn hnd. handles l sn = Some hnd \<longrightarrow> e \<noteq> LReply sn \<longrightarrow> handles l' sn = Some hnd)"
proof (cases e)
  case (LSubmit hnd)
  with assms have f: "seqnums l hnd = None" "c \<noteq> -1" by (simp_all add: link_fair_def)
  have "handles (link_over c hnd l) sn = Some h" if "handles l sn = Some h" for sn h
    using link_okD(2) [OF assms(1) that] that by (auto simp: link_over_def)
  with link_over_ok [OF assms(1) f] LSubmit f(2) show ?thesis
    by (simp add: counter_increment_def)
next
  case (LReply sn)
  with assms obtain hnd where "handles l sn = Some hnd" by (auto simp: link_fair_def)
  from unlink_ok [OF assms(1) this] LReply show ?thesis by auto
qed

lemma link_run_ok:
  "link_ok c l \<Longrightarrow> link_fair_run es (c, l) \<Longrightarrow>
    \<exists>c' l'. link_run es (c, l) = Ret (c', l') \<and> link_ok c' l' \<and>
      (\<forall>sn hnd. handles l sn = Some hnd \<longrightarrow> LReply sn \<notin> set es \<longrightarrow> handles l' sn = Some hnd)"
proof (induction es arbitrary: c l)
  case Nil
  then show ?case by simp
next
  case (Cons e es)
  from Cons.prems(2) have f: "link_fair e (c, l)" by simp
  obtain c1 l1 where s: "link_step e (c, l) = Ret (c1, l1)" "link_ok c1 l1"
    "\<And>sn hnd. handles l sn = Some hnd \<Longrightarrow> e \<noteq> LReply sn \<Longrightarrow> handles l1 sn = Some hnd"
    using link_step_ok [OF Cons.prems(1) f] by blast
  with Cons.prems(2) have "link_fair_run es (c1, l1)" by simp
  from Cons.IH [OF s(2) this] s show ?case by fastforce
qed

section \<open>Facts: replies\<close>

lemma urb_reply_eq:
  assumes "handles l sn = Some hnd" and "seqnums l hnd = Some sn'"
    and "is_out uh \<or> padded_transfer_len uh \<le> length body"
  shows "urb_reply \<lparr>sq_seqnum = sn, sq_data = \<lparr>d_addr = a, d_bytes = urb_header_as_bytes uh @ body\<rparr>\<rparr> l =
    Ret (\<lparr>gb_handle = hnd, gb_kind = urb_type_from_kind (kind uh),
       gb_status = vhci_from_ts (urb_status uh),
       gb_data = (if is_out uh then GivebackOut (actual_transfer_len uh)
         else GivebackIn (take (unat (actual_transfer_len uh)) (take (padded_transfer_len uh) body))),
       gb_iso_packets = (if is_out uh then body else drop (padded_transfer_len uh) body)\<rparr>,
      \<lparr>seqnums = (seqnums l)(hnd := None), handles = (handles l)(sn := None)\<rparr>)"
  using assms by (cases "is_out uh") (simp_all add: urb_reply_def unlink_def URB_HEADER_SIZE_def data_advance_def Let_def)

section \<open>Properties of the borrower\<close>

text \<open>C3. Whenever the writer is not lent to a flush, the bytes that the borrower has sent are a
  sequence of whole, well-formed messages, and a lender that receives them, in whatever pieces,
  parses exactly these messages in order.\<close>

theorem borrower_sends_messages:
  assumes "borrow_send_reach V (borrow_send_handler_ops chk iso_sz iso_align al junk rnd fetch V)
      (work_fits iso_sz) (borrow_send_new a l) s"
    and "borrow_env iso_sz iso_align al fetch" and "a mod 8 = 0" and "tx_holder s = Some tx"
    and "alloc_ok al2" and "stream_reader rd strm" and "ring_ok r" and "r_buf r @ strm rx = tx"
  shows "\<exists>ms as. (\<forall>m \<in> set ms. wire_ok m) \<and> tx = concat (map wire_bytes ms) \<and> length as = length ms \<and>
    recv_parsed (Suc (length ms)) chk2 iso_sz al2 rd r rx = (map2 wire_frame as ms, True)"
proof -
  have "borrow_send_inv iso_sz iso_align al fetch (borrow_send_new a l)"
    using assms(2,3) by (simp add: borrow_send_inv_def borrow_send_new_def)
  from borrow_h.reach_inv [OF assms(1) this] assms(4) have "framed tx"
    by (auto simp: borrow_h.sender_inv_def borrow_send_new_def split: loop_state.splits)
  then obtain ms where ms: "\<forall>m \<in> set ms. wire_ok m" "tx = concat (map wire_bytes ms)"
    by (auto simp: framed_def)
  with recv_parsed_wire [OF assms(5-7) ms(1), of rx chk2 iso_sz] assms(8) show ?thesis by metis
qed

text \<open>The send loop never strands data and never loses its writer: in every reachable state the
  buffer is empty while the loop only waits for work, the writer is missing exactly during a
  flush, and the timer event always finds it.\<close>

theorem borrower_loop_invariant:
  assumes "borrow_send_reach V (borrow_send_handler_ops chk iso_sz iso_align al junk rnd fetch V)
      (work_fits iso_sz) (borrow_send_new a l) s"
    and "borrow_env iso_sz iso_align al fetch" and "a mod 8 = 0"
  shows "(s_state s = Solicit \<longrightarrow> bs_buf (s_handler s) = [] \<and> flusher s = None) \<and>
    (s_state s = Timer \<longleftrightarrow> sleeper s) \<and> (s_state s = Flush \<longleftrightarrow> tx_holder s = None) \<and>
    (s_state s = Flush \<longleftrightarrow> flusher s \<noteq> None) \<and>
    (send_ready s EvFlushBuf \<longrightarrow> (\<exists>s'. borrow_send_step V
      (borrow_send_handler_ops chk iso_sz iso_align al junk rnd fetch V) EvFlushBuf s = Ret (Inr s')))"
proof -
  have h: "borrow_send_inv iso_sz iso_align al fetch (borrow_send_new a l)"
    "bs_buf (borrow_send_new a l) = []"
    using assms(2,3) by (simp_all add: borrow_send_inv_def borrow_send_new_def)
  from borrow_h.reach_inv [OF assms(1) h] borrow_h.flush_total [OF assms(1) h] show ?thesis
    by (auto simp: borrow_h.sender_inv_def split: loop_state.splits)
qed

text \<open>C5. The borrower gets rid of everything that it has built: from every state of the loop, three rounds are
  enough, in which the timer fires and the writer writes, after which all bytes are written and the
  loop waits for work; they are whole messages. No other event is needed, and none of the rounds
  panics.\<close>

theorem borrower_drains:
  assumes "borrow_send_reach V (borrow_send_handler_ops chk iso_sz iso_align al junk rnd fetch V)
      (work_fits iso_sz) (borrow_send_new a l) s"
    and "borrow_env iso_sz iso_align al fetch" and "a mod 8 = 0"
  shows "\<exists>evs s' ms. length evs \<le> 3 \<and> set evs \<subseteq> flush_events \<and>
    borrow_send_run V (borrow_send_handler_ops chk iso_sz iso_align al junk rnd fetch V) evs s = Some s' \<and>
    s_state s' = Solicit \<and> tx_holder s' = Some (all_bytes bs_buf s) \<and>
    (\<forall>m \<in> set ms. wire_ok m) \<and> all_bytes bs_buf s = concat (map wire_bytes ms)"
proof -
  have h: "borrow_send_inv iso_sz iso_align al fetch (borrow_send_new a l)" "bs_buf (borrow_send_new a l) = []"
    using assms(2,3) by (simp_all add: borrow_send_inv_def borrow_send_new_def)
  note inv = borrow_h.reach_inv [OF assms(1) h]
  from borrow_h.out_framed [OF framed_Nil inv] obtain ms where
    "\<forall>m \<in> set ms. wire_ok m" "all_bytes bs_buf s = concat (map wire_bytes ms)" by (auto simp: framed_def)
  with borrow_h.send_drains [OF inv, of V] show ?thesis by metis
qed

text \<open>A request of the driver becomes one message: with the next sequence number, the driver's
  fields in the header, and a data section of the right length; and its handle is linked to
  that number. The only other outcome is the error of the driver call.\<close>

theorem process_urb_message:
  assumes "borrow_send_inv iso_sz iso_align al fetch b" and "urb_fits iso_sz urb"
    and "chk \<longrightarrow> dev_addr b = iu_address urb" and "chk \<longrightarrow> cur_seq b \<noteq> -1"
  shows "\<exists>res b'. process_urb chk iso_sz iso_align al junk fetch urb hnd b = Ret (res, b') \<and>
    (res = Inr () \<longrightarrow> (\<exists>data. length data = urb_data_size iso_sz urb \<and>
      bs_buf b' = bs_buf b @ wire_bytes (MUrb CmdSubmit (cur_seq b) (urb_request_header urb) data))) \<and>
    linked b' = link_over (cur_seq b) hnd (linked b) \<and> cur_seq b' = cur_seq b + 1"
proof -
  obtain a x b' where x: "process_urb chk iso_sz iso_align al junk fetch urb hnd b = Ret (map_sum id (\<lambda>_. ()) x, b')"
    "\<forall>data. x = Inr data \<longrightarrow> length data = urb_data_size iso_sz urb \<and>
      bs_buf b' = bs_buf b @ wire_bytes (MUrb CmdSubmit (cur_seq b) (urb_request_header urb) data)"
    "linked b' = link_over (cur_seq b) hnd (linked b)" "cur_seq b' = cur_seq b + 1"
    using process_urb_spec [OF assms, of junk hnd] by blast
  then show ?thesis by (cases x) auto
qed

text \<open>A request whose buffer is 64 KiB or longer breaks the contract of
  \<open>get_unchecked_mut\<close>: the length is cut to sixteen bits for the header, but not for the slice.\<close>

theorem process_urb_long_buffer:
  assumes "65536 \<le> iu_buffer_length urb" and "\<not> bit (iu_endpoint urb) 7"
  shows "process_urb False iso_sz iso_align al junk fetch urb hnd b = Undef"
proof -
  let ?h = "urb_request_header urb"
  have out: "is_out ?h" using assms(2) by (simp add: is_out_eq urb_request_header_def)
  have "padded_transfer_len ?h = up8 (iu_buffer_length urb mod 65536)"
    by (simp add: padded_transfer_len_eq urb_request_header_def unat_of_nat take_bit_eq_mod)
  also have "\<dots> < iu_buffer_length urb mod 65536 + 8" by (rule up8_less)
  also have "\<dots> \<le> iu_buffer_length urb"
  proof -
    have "iu_buffer_length urb = iu_buffer_length urb div 65536 * 65536 + iu_buffer_length urb mod 65536"
      by simp
    moreover have "1 \<le> iu_buffer_length urb div 65536" using div_le_mono [OF assms(1), of 65536] by simp
    ultimately show ?thesis by linarith
  qed
  finally have "fetch_section iso_sz iso_align junk fetch urb hnd ?h a = Undef" for a
    using out by (simp add: fetch_section_def Let_def)
  then show ?thesis
    by (simp add: process_urb_def counter_increment_def Let_def)
qed

text \<open>C22. However requests and replies interleave, as long as the driver does not reuse a handle
  that is outstanding and the peer answers what is outstanding, no step panics, and the reply to
  a request is given back under the very handle the driver submitted.\<close>

theorem reply_finds_request:
  assumes "link_ok c l" and "seqnums l hnd = None" and "c \<noteq> -1"
    and "link_fair_run es (c + 1, link_over c hnd l)" and "LReply c \<notin> set es"
    and "is_out uh \<or> padded_transfer_len uh \<le> length body"
  shows "\<exists>c' l' g l''. link_run (LSubmit hnd # es) (c, l) = Ret (c', l') \<and>
    urb_reply \<lparr>sq_seqnum = c, sq_data = \<lparr>d_addr = a, d_bytes = urb_header_as_bytes uh @ body\<rparr>\<rparr> l' =
      Ret (g, l'') \<and> gb_handle g = hnd \<and> link_ok c' l''"
proof -
  have ok: "link_ok (c + 1) (link_over c hnd l)" by (rule link_over_ok [OF assms(1-3)])
  have "handles (link_over c hnd l) c = Some hnd" by (simp add: link_over_def)
  with link_run_ok [OF ok assms(4)] assms(5) obtain c' l' where
    r: "link_run es (c + 1, link_over c hnd l) = Ret (c', l')" "link_ok c' l'" "handles l' c = Some hnd"
    by blast
  from unlink_ok [OF r(2,3)] link_okD(1) [OF r(2), of hnd c] r(3) assms(6)
  show ?thesis
    using r(1) assms(3) urb_reply_eq [OF r(3), of c uh body a]
    by (auto simp: counter_increment_def unlink_def)
qed

text \<open>A reply, or a finished reset, with a sequence number that is not outstanding panics the
  borrower's receive task: the peer decides whether this happens.\<close>

theorem reply_unknown_panics:
  assumes "handles l (sq_seqnum sq) = None"
  shows "urb_reply sq l = Panic \<and> borrow_device_reset res (sq_seqnum sq) l = Panic"
  using assms by (simp add: urb_reply_def borrow_device_reset_def unlink_unknown)

text \<open>An unlink message, which \<open>parse_frame\<close> accepts from either side, panics the borrower's
  receive loop.\<close>

theorem unlink_message_panics:
  assumes "alloc_ok al" and "stream_reader rd strm" and "ring_ok r"
    and "r_buf r @ strm rx = wire_bytes (MShort CmdUnlink sn) @ rest"
  shows "\<exists>f r' rx'. borrow_next_frame chk iso_sz al rd r rx = Some (Ret (Some (Inr f, r', rx'))) \<and>
    borrow_recv_step H (EvFrame (Inr f)) s = Panic"
proof -
  have ok: "wire_ok (MShort CmdUnlink sn)" by simp
  obtain a r' rx' where "recv_frame chk al rd r rx =
      Some (Ret (Inr \<lparr>d_addr = a, d_bytes = wire_bytes (MShort CmdUnlink sn)\<rparr>, r', rx'))" "a mod 8 = 0"
    using recv_wire [OF assms(1-3) ok assms(4), of chk] by (elim exE conjE) (rule that)
  with parse_wire [OF ok, of a iso_sz] show ?thesis
    by (simp add: borrow_next_frame_def borrow_recv_step_def)
qed

section \<open>The properties at work\<close>

text \<open>A session in which the port is reset: one message is built, flushed and written.\<close>

definition example_vhci :: vhci_ops where
  "example_vhci = \<lparr>setup_req = (\<lambda>_. OtherRequest), setup_value = (\<lambda>p. ucast (drop_bit 16 p)),
     setup_index = (\<lambda>p. ucast (drop_bit 32 p)), setup_length = (\<lambda>p. ucast (drop_bit 48 p)),
     is_for_unassigned = (\<lambda>a. a = 0), is_anycast = (\<lambda>e. e = 0),
     address_new = (\<lambda>n. if n < 128 then Some n else None)\<rparr>"

definition same_place :: mem_at where "same_place a len n = a"

definition fetch_nothing :: fetch where "fetch_nothing hnd h t i = Inr (t, i)"

definition example_ops :: "borrow_send borrow_send_handler" where
  "example_ops = borrow_send_handler_ops True 8 4 same_place (\<lambda>_. 0) (\<lambda>_. 42) fetch_nothing example_vhci"

definition no_links :: linker where "no_links = \<lparr>seqnums = Map.empty, handles = Map.empty\<rparr>"

definition example_reset :: ioc_port_stat where
  "example_reset = \<lparr>ps_index = 1, ps_status = {PS_RESET, PS_CONNECTION}, ps_change = {}, ps_flags = {}\<rparr>"

definition example_handler :: "bytes \<Rightarrow> nat \<Rightarrow> borrow_send" where
  "example_handler bs a = \<lparr>bs_addr = a, bs_buf = bs, cur_seq = 1, prev = example_reset, dev_addr = 0,
     linked = \<lparr>seqnums = [42 \<mapsto> 0], handles = [0 \<mapsto> 42]\<rparr>\<rparr>"

lemma example_env [simp]: "borrow_env 8 4 same_place fetch_nothing"
  by (simp add: borrow_env_def same_place_def fetch_nothing_def)

lemma example_message: "header_as_bytes (short_header CmdPort 0) = [1, 0, 2, 0, 0, 0, 0, 0]"
  by (simp add: header_as_bytes_def short_header_def le16_def le32_def HEADER_SIZE_def)

text \<open>The message waits for the timer.\<close>

definition example_waiting :: "borrow_send borrow_sender" where
  "example_waiting = \<lparr>s_state = Timer, tx_holder = Some [], sleeper = True, flusher = None,
    s_handler = example_handler [1, 0, 2, 0, 0, 0, 0, 0] 0, addr_setter = None\<rparr>"

lemma example_waiting_reach:
  "borrow_send_reach example_vhci example_ops (work_fits 8) (borrow_send_new 0 no_links) example_waiting"
proof -
  have ps: "port_stat True same_place (\<lambda>_. 42) example_reset (borrow_send_new 0 no_links) =
      Ret (example_handler [1, 0, 2, 0, 0, 0, 0, 0] 0)"
    by (simp add: port_stat_def borrow_send_new_def example_reset_def default_port_stat_def
      counter_increment_def link_new_def no_links_def put_slice_def example_message
      example_handler_def same_place_def)
  show ?thesis
    by (rule borrow_send_reach.step [OF borrow_send_reach.start, where ev = "EvWork (PortStat example_reset)"])
      (simp_all add: ps borrow_send_step_def handle_work_def example_ops_def start_borrow_sender_def
        is_buf_empty_def example_handler_def example_waiting_def)
qed

lemma example_reach:
  "borrow_send_reach example_vhci example_ops (work_fits 8) (borrow_send_new 0 no_links)
     \<lparr>s_state = Solicit, tx_holder = Some [1, 0, 2, 0, 0, 0, 0, 0], sleeper = False, flusher = None,
      s_handler = example_handler [] 8, addr_setter = None\<rparr>"
proof -
  let ?m = "[1, 0, 2, 0, 0, 0, 0, 0] :: bytes"
  have "borrow_send_reach example_vhci example_ops (work_fits 8) (borrow_send_new 0 no_links)
    \<lparr>s_state = Flush, tx_holder = None, sleeper = False, flusher = Some ([], ?m),
      s_handler = example_handler [] 8, addr_setter = None\<rparr>"
    by (rule borrow_send_reach.step [OF example_waiting_reach, where ev = EvFlushBuf])
      (simp_all add: borrow_send_step_def on_flush_buf_def example_ops_def flush_buf_def example_handler_def
        example_waiting_def)
  then show ?thesis
    by (rule borrow_send_reach.step [where ev = "EvFlushComplete (Inr ?m)"])
      (simp_all add: borrow_send_step_def on_flush_complete_def example_ops_def is_buf_empty_def example_handler_def)
qed

theorem borrower_sends_messages_witness:
  "\<exists>ms as. (\<forall>m \<in> set ms. wire_ok m) \<and> [1, 0, 2, 0, 0, 0, 0, 0] = concat (map wire_bytes ms) \<and>
     length as = length ms \<and>
     recv_parsed (Suc (length ms)) True 8 exact_alloc (chunk_reader 3) (ring_with_capacity 0 0)
       [1, 0, 2, 0, 0, 0, 0, 0] = (map2 wire_frame as ms, True)"
  by (rule borrower_sends_messages [OF example_reach [unfolded example_ops_def], of _ exact_alloc "chunk_reader 3" id])
    simp_all

theorem borrower_drains_witness:
  "\<exists>evs s'. set evs \<subseteq> flush_events \<and> borrow_send_run example_vhci example_ops evs example_waiting = Some s' \<and>
    tx_holder s' = Some [1, 0, 2, 0, 0, 0, 0, 0]"
  using borrower_drains [OF example_waiting_reach [unfolded example_ops_def] example_env, folded example_ops_def]
  by (auto simp: example_waiting_def all_bytes_def example_handler_def)

theorem borrower_loop_invariant_witness:
  "bs_buf (s_handler \<lparr>s_state = Solicit, tx_holder = Some [1, 0, 2, 0, 0, 0, 0, 0], sleeper = False,
     flusher = None, s_handler = example_handler [] 8, addr_setter = None :: (ioc_urb \<times> u64) option\<rparr>) = []"
  using borrower_loop_invariant [OF example_reach [unfolded example_ops_def] example_env] by simp

definition example_urb :: "nat \<Rightarrow> ioc_urb" where
  "example_urb n = \<lparr>iu_typ = UrbBulk, iu_address = 5, iu_setup_packet = 0, iu_buffer_length = n,
     iu_packet_count = 0, iu_interval = 0, iu_flags = 0, iu_endpoint = 2\<rparr>"

lemma not_bit_2_7: "\<not> bit (2 :: u8) 7"
  by (simp add: bit_iff_odd drop_bit_eq_div)

theorem process_urb_message_witness:
  "\<exists>res b'. process_urb True 8 4 same_place (\<lambda>_. 0) fetch_nothing (example_urb 3) 42
      ((borrow_send_new 0 no_links)\<lparr>dev_addr := 5\<rparr>) = Ret (res, b') \<and>
    linked b' = link_over 0 42 no_links \<and> cur_seq b' = 1"
  using process_urb_message [of 8 4 same_place fetch_nothing "(borrow_send_new 0 no_links)\<lparr>dev_addr := 5\<rparr>"
    "example_urb 3" True "\<lambda>_. 0" 42]
  by (simp add: borrow_send_inv_def borrow_send_new_def urb_fits_def example_urb_def
    urb_data_size_def up8_def not_bit_2_7) blast

theorem process_urb_long_buffer_witness:
  "process_urb False 8 4 same_place (\<lambda>_. 0) fetch_nothing (example_urb 122880) 42 (borrow_send_new 0 no_links) = Undef"
  by (rule process_urb_long_buffer) (simp_all add: example_urb_def not_bit_2_7)

theorem reply_finds_request_witness:
  "\<exists>c' l' g l''. link_run [LSubmit 42, LSubmit 43, LReply 1] (0, no_links) = Ret (c', l') \<and>
     urb_reply \<lparr>sq_seqnum = 0, sq_data = \<lparr>d_addr = 0, d_bytes =
       urb_header_as_bytes (urb_request_header (example_urb 3)) @ []\<rparr>\<rparr> l' = Ret (g, l'') \<and> gb_handle g = 42"
proof -
  have 1: "link_ok 0 no_links" by (simp add: link_ok_def no_links_def)
  have 2: "link_fair_run [LSubmit 43, LReply 1] (0 + 1, link_over 0 42 no_links)"
    by (simp add: link_fair_def link_over_def no_links_def counter_increment_def unlink_def)
  have 3: "is_out (urb_request_header (example_urb 3))"
    by (simp add: is_out_eq urb_request_header_def example_urb_def not_bit_2_7)
  from reply_finds_request [OF 1 _ _ 2, of "urb_request_header (example_urb 3)" "[]" 0] 3
  show ?thesis by (simp add: no_links_def) blast
qed

theorem reply_unknown_panics_witness:
  "urb_reply \<lparr>sq_seqnum = 7, sq_data = \<lparr>d_addr = 0, d_bytes = []\<rparr>\<rparr> no_links = Panic"
  using reply_unknown_panics [of no_links "\<lparr>sq_seqnum = 7, sq_data = \<lparr>d_addr = 0, d_bytes = []\<rparr>\<rparr>"]
  by (simp add: no_links_def)

theorem unlink_message_panics_witness:
  "\<exists>f r' rx'. borrow_next_frame True 8 exact_alloc (chunk_reader 3) (ring_with_capacity 0 0)
      (wire_bytes (MShort CmdUnlink 9)) = Some (Ret (Some (Inr f, r', rx'))) \<and>
    borrow_recv_step (borrow_recv_handler_ops (\<lambda>_. Inr ())) (EvFrame (Inr f))
      \<lparr>br_handler = \<lparr>rlinked = no_links, givebacks = []\<rparr>, replies = 0\<rparr> = Panic"
  by (rule unlink_message_panics [of exact_alloc "chunk_reader 3" id _ _ 9 "[]"]) simp_all

end
