(* ===== verification/Lend_Loop.thy ===== *)
theory Lend_Loop
  imports Send_Loop Vhci Proto_Frame "HOL-Library.Multiset"
begin

text \<open>
  The loops of \<^verbatim>\<open>crates/qusb-lend\<close>: \<^verbatim>\<open>RecvLoop::do_loop\<close> dispatches the requests of the
  borrower to the device, \<^verbatim>\<open>SendLoop::do_loop\<close> turns completed transfers into replies. The four
  result types of the source are one record and its extensions; a control and a bulk result
  have the same fields.
\<close>

section \<open>Results of transfers\<close>

datatype result_data = ResIn bytes | ResOut nat

fun result_data_new :: "bytes \<Rightarrow> dir \<Rightarrow> result_data" where
  "result_data_new buf Out = ResOut (length buf)"
| "result_data_new buf In = ResIn buf"

fun res_actual_transfer_len :: "result_data \<Rightarrow> nat" where
  "res_actual_transfer_len (ResIn buf) = length buf"
| "res_actual_transfer_len (ResOut bytes_transferred) = bytes_transferred"

fun res_get :: "result_data \<Rightarrow> bytes" where
  "res_get (ResIn buf) = buf"
| "res_get (ResOut _) = []"

record header_data =
  hd_actual_transfer_len :: u16
  hd_transfer :: bytes
  hd_padding :: bytes

definition as_header_data :: "result_data \<Rightarrow> header_data run" where
  "as_header_data r =
     rbind (padding (of_nat (length (res_get r)))) (\<lambda>pad.
       Ret \<lparr>hd_actual_transfer_len = of_nat (res_actual_transfer_len r), hd_transfer = res_get r,
         hd_padding = pad\<rparr>)"

record xfer =
  x_res :: result_data
  x_endpoint :: u8
  x_status :: "transfer_error + unit"

record int_xfer = xfer +
  x_interval :: u16

record iso_xfer = int_xfer +
  x_raw_iso_buf :: bytes
  x_num_errors :: u16
  x_num_iso_packets :: u16

datatype completed_transfer =
    CReset "(abortable_error + unit) seq"
  | CCtrl "xfer seq"
  | CInt "int_xfer seq"
  | CIso "iso_xfer seq"
  | CBulk "xfer seq"

section \<open>Errors\<close>

datatype seq_error = SeqReset | SeqTransfer transfer_kind u8 abortable_error

fun as_command :: "seq_error \<Rightarrow> command" where
  "as_command SeqReset = RetPort"
| "as_command (SeqTransfer _ _ _) = RetSubmit"

fun as_status :: "seq_error \<Rightarrow> status" where
  "as_status SeqReset = NoDev"
| "as_status (SeqTransfer _ _ err) = as_proto err"

record usb_error =
  ue_id :: usb_device_id
  ue_seq :: "seq_error seq"

definition as_header :: "usb_error \<Rightarrow> header" where
  "as_header e = \<lparr>total_frame_len = compress_frame_len HEADER_SIZE, command = as_command (sq_data (ue_seq e)),
     hdr_status = as_status (sq_data (ue_seq e)), seqnum = sq_seqnum (ue_seq e)\<rparr>"

datatype lend_error = LUsb usb_error | LRecv recv_error | LSend io_error

section \<open>Control requests\<close>

datatype ctrl_req = SetInterface u8 u8 | SetConfig u8 | ClearStall u8

datatype ctrl_kind = CtrlBlocking ctrl_req | CtrlAsync

definition ctrl_kind_parse :: "vhci_ops \<Rightarrow> setup_packet \<Rightarrow> ctrl_kind" where
  "ctrl_kind_parse V pkt =
     (case setup_req V pkt of
        STANDARD_INTERFACE_SET_INTERFACE \<Rightarrow>
          CtrlBlocking (SetInterface (ucast (setup_value V pkt)) (ucast (setup_index V pkt)))
      | STANDARD_DEVICE_SET_CONFIGURATION \<Rightarrow> CtrlBlocking (SetConfig (ucast (setup_value V pkt)))
      | STANDARD_ENDPOINT_CLEAR_FEATURE \<Rightarrow> CtrlBlocking (ClearStall (ucast (setup_index V pkt)))
      | _ \<Rightarrow> CtrlAsync)"

section \<open>The send loop\<close>

record 'h lend_send_handler =
  lh_is_buf_empty :: "'h \<Rightarrow> bool"
  lh_flush_buf :: "'h \<Rightarrow> bytes \<times> 'h"
  lh_iso_completed :: "iso_xfer seq \<Rightarrow> 'h \<Rightarrow> ((usb_error + unit) \<times> 'h) run"
  lh_int_completed :: "int_xfer seq \<Rightarrow> 'h \<Rightarrow> ((usb_error + unit) \<times> 'h) run"
  lh_ctrl_completed :: "xfer seq \<Rightarrow> 'h \<Rightarrow> ((usb_error + unit) \<times> 'h) run"
  lh_bulk_completed :: "xfer seq \<Rightarrow> 'h \<Rightarrow> ((usb_error + unit) \<times> 'h) run"
  lh_device_resetted :: "(abortable_error + unit) seq \<Rightarrow> 'h \<Rightarrow> ((usb_error + unit) \<times> 'h) run"

fun handle_event :: "'h lend_send_handler \<Rightarrow> completed_transfer \<Rightarrow> 'h \<Rightarrow> ((usb_error + unit) \<times> 'h) run" where
  "handle_event H (CReset sq) h = lh_device_resetted H sq h"
| "handle_event H (CCtrl sq) h = lh_ctrl_completed H sq h"
| "handle_event H (CInt sq) h = lh_int_completed H sq h"
| "handle_event H (CIso sq) h = lh_iso_completed H sq h"
| "handle_event H (CBulk sq) h = lh_bulk_completed H sq h"

datatype lend_event =
    LendEv completed_transfer
  | LFlushBuf
  | LFlushComplete "io_error + bytes"
  | LClosed

fun lend_ready :: "'h sender \<Rightarrow> lend_event \<Rightarrow> bool" where
  "lend_ready s (LendEv _) = True"
| "lend_ready s LClosed = True"
| "lend_ready s LFlushBuf = (s_state s = Timer \<and> sleeper s)"
| "lend_ready s (LFlushComplete r) = (s_state s = Flush \<and>
     (case flusher s of None \<Rightarrow> False
      | Some (tx, bs) \<Rightarrow> (case r of Inl _ \<Rightarrow> True | Inr tx' \<Rightarrow> tx' = tx @ bs)))"

definition lend_send_step :: "'h lend_send_handler \<Rightarrow> lend_event \<Rightarrow> 'h sender \<Rightarrow>
    (lend_error option + 'h sender) run" where
  "lend_send_step H ev s =
     (case ev of
        LClosed \<Rightarrow> Ret (Inl None)
      | LendEv t \<Rightarrow>
          rbind (handle_event H t (s_handler s)) (\<lambda>(r, h).
            case r of
              Inl err \<Rightarrow> Ret (Inl (Some (LUsb err)))
            | Inr _ \<Rightarrow>
                (case s_state s of
                   Solicit \<Rightarrow> Ret (Inr (s\<lparr>s_handler := h, sleeper := True, s_state := Timer\<rparr>))
                 | _ \<Rightarrow> Ret (Inr (s\<lparr>s_handler := h\<rparr>))))
      | LFlushBuf \<Rightarrow> rbind (on_flush_buf (lh_flush_buf H) s) (\<lambda>s'. Ret (Inr s'))
      | LFlushComplete (Inr tx) \<Rightarrow> Ret (Inr (on_flush_complete (lh_is_buf_empty H) tx s))
      | LFlushComplete (Inl err) \<Rightarrow> Ret (Inl (Some (LSend err))))"

inductive lend_send_reach :: "'h lend_send_handler \<Rightarrow> (completed_transfer \<Rightarrow> bool) \<Rightarrow> 'h \<Rightarrow>
    'h sender \<Rightarrow> bool" for H ok h0 where
  start: "lend_send_reach H ok h0 (start_sender [] h0)"
| step: "lend_send_reach H ok h0 s \<Longrightarrow> lend_ready s ev \<Longrightarrow>
    (case ev of LendEv t \<Rightarrow> ok t | _ \<Rightarrow> True) \<Longrightarrow>
    lend_send_step H ev s = Ret (Inr s') \<Longrightarrow> lend_send_reach H ok h0 s'"

text \<open>The loop taking some events, each of which it was waiting for.\<close>

fun lend_send_run :: "'h lend_send_handler \<Rightarrow> lend_event list \<Rightarrow> 'h sender \<Rightarrow> 'h sender option" where
  "lend_send_run H [] s = Some s"
| "lend_send_run H (ev # evs) s =
     (if lend_ready s ev
      then (case lend_send_step H ev s of Ret (Inr s') \<Rightarrow> lend_send_run H evs s' | _ \<Rightarrow> None)
      else None)"

lemma lend_run_append:
  "lend_send_run H (evs @ evs') s = Option.bind (lend_send_run H evs s) (lend_send_run H evs')"
  by (induction evs arbitrary: s) (auto split: run.split sum.split)

definition lend_flush_events :: "lend_event set" where
  "lend_flush_events = insert LFlushBuf (range (\<lambda>tx. LFlushComplete (Inr tx)))"

text \<open>
  The end of \<^verbatim>\<open>SendLoop::run\<close>: a USB error is told to the peer with a bare header. A flush
  in progress is dropped; \<open>k\<close> is how many of its bytes had been written by then.
\<close>

definition writer_at_end :: "nat \<Rightarrow> 'h sender \<Rightarrow> bytes" where
  "writer_at_end k s =
     (case tx_holder s of
        Some tx \<Rightarrow> tx
      | None \<Rightarrow> (case flusher s of Some (tx, bs) \<Rightarrow> tx @ take k bs | None \<Rightarrow> []))"

definition lend_run_end :: "nat \<Rightarrow> 'h sender \<Rightarrow> lend_error option \<Rightarrow> (lend_error + unit) \<times> bytes" where
  "lend_run_end k s res =
     (case res of
        None \<Rightarrow> (Inr (), writer_at_end k s)
      | Some (LUsb err) \<Rightarrow> (Inl (LUsb err), writer_at_end k s @ le64 (header_as_u64_le (as_header err)))
      | Some err \<Rightarrow> (Inl err, writer_at_end k s))"

section \<open>The receive loop\<close>

text \<open>
  The handler methods start a future; its result comes back as a completion event. The state
  is the handler, the requests in progress by kind, and the results sent to the send loop.
\<close>

record 'h lend_recv_handler =
  lr_cancel_urb :: "u32 \<Rightarrow> 'h \<Rightarrow> 'h"
  lr_device_reset :: "u32 \<Rightarrow> 'h \<Rightarrow> 'h run"
  lr_blocking :: "ctrl_req seq \<Rightarrow> 'h \<Rightarrow> 'h run"
  lr_new :: "transfer_kind \<Rightarrow> data seq \<Rightarrow> 'h \<Rightarrow> 'h run"

record 'h lend_receiver =
  lrs_handler :: 'h
  reset_inprogress :: "u32 multiset"
  ctrl_inprogress :: "u32 multiset"
  int_inprogress :: "u32 multiset"
  iso_inprogress :: "u32 multiset"
  bulk_inprogress :: "u32 multiset"
  results :: "completed_transfer list"

datatype lend_recv_event = LFrame "recv_error + frame" | LCompleted completed_transfer | LFramesClosed

fun completed_seq :: "completed_transfer \<Rightarrow> u32" where
  "completed_seq (CReset sq) = sq_seqnum sq"
| "completed_seq (CCtrl sq) = sq_seqnum sq"
| "completed_seq (CInt sq) = sq_seqnum sq"
| "completed_seq (CIso sq) = sq_seqnum sq"
| "completed_seq (CBulk sq) = sq_seqnum sq"

fun lend_recv_ready :: "'h lend_receiver \<Rightarrow> lend_recv_event \<Rightarrow> bool" where
  "lend_recv_ready s (LCompleted t) =
     (completed_seq t \<in># (case t of CReset _ \<Rightarrow> reset_inprogress s | CCtrl _ \<Rightarrow> ctrl_inprogress s
        | CInt _ \<Rightarrow> int_inprogress s | CIso _ \<Rightarrow> iso_inprogress s | CBulk _ \<Rightarrow> bulk_inprogress s))"
| "lend_recv_ready s _ = True"

definition lend_recv_urb :: "vhci_ops \<Rightarrow> 'h lend_recv_handler \<Rightarrow> data seq \<Rightarrow> 'h lend_receiver \<Rightarrow>
    'h lend_receiver run" where
  "lend_recv_urb V H sq s =
     (case urb_header_from_bytes (take URB_HEADER_SIZE (d_bytes (sq_data sq))) of
        None \<Rightarrow> Undef
      | Some h \<Rightarrow>
          (case kind h of
             Isochronous \<Rightarrow> rbind (lr_new H Isochronous sq (lrs_handler s)) (\<lambda>x.
               Ret (s\<lparr>lrs_handler := x, iso_inprogress := add_mset (sq_seqnum sq) (iso_inprogress s)\<rparr>))
           | Interrupt \<Rightarrow> rbind (lr_new H Interrupt sq (lrs_handler s)) (\<lambda>x.
               Ret (s\<lparr>lrs_handler := x, int_inprogress := add_mset (sq_seqnum sq) (int_inprogress s)\<rparr>))
           | Control \<Rightarrow>
               rbind (case ctrl_kind_parse V (ctrl_packet h) of
                        CtrlBlocking req \<Rightarrow>
                          lr_blocking H \<lparr>sq_seqnum = sq_seqnum sq, sq_data = req\<rparr> (lrs_handler s)
                      | CtrlAsync \<Rightarrow> lr_new H Control sq (lrs_handler s)) (\<lambda>x.
               Ret (s\<lparr>lrs_handler := x, ctrl_inprogress := add_mset (sq_seqnum sq) (ctrl_inprogress s)\<rparr>))
           | Bulk \<Rightarrow> rbind (lr_new H Bulk sq (lrs_handler s)) (\<lambda>x.
               Ret (s\<lparr>lrs_handler := x, bulk_inprogress := add_mset (sq_seqnum sq) (bulk_inprogress s)\<rparr>))))"

definition lend_recv_step :: "vhci_ops \<Rightarrow> 'h lend_recv_handler \<Rightarrow> lend_recv_event \<Rightarrow> 'h lend_receiver \<Rightarrow>
    (recv_error option + 'h lend_receiver) run" where
  "lend_recv_step V H ev s =
     (case ev of
        LFramesClosed \<Rightarrow> Ret (Inl None)
      | LFrame (Inr (FUrb sq)) \<Rightarrow> rbind (lend_recv_urb V H sq s) (\<lambda>s'. Ret (Inr s'))
      | LFrame (Inr (FPortReset sn)) \<Rightarrow>
          rbind (lr_device_reset H sn (lrs_handler s)) (\<lambda>x.
            Ret (Inr (s\<lparr>lrs_handler := x, reset_inprogress := add_mset sn (reset_inprogress s)\<rparr>)))
      | LFrame (Inr (FUnlink sn)) \<Rightarrow> Ret (Inr (s\<lparr>lrs_handler := lr_cancel_urb H sn (lrs_handler s)\<rparr>))
      | LFrame (Inl err) \<Rightarrow> Ret (Inl (Some err))
      | LCompleted t \<Rightarrow>
          Ret (Inr ((case t of
              CReset _ \<Rightarrow> s\<lparr>reset_inprogress := reset_inprogress s - {#completed_seq t#}\<rparr>
            | CCtrl _ \<Rightarrow> s\<lparr>ctrl_inprogress := ctrl_inprogress s - {#completed_seq t#}\<rparr>
            | CInt _ \<Rightarrow> s\<lparr>int_inprogress := int_inprogress s - {#completed_seq t#}\<rparr>
            | CIso _ \<Rightarrow> s\<lparr>iso_inprogress := iso_inprogress s - {#completed_seq t#}\<rparr>
            | CBulk _ \<Rightarrow> s\<lparr>bulk_inprogress := bulk_inprogress s - {#completed_seq t#}\<rparr>)
            \<lparr>results := results s @ [t]\<rparr>)))"

text \<open>One item of the frame stream of \<^verbatim>\<open>RecvLoop::run\<close>: any parse error is corrupted data.\<close>

definition lend_next_frame :: "bool \<Rightarrow> nat \<Rightarrow> alloc \<Rightarrow> 'r reader \<Rightarrow> ring \<Rightarrow> 'r \<Rightarrow>
    (((recv_error + frame) \<times> ring \<times> 'r) option) run option" where
  "lend_next_frame chk iso_sz al rd buf rx =
     map_option (\<lambda>res. rbind res (\<lambda>(fr, buf', rx').
       case fr of
         Inr d \<Rightarrow> rbind (parse_frame iso_sz d) (\<lambda>p.
           Ret (Some (case p of Inr f \<Rightarrow> Inr f | Inl _ \<Rightarrow> Inl RecvCorruptedData, buf', rx')))
       | Inl None \<Rightarrow> Ret None
       | Inl (Some err) \<Rightarrow> Ret (Some (Inl err, buf', rx'))))
       (recv_frame chk al rd buf rx)"

fun lend_recv_result :: "recv_error option \<Rightarrow> lend_error + unit" where
  "lend_recv_result None = Inr ()"
| "lend_recv_result (Some err) = Inl (LRecv err)"

section \<open>The contract of a reply builder\<close>

locale lend_handler = flush_handler hinv buf "lh_is_buf_empty H" "lh_flush_buf H" framed
  for hinv :: "'h \<Rightarrow> bool" and buf :: "'h \<Rightarrow> bytes" and framed :: "bytes \<Rightarrow> bool"
    and H :: "'h lend_send_handler" +
  fixes ok :: "completed_transfer \<Rightarrow> bool"
  assumes event_appends: "hinv h \<Longrightarrow> ok t \<Longrightarrow> handle_event H t h = Ret (Inr (), h') \<Longrightarrow>
      hinv h' \<and> (\<exists>bs. framed bs \<and> buf h' = buf h @ bs)"
begin

lemma lend_step_inv:
  assumes inv: "sender_inv s" and rdy: "lend_ready s ev" and ok: "case ev of LendEv t \<Rightarrow> ok t | _ \<Rightarrow> True"
    and step: "lend_send_step H ev s = Ret (Inr s')"
  shows "sender_inv s'"
proof (cases ev)
  case (LendEv t)
  from step LendEv obtain r h' where rh: "handle_event H t (s_handler s) = Ret (r, h')"
    by (cases "handle_event H t (s_handler s)") (auto simp: lend_send_step_def)
  with step LendEv have r: "r = Inr ()" by (cases r) (auto simp: lend_send_step_def)
  have h: "hinv (s_handler s)" using inv by (simp add: sender_inv_def)
  from event_appends [OF h _ rh [unfolded r]] ok LendEv obtain bs where
    bs: "hinv h'" "buf h' = buf (s_handler s) @ bs" by auto
  show ?thesis
  proof (cases "s_state s = Solicit")
    case True
    with arm_inv [OF inv bs] step LendEv rh r show ?thesis by (simp add: lend_send_step_def)
  next
    case False
    then have "s' = s\<lparr>s_handler := h'\<rparr>"
      using step LendEv rh r by (cases "s_state s") (auto simp: lend_send_step_def)
    with append_inv [OF inv bs] False show ?thesis by simp
  qed
next
  case LFlushBuf
  with rdy flush_buf_inv [OF inv] step show ?thesis by (auto simp: lend_send_step_def)
next
  case (LFlushComplete x)
  with rdy step obtain tx bs where "flusher s = Some (tx, bs)" "x = Inr (tx @ bs)"
    by (auto simp: lend_send_step_def split: option.splits sum.splits)
  with flush_complete_inv [OF inv] LFlushComplete step show ?thesis
    by (auto simp: lend_send_step_def)
qed (use step in \<open>simp add: lend_send_step_def\<close>)

lemma lend_reach_inv:
  assumes "lend_send_reach H ok h0 s" and "hinv h0" and "buf h0 = []"
  shows "sender_inv s"
  using assms(1)
proof induction
  case start
  have "framed []" using buf_framed [OF assms(2)] assms(3) by simp
  with start_inv(1) [OF assms(2,3)] show ?case by simp
next
  case (step s ev s')
  then show ?case using lend_step_inv by blast
qed

text \<open>Without further results the loop writes out everything, in at most three rounds.\<close>

lemma lend_drains:
  assumes "sender_inv s"
  shows "\<exists>evs s'. length evs \<le> 3 \<and> set evs \<subseteq> lend_flush_events \<and> lend_send_run H evs s = Some s' \<and>
    s_state s' = Solicit \<and> tx_holder s' = Some (sender_out s)"
proof -
  obtain s1 s2 s3 where s: "flush_next (lh_is_buf_empty H) (lh_flush_buf H) s = Ret s1" "flush_next (lh_is_buf_empty H) (lh_flush_buf H) s1 = Ret s2"
    "flush_next (lh_is_buf_empty H) (lh_flush_buf H) s2 = Ret s3" "sender_inv s1" "sender_inv s2"
    "s_state s3 = Solicit" "tx_holder s3 = Some (sender_out s)"
    using flush_rounds [OF assms] by blast
  have round: "\<exists>evs. length evs \<le> 1 \<and> set evs \<subseteq> lend_flush_events \<and> lend_send_run H evs t = Some t'"
    if "sender_inv t" "flush_next (lh_is_buf_empty H) (lh_flush_buf H) t = Ret t'" for t t'
  proof (cases "s_state t")
    case Solicit
    with that show ?thesis by (intro exI [of _ "[]"]) (simp add: flush_next_def)
  next
    case Timer
    with that show ?thesis
      by (intro exI [of _ "[LFlushBuf]"]) (simp add: flush_next_def lend_send_step_def sender_inv_def lend_flush_events_def)
  next
    case Flush
    with that obtain tx bs where "flusher t = Some (tx, bs)" by (auto simp: sender_inv_def)
    with that Flush show ?thesis
      by (intro exI [of _ "[LFlushComplete (Inr (tx @ bs))]"]) (simp add: flush_next_def lend_send_step_def lend_flush_events_def)
  qed
  obtain e1 e2 e3 where "length e1 \<le> 1" "set e1 \<subseteq> lend_flush_events" "lend_send_run H e1 s = Some s1"
    "length e2 \<le> 1" "set e2 \<subseteq> lend_flush_events" "lend_send_run H e2 s1 = Some s2"
    "length e3 \<le> 1" "set e3 \<subseteq> lend_flush_events" "lend_send_run H e3 s2 = Some s3"
    using round [OF assms s(1)] round [OF s(4,2)] round [OF s(5,3)] by blast
  with s(6,7) show ?thesis
    by (intro exI [of _ "e1 @ e2 @ e3"] exI [of _ s3]) (simp add: lend_run_append)
qed

text \<open>When the loop stops, the writer holds whole messages unless a flush is under way.\<close>

lemma writer_at_end_framed:
  assumes "lend_send_reach H ok h0 s" and "hinv h0" and "buf h0 = []" and "s_state s \<noteq> Flush"
  shows "framed (writer_at_end k s)"
  using lend_reach_inv [OF assms(1-3)] assms(4)
  by (auto simp: sender_inv_def writer_at_end_def split: loop_state.splits)

end

section \<open>No request is lost\<close>

text \<open>The requests in progress and the requests whose results were passed on.\<close>

definition in_progress :: "'h lend_receiver \<Rightarrow> u32 multiset" where
  "in_progress s = reset_inprogress s + ctrl_inprogress s + int_inprogress s + iso_inprogress s +
     bulk_inprogress s"

definition answered :: "'h lend_receiver \<Rightarrow> u32 multiset" where
  "answered s = mset (map completed_seq (results s))"

fun requested :: "lend_recv_event \<Rightarrow> u32 multiset" where
  "requested (LFrame (Inr (FUrb sq))) = {#sq_seqnum sq#}"
| "requested (LFrame (Inr (FPortReset sn))) = {#sn#}"
| "requested _ = {#}"

lemma lend_recv_step_conserves:
  assumes "lend_recv_ready s ev" and "lend_recv_step V H ev s = Ret (Inr s')"
  shows "in_progress s' + answered s' = in_progress s + answered s + requested ev"
proof (cases ev)
  case (LFrame f)
  with assms(2) show ?thesis
    by (cases f) (auto simp: lend_recv_step_def lend_recv_urb_def rbind_eq_Ret in_progress_def
      answered_def split: frame.splits option.splits transfer_kind.splits)
next
  case (LCompleted t)
  have "M - {#a#} + {#a#} = M" if "a \<in># M" for a and M :: "u32 multiset" using that by simp
  with assms LCompleted show ?thesis
    by (cases t) (auto simp: lend_recv_step_def in_progress_def answered_def)
qed (use assms(2) in \<open>simp add: lend_recv_step_def\<close>)

end
