(* ===== verification/Lend_Operator.thy ===== *)
theory Lend_Operator
  imports Lend_Loop Wire
begin

text \<open>
  The lender's handlers of \<^verbatim>\<open>crates/qusb/src/operator.rs\<close>: \<^verbatim>\<open>LendRecvHandler\<close> prepares the
  transfers that libusb performs, \<^verbatim>\<open>LendSendHandler\<close> builds the replies. Both share the
  cancellation tokens of the active transfers. The outcome of a transfer (its status and the
  buffer that \<^verbatim>\<open>Transfer2::complete\<close> returns) is a parameter.
\<close>

section \<open>Outcomes of libusb\<close>

datatype libusb_status =
    LS_Completed | LS_Error | LS_TimedOut | LS_Cancelled | LS_Stall | LS_NoDevice | LS_Overflow

datatype rusb_error =
    RE_Io | RE_InvalidParam | RE_Access | RE_NoDevice | RE_NotFound | RE_Busy | RE_Timeout
  | RE_Overflow | RE_Pipe | RE_Interrupted | RE_NoMem | RE_NotSupported | RE_BadDescriptor | RE_Other

fun vhci_from_transfer_status :: "libusb_status \<Rightarrow> vhci_status" where
  "vhci_from_transfer_status LS_Completed = V_Success"
| "vhci_from_transfer_status LS_Error = V_Error"
| "vhci_from_transfer_status LS_TimedOut = V_TimedOut"
| "vhci_from_transfer_status LS_Cancelled = V_Canceled"
| "vhci_from_transfer_status LS_Stall = V_Stall"
| "vhci_from_transfer_status LS_NoDevice = V_DeviceDisconnected"
| "vhci_from_transfer_status LS_Overflow = V_Babble"

fun convert_libusb_to_proto :: "rusb_error + libusb_status \<Rightarrow> transfer_error + unit" where
  "convert_libusb_to_proto (Inr LS_Completed) = Inr ()"
| "convert_libusb_to_proto (Inr LS_Error) = Inl (Abortable Other)"
| "convert_libusb_to_proto (Inr LS_TimedOut) = Inl (Reportable TimedOut)"
| "convert_libusb_to_proto (Inr LS_Cancelled) = Inl (Reportable Cancelled)"
| "convert_libusb_to_proto (Inr LS_Stall) = Inl (Reportable Stall)"
| "convert_libusb_to_proto (Inr LS_NoDevice) = Inl (Abortable DeviceDisconnected)"
| "convert_libusb_to_proto (Inr LS_Overflow) = Inl (Reportable Overflow)"
| "convert_libusb_to_proto (Inl RE_Io) = Inl (Abortable AbortProto)"
| "convert_libusb_to_proto (Inl RE_InvalidParam) = Inl (Abortable AbortProto)"
| "convert_libusb_to_proto (Inl RE_NoDevice) = Inl (Abortable DeviceDisconnected)"
| "convert_libusb_to_proto (Inl RE_Timeout) = Inl (Reportable TimedOut)"
| "convert_libusb_to_proto (Inl RE_Overflow) = Inl (Reportable Overflow)"
| "convert_libusb_to_proto (Inl RE_Pipe) = Inl (Reportable Stall)"
| "convert_libusb_to_proto (Inl _) = Inl (Abortable Other)"

text \<open>\<^verbatim>\<open>port_reset\<close>: the status for the outcome of \<^verbatim>\<open>handle.reset()\<close>.\<close>

fun port_reset :: "rusb_error + unit \<Rightarrow> status" where
  "port_reset (Inr _) = Success"
| "port_reset (Inl _) = DevErr"

section \<open>Cancellation tokens\<close>

text \<open>
  A token is a number; \<open>next_token\<close> is the first that \<^verbatim>\<open>CancellationToken::new\<close> has not used.
\<close>

record tokens =
  active_transfers :: "u32 \<Rightarrow> nat option"
  cached_cancel_tokens :: "nat list"
  cancelled :: "nat set"
  next_token :: nat

definition no_tokens :: tokens where
  "no_tokens = \<lparr>active_transfers = Map.empty, cached_cancel_tokens = [], cancelled = {}, next_token = 0\<rparr>"

definition register_cancel_token :: "u32 \<Rightarrow> tokens \<Rightarrow> nat \<times> tokens" where
  "register_cancel_token sn t =
     (if cached_cancel_tokens t = [] then
        (next_token t, t\<lparr>active_transfers := (active_transfers t)(sn \<mapsto> next_token t),
           next_token := next_token t + 1\<rparr>)
      else let c = last (cached_cancel_tokens t)
           in (c, t\<lparr>active_transfers := (active_transfers t)(sn \<mapsto> c),
                cached_cancel_tokens := butlast (cached_cancel_tokens t)\<rparr>))"

definition lend_cancel_urb :: "u32 \<Rightarrow> tokens \<Rightarrow> tokens" where
  "lend_cancel_urb sn t =
     (case active_transfers t sn of
        Some c \<Rightarrow> t\<lparr>active_transfers := (active_transfers t)(sn := None), cancelled := insert c (cancelled t)\<rparr>
      | None \<Rightarrow> t)"

definition deregister_token :: "bool \<Rightarrow> u32 \<Rightarrow> tokens \<Rightarrow> tokens run" where
  "deregister_token chk sn t =
     (case active_transfers t sn of
        Some c \<Rightarrow>
          if chk \<and> c \<in> cancelled t then Panic
          else Ret (t\<lparr>active_transfers := (active_transfers t)(sn := None),
                 cached_cancel_tokens := cached_cancel_tokens t @ [c]\<rparr>)
      | None \<Rightarrow> Ret t)"

text \<open>\<^verbatim>\<open>Drop for LendRecvHandler\<close>: every active transfer is cancelled.\<close>

definition drop_cancel_all :: "tokens \<Rightarrow> tokens" where
  "drop_cancel_all t = t\<lparr>cancelled := cancelled t \<union> ran (active_transfers t)\<rparr>"

section \<open>Preparing transfers\<close>

definition SCRATCH_LEN :: nat where "SCRATCH_LEN = 65536"

text \<open>\<^verbatim>\<open>BytesAllocator::reserve\<close> gives \<open>n\<close> bytes of memory with arbitrary content.\<close>

definition scratch_reserve :: "(nat \<Rightarrow> u8) \<Rightarrow> nat \<Rightarrow> bytes run" where
  "scratch_reserve junk n = (if n \<le> SCRATCH_LEN then Ret (map junk [0 ..< n]) else Panic)"

definition urb_frame_header :: "data \<Rightarrow> urb_header run" where
  "urb_frame_header d =
     (case urb_header_from_bytes (take URB_HEADER_SIZE (d_bytes d)) of None \<Rightarrow> Undef | Some h \<Rightarrow> Ret h)"

definition urb_frame_data :: "data \<Rightarrow> bytes" where
  "urb_frame_data d = drop URB_HEADER_SIZE (d_bytes d)"

definition SETUP_SIZE :: nat where "SETUP_SIZE = 8"

text \<open>The buffer of a control transfer: the setup packet, then the data.\<close>

definition new_ctrl_buf :: "vhci_ops \<Rightarrow> (nat \<Rightarrow> u8) \<Rightarrow> data \<Rightarrow> bytes run" where
  "new_ctrl_buf V junk d =
     rbind (urb_frame_header d) (\<lambda>h.
     rbind (if is_out h then
              (let w_length = unat (setup_length V (ctrl_packet h));
                   buf = drop (URB_HEADER_SIZE - SETUP_SIZE) (d_bytes d)
               in rbind (assert_that (up8 (w_length + SETUP_SIZE) = length buf)) (\<lambda>_. Ret buf))
            else rbind (scratch_reserve junk (SETUP_SIZE + padded_transfer_len h)) (\<lambda>buf.
                   Ret (le64 (ctrl_packet h) @ drop SETUP_SIZE buf)))
       (\<lambda>buf. Ret (take (SETUP_SIZE + unat (actual_transfer_len h)) buf)))"

text \<open>The buffer of an interrupt or bulk transfer.\<close>

definition new_data_buf :: "(nat \<Rightarrow> u8) \<Rightarrow> data \<Rightarrow> bytes run" where
  "new_data_buf junk d =
     rbind (urb_frame_header d) (\<lambda>h.
     rbind (if is_out h then Ret (urb_frame_data d) else scratch_reserve junk (padded_transfer_len h))
       (\<lambda>buf. Ret (take (unat (actual_transfer_len h)) buf)))"

text \<open>The buffer and the raw packet descriptors of an isochronous transfer.\<close>

definition new_iso_bufs :: "nat \<Rightarrow> (nat \<Rightarrow> u8) \<Rightarrow> data \<Rightarrow> (bytes \<times> bytes) run" where
  "new_iso_bufs iso_sz junk d =
     rbind (urb_frame_header d) (\<lambda>h.
     let body = urb_frame_data d; n = padded_transfer_len h in
     rbind (if is_out h then
              (if n \<le> length body then Ret (take n body, drop n body) else Panic)
            else rbind (scratch_reserve junk n) (\<lambda>buf. Ret (buf, body)))
       (\<lambda>(buf, raw).
     rbind (assert_that (length raw = unat (iso_packet_count h) * iso_sz)) (\<lambda>_.
       Ret (take (unat (actual_transfer_len h)) buf, raw))))"

section \<open>Completed transfers\<close>

definition endpoint_dir :: "u8 \<Rightarrow> dir run" where
  "endpoint_dir e = dir_from_u8 e"

definition ctrl_done :: "vhci_ops \<Rightarrow> u32 \<Rightarrow> urb_header \<Rightarrow> libusb_status \<Rightarrow> bytes \<Rightarrow> xfer seq run" where
  "ctrl_done V sn h st buf =
     rbind (if SETUP_SIZE \<le> length buf then Ret (drop SETUP_SIZE buf) else Panic) (\<lambda>b.
     rbind (if setup_req V (ctrl_packet h) = STANDARD_DEVICE_GET_STATUS
            then (if b = [] then Panic else Ret (b[0 := 1])) else Ret b) (\<lambda>b'.
     rbind (endpoint_dir (endpoint h)) (\<lambda>dir.
       Ret \<lparr>sq_seqnum = sn, sq_data = \<lparr>x_res = result_data_new b' dir, x_endpoint = endpoint h,
         x_status = convert_libusb_to_proto (Inr st)\<rparr>\<rparr>)))"

definition bulk_done :: "u32 \<Rightarrow> urb_header \<Rightarrow> libusb_status \<Rightarrow> bytes \<Rightarrow> xfer seq run" where
  "bulk_done sn h st buf =
     rbind (endpoint_dir (endpoint h)) (\<lambda>dir.
       Ret \<lparr>sq_seqnum = sn, sq_data = \<lparr>x_res = result_data_new buf dir, x_endpoint = endpoint h,
         x_status = convert_libusb_to_proto (Inr st)\<rparr>\<rparr>)"

definition int_done :: "u32 \<Rightarrow> urb_header \<Rightarrow> libusb_status \<Rightarrow> bytes \<Rightarrow> int_xfer seq run" where
  "int_done sn h st buf =
     rbind (endpoint_dir (endpoint h)) (\<lambda>dir.
       Ret \<lparr>sq_seqnum = sn, sq_data = \<lparr>x_res = result_data_new buf dir, x_endpoint = endpoint h,
         x_status = convert_libusb_to_proto (Inr st), x_interval = interval h\<rparr>\<rparr>)"

text \<open>A blocking control request: \<^verbatim>\<open>set_config\<close>, \<^verbatim>\<open>set_interface\<close>, \<^verbatim>\<open>clear_stall\<close>.\<close>

definition blocking_done :: "u32 \<Rightarrow> transfer_error + unit \<Rightarrow> xfer seq" where
  "blocking_done sn st = \<lparr>sq_seqnum = sn, sq_data = \<lparr>x_res = ResOut 0, x_endpoint = dir_to_u8 Out,
     x_status = st\<rparr>\<rparr>"

definition lend_device_reset :: "u32 \<Rightarrow> (abortable_error + unit) seq" where
  "lend_device_reset sn = \<lparr>sq_seqnum = sn, sq_data = Inr ()\<rparr>"

section \<open>Building replies\<close>

record lend_send =
  ls_dev_id :: usb_device_id
  ls_buf :: bytes
  ls_tokens :: tokens

text \<open>The status of a reply, or the error that ends the session.\<close>

definition reply_status :: "usb_device_id \<Rightarrow> u32 \<Rightarrow> transfer_kind \<Rightarrow> u8 \<Rightarrow> transfer_error + unit \<Rightarrow>
    usb_error + transfer_status" where
  "reply_status dev sn k ep st =
     (case st of
        Inr _ \<Rightarrow> Inr TS_Success
      | Inl (Reportable err) \<Rightarrow> Inr (ts_from_reportable err)
      | Inl (Abortable err) \<Rightarrow>
          Inl \<lparr>ue_id = dev, ue_seq = \<lparr>sq_seqnum = sn, sq_data = SeqTransfer k ep err\<rparr>\<rparr>)"

text \<open>The frame of a reply: headers, data, padding, packet descriptors.\<close>

definition reply_bytes :: "u32 \<Rightarrow> transfer_kind \<Rightarrow> u8 \<Rightarrow> u16 \<Rightarrow> transfer_status \<Rightarrow> u16 \<Rightarrow> u16 \<Rightarrow>
    result_data \<Rightarrow> bytes \<Rightarrow> bytes run" where
  "reply_bytes sn k ep ival st n_pkts n_errs res raw_iso =
     rbind (as_header_data res) (\<lambda>d.
       let len = HEADER_SIZE + URB_HEADER_SIZE + length raw_iso + length (hd_transfer d) + length (hd_padding d);
           header = \<lparr>total_frame_len = compress_frame_len len, command = RetSubmit,
             hdr_status = Success, seqnum = sn\<rparr>;
           urb_header = \<lparr>actual_transfer_len = hd_actual_transfer_len d, iso_packet_count = n_pkts,
             endpoint = ep, kind = k, interval = ival, urb_status = st, uh_padding = (0, 0, 0),
             flags = 0, num_errors = n_errs, ctrl_packet = 0\<rparr>
       in Ret (header_as_bytes header @ urb_header_as_bytes urb_header @ hd_transfer d @ hd_padding d @ raw_iso))"

definition put_reply :: "bool \<Rightarrow> u32 \<Rightarrow> transfer_kind \<Rightarrow> u8 \<Rightarrow> u16 \<Rightarrow> transfer_error + unit \<Rightarrow> u16 \<Rightarrow> u16 \<Rightarrow>
    result_data \<Rightarrow> bytes \<Rightarrow> lend_send \<Rightarrow> ((usb_error + unit) \<times> lend_send) run" where
  "put_reply chk sn k ep ival st n_pkts n_errs res raw_iso h =
     rbind (deregister_token chk sn (ls_tokens h)) (\<lambda>t.
       let h1 = h\<lparr>ls_tokens := t\<rparr> in
       case reply_status (ls_dev_id h) sn k ep st of
         Inl err \<Rightarrow> Ret (Inl err, h1)
       | Inr ts \<Rightarrow> rbind (reply_bytes sn k ep ival ts n_pkts n_errs res raw_iso) (\<lambda>bs.
           Ret (Inr (), h1\<lparr>ls_buf := ls_buf h @ bs\<rparr>)))"

definition iso_completed :: "bool \<Rightarrow> iso_xfer seq \<Rightarrow> lend_send \<Rightarrow> ((usb_error + unit) \<times> lend_send) run" where
  "iso_completed chk sq =
     (let x = sq_data sq in put_reply chk (sq_seqnum sq) Isochronous (x_endpoint x) (x_interval x)
        (x_status x) (x_num_iso_packets x) (x_num_errors x) (x_res x) (x_raw_iso_buf x))"

definition int_completed :: "bool \<Rightarrow> int_xfer seq \<Rightarrow> lend_send \<Rightarrow> ((usb_error + unit) \<times> lend_send) run" where
  "int_completed chk sq =
     (let x = sq_data sq in put_reply chk (sq_seqnum sq) Interrupt (x_endpoint x) (x_interval x)
        (x_status x) 0 0 (x_res x) [])"

definition ctrl_completed :: "bool \<Rightarrow> xfer seq \<Rightarrow> lend_send \<Rightarrow> ((usb_error + unit) \<times> lend_send) run" where
  "ctrl_completed chk sq =
     (let x = sq_data sq in put_reply chk (sq_seqnum sq) Control (x_endpoint x) 0
        (x_status x) 0 0 (x_res x) [])"

definition bulk_completed :: "bool \<Rightarrow> xfer seq \<Rightarrow> lend_send \<Rightarrow> ((usb_error + unit) \<times> lend_send) run" where
  "bulk_completed chk sq =
     (let x = sq_data sq in put_reply chk (sq_seqnum sq) Bulk (x_endpoint x) 0
        (x_status x) 0 0 (x_res x) [])"

definition device_resetted :: "(abortable_error + unit) seq \<Rightarrow> lend_send \<Rightarrow>
    ((usb_error + unit) \<times> lend_send) run" where
  "device_resetted sq h =
     (case sq_data sq of
        Inr _ \<Rightarrow> Ret (Inr (), h\<lparr>ls_buf := ls_buf h @ le64 (header_as_u64_le
          \<lparr>total_frame_len = compress_frame_len HEADER_SIZE, command = RetPort, hdr_status = Success,
           seqnum = sq_seqnum sq\<rparr>)\<rparr>)
      | Inl _ \<Rightarrow> Ret (Inl \<lparr>ue_id = ls_dev_id h, ue_seq = \<lparr>sq_seqnum = sq_seqnum sq, sq_data = SeqReset\<rparr>\<rparr>, h))"

definition lend_is_buf_empty :: "lend_send \<Rightarrow> bool" where
  "lend_is_buf_empty h \<longleftrightarrow> ls_buf h = []"

definition lend_flush_buf :: "lend_send \<Rightarrow> bytes \<times> lend_send" where
  "lend_flush_buf h = (ls_buf h, h\<lparr>ls_buf := []\<rparr>)"

definition lend_send_handler_ops :: "bool \<Rightarrow> lend_send lend_send_handler" where
  "lend_send_handler_ops chk =
     \<lparr>lh_is_buf_empty = lend_is_buf_empty, lh_flush_buf = lend_flush_buf,
      lh_iso_completed = iso_completed chk, lh_int_completed = int_completed chk,
      lh_ctrl_completed = ctrl_completed chk, lh_bulk_completed = bulk_completed chk,
      lh_device_resetted = device_resetted\<rparr>"

section \<open>The result of a session\<close>

fun lend_result :: "lend_error + unit \<Rightarrow> lend_error + unit \<Rightarrow> (lend_error + unit) run" where
  "lend_result (Inr _) (Inr _) = Ret (Inr ())"
| "lend_result (Inr _) (Inl err) = Ret (Inl err)"
| "lend_result (Inl err) (Inr _) = Ret (Inl err)"
| "lend_result (Inl (LRecv _)) (Inl (LUsb err)) = Ret (Inl (LUsb err))"
| "lend_result (Inl (LRecv RecvCorruptedData)) (Inl (LSend _)) = Ret (Inl (LRecv RecvCorruptedData))"
| "lend_result (Inl (LRecv (Io _))) (Inl (LSend err)) = Ret (Inl (LSend err))"
| "lend_result (Inl (LSend _)) (Inl _) = Panic"
| "lend_result (Inl _) (Inl (LRecv _)) = Panic"
| "lend_result (Inl (LUsb _)) (Inl _) = Panic"

section \<open>Facts: tokens\<close>

text \<open>
  No two active transfers share a token, no cached token is in use, and a token that has been
  cancelled is neither active nor cached.
\<close>

definition tokens_ok :: "tokens \<Rightarrow> bool" where
  "tokens_ok t \<longleftrightarrow>
     (\<forall>a b c. active_transfers t a = Some c \<longrightarrow> active_transfers t b = Some c \<longrightarrow> a = b) \<and>
     distinct (cached_cancel_tokens t) \<and>
     (\<forall>a c. active_transfers t a = Some c \<longrightarrow> c \<notin> set (cached_cancel_tokens t) \<and> c \<notin> cancelled t \<and>
        c < next_token t) \<and>
     (\<forall>c \<in> set (cached_cancel_tokens t). c \<notin> cancelled t \<and> c < next_token t) \<and>
     (\<forall>c \<in> cancelled t. c < next_token t)"

lemma tokens_okD:
  assumes "tokens_ok t"
  shows "active_transfers t a = Some c \<Longrightarrow> active_transfers t b = Some c \<Longrightarrow> a = b"
    and "distinct (cached_cancel_tokens t)"
    and "active_transfers t a = Some c \<Longrightarrow> c \<notin> set (cached_cancel_tokens t)"
    and "active_transfers t a = Some c \<Longrightarrow> c \<notin> cancelled t"
    and "active_transfers t a = Some c \<Longrightarrow> c < next_token t"
    and "c \<in> set (cached_cancel_tokens t) \<Longrightarrow> c \<notin> cancelled t"
    and "c \<in> set (cached_cancel_tokens t) \<Longrightarrow> c < next_token t"
    and "c \<in> cancelled t \<Longrightarrow> c < next_token t"
  using assms unfolding tokens_ok_def by blast+

lemma no_tokens_ok: "tokens_ok no_tokens"
  by (simp add: tokens_ok_def no_tokens_def)

lemma register_ok:
  assumes "tokens_ok t"
  shows "tokens_ok (snd (register_cancel_token sn t))"
    and "fst (register_cancel_token sn t) \<notin> cancelled t"
    and "active_transfers t sn' \<noteq> Some (fst (register_cancel_token sn t))"
proof -
  note d = tokens_okD [OF assms]
  have fresh: "active_transfers t a \<noteq> Some (next_token t)" "next_token t \<notin> cancelled t"
    "next_token t \<notin> set (cached_cancel_tokens t)" for a
    using d(5,7,8) by blast+
  show "tokens_ok (snd (register_cancel_token sn t))"
  proof (cases "cached_cancel_tokens t" rule: rev_cases)
    case Nil
    then show ?thesis using d fresh
      by (auto simp: register_cancel_token_def tokens_ok_def intro: less_SucI split: if_splits)
  next
    case (snoc cs c)
    then have "active_transfers t a \<noteq> Some c" for a using d(3) by fastforce
    with snoc show ?thesis using d
      by (auto simp: register_cancel_token_def tokens_ok_def Let_def split: if_splits)
  qed
  show "fst (register_cancel_token sn t) \<notin> cancelled t"
    using d(6) fresh by (auto simp: register_cancel_token_def Let_def)
  show "active_transfers t sn' \<noteq> Some (fst (register_cancel_token sn t))"
    using d(3) [of sn'] fresh last_in_set [of "cached_cancel_tokens t"]
    by (auto simp: register_cancel_token_def Let_def)
qed

lemma lend_cancel_ok:
  assumes "tokens_ok t"
  shows "tokens_ok (lend_cancel_urb sn t)"
  using tokens_okD [OF assms] unfolding lend_cancel_urb_def
  by (auto simp: tokens_ok_def split: option.split if_splits)

lemma deregister_ok:
  assumes "tokens_ok t"
  shows "\<exists>t'. deregister_token chk sn t = Ret t' \<and> tokens_ok t' \<and> active_transfers t' = (active_transfers t)(sn := None) \<and>
    cancelled t' = cancelled t"
proof (cases "active_transfers t sn")
  case None
  then show ?thesis using assms by (auto simp: deregister_token_def)
next
  case (Some c)
  then show ?thesis using tokens_okD [OF assms]
    by (auto simp: deregister_token_def tokens_ok_def split: if_splits)
qed

text \<open>The operations on tokens, in any order.\<close>

datatype token_event = TRegister u32 | TCancel u32 | TComplete u32

fun token_step :: "bool \<Rightarrow> token_event \<Rightarrow> tokens \<Rightarrow> tokens run" where
  "token_step chk (TRegister sn) t = Ret (snd (register_cancel_token sn t))"
| "token_step chk (TCancel sn) t = Ret (lend_cancel_urb sn t)"
| "token_step chk (TComplete sn) t = deregister_token chk sn t"

fun token_run :: "bool \<Rightarrow> token_event list \<Rightarrow> tokens \<Rightarrow> tokens run" where
  "token_run chk [] t = Ret t"
| "token_run chk (e # es) t = rbind (token_step chk e t) (token_run chk es)"

lemma token_step_ok: "tokens_ok t \<Longrightarrow> \<exists>t'. token_step chk e t = Ret t' \<and> tokens_ok t'"
  using register_ok(1) lend_cancel_ok deregister_ok by (cases e) (auto, metis)

lemma token_run_ok: "tokens_ok t \<Longrightarrow> \<exists>t'. token_run chk es t = Ret t' \<and> tokens_ok t'"
proof (induction es arbitrary: t)
  case (Cons e es)
  from token_step_ok [OF Cons.prems, of chk e] Cons.IH show ?case by auto
qed simp

section \<open>Facts: replies\<close>

lemma as_header_data_eq:
  "length (res_get r) < 65536 \<Longrightarrow>
    as_header_data r = Ret \<lparr>hd_actual_transfer_len = of_nat (res_actual_transfer_len r), hd_transfer = res_get r,
      hd_padding = replicate (up8 (length (res_get r)) - length (res_get r)) 0\<rparr>"
  by (simp add: as_header_data_def padding_eq unat_of_nat take_bit_nat_eq_self)

definition reply_header :: "transfer_kind \<Rightarrow> u8 \<Rightarrow> u16 \<Rightarrow> transfer_status \<Rightarrow> u16 \<Rightarrow> u16 \<Rightarrow> result_data \<Rightarrow> urb_header" where
  "reply_header k ep ival st n_pkts n_errs res =
     \<lparr>actual_transfer_len = of_nat (res_actual_transfer_len res), iso_packet_count = n_pkts,
      endpoint = ep, kind = k, interval = ival, urb_status = st, uh_padding = (0, 0, 0),
      flags = 0, num_errors = n_errs, ctrl_packet = 0\<rparr>"

definition reply_body :: "result_data \<Rightarrow> bytes \<Rightarrow> bytes" where
  "reply_body res raw_iso = res_get res @ replicate (up8 (length (res_get res)) - length (res_get res)) 0 @ raw_iso"

text \<open>A result that fits into a frame.\<close>

definition reply_fits :: "result_data \<Rightarrow> bytes \<Rightarrow> bool" where
  "reply_fits res raw_iso \<longleftrightarrow> 32 + up8 (length (res_get res)) + length raw_iso < 65536 \<and> length raw_iso mod 8 = 0"

lemma length_reply_body: "length (reply_body res raw_iso) = up8 (length (res_get res)) + length raw_iso"
proof -
  have "length (res_get res) \<le> up8 (length (res_get res))" by simp
  then show ?thesis unfolding reply_body_def length_append length_replicate by linarith
qed

lemma reply_bytes_wire:
  assumes "reply_fits res raw_iso"
  shows "reply_bytes sn k ep ival st n_pkts n_errs res raw_iso =
      Ret (wire_bytes (MUrb RetSubmit sn (reply_header k ep ival st n_pkts n_errs res) (reply_body res raw_iso)))"
    and "wire_ok (MUrb RetSubmit sn (reply_header k ep ival st n_pkts n_errs res) (reply_body res raw_iso))"
proof -
  have n: "length (res_get res) < 65536"
    using assms up8_ge [of "length (res_get res)"] unfolding reply_fits_def by linarith
  have l: "HEADER_SIZE + URB_HEADER_SIZE + length raw_iso + length (res_get res) +
      length (replicate (up8 (length (res_get res)) - length (res_get res)) (0 :: u8)) = 32 + length (reply_body res raw_iso)"
    unfolding HEADER_SIZE_def URB_HEADER_SIZE_def reply_body_def length_append by linarith
  show "reply_bytes sn k ep ival st n_pkts n_errs res raw_iso =
      Ret (wire_bytes (MUrb RetSubmit sn (reply_header k ep ival st n_pkts n_errs res) (reply_body res raw_iso)))"
    unfolding reply_bytes_def as_header_data_eq [OF n] Let_def run.case rbind.simps header_data.select_convs l
    by (simp add: wire_bytes_def reply_header_def reply_body_def)
  show "wire_ok (MUrb RetSubmit sn (reply_header k ep ival st n_pkts n_errs res) (reply_body res raw_iso))"
    using assms by (simp add: length_reply_body reply_fits_def mod8_add)
qed

fun completed_ok :: "completed_transfer \<Rightarrow> bool" where
  "completed_ok (CReset _) = True"
| "completed_ok (CCtrl sq) = reply_fits (x_res (sq_data sq)) []"
| "completed_ok (CInt sq) = reply_fits (x_res (sq_data sq)) []"
| "completed_ok (CIso sq) = reply_fits (x_res (sq_data sq)) (x_raw_iso_buf (sq_data sq))"
| "completed_ok (CBulk sq) = reply_fits (x_res (sq_data sq)) []"

lemma put_reply_spec:
  assumes fits: "reply_fits res raw_iso" and ok: "tokens_ok (ls_tokens h)"
  shows "\<exists>r h'. put_reply chk sn k ep ival st n_pkts n_errs res raw_iso h = Ret (r, h') \<and>
    tokens_ok (ls_tokens h') \<and> active_transfers (ls_tokens h') = (active_transfers (ls_tokens h))(sn := None) \<and>
    (case reply_status (ls_dev_id h) sn k ep st of
       Inl err \<Rightarrow> r = Inl err \<and> ls_buf h' = ls_buf h
     | Inr ts \<Rightarrow> r = Inr () \<and> ls_buf h' = ls_buf h @ wire_bytes (MUrb RetSubmit sn
         (reply_header k ep ival ts n_pkts n_errs res) (reply_body res raw_iso)))"
proof -
  obtain t where "deregister_token chk sn (ls_tokens h) = Ret t" "tokens_ok t"
    "active_transfers t = (active_transfers (ls_tokens h))(sn := None)"
    using deregister_ok [OF ok] by blast
  then show ?thesis
    by (cases "reply_status (ls_dev_id h) sn k ep st") (simp_all add: put_reply_def reply_bytes_wire(1) [OF fits])
qed

lemma put_reply_appends:
  assumes "framed (ls_buf h)" and "reply_fits res raw_iso"
    and "put_reply chk sn k ep ival st n_pkts n_errs res raw_iso h = Ret (Inr (), h')"
  shows "framed (ls_buf h') \<and> (\<exists>bs. framed bs \<and> ls_buf h' = ls_buf h @ bs)"
proof -
  obtain ts where "ls_buf h' = ls_buf h @ wire_bytes (MUrb RetSubmit sn
      (reply_header k ep ival ts n_pkts n_errs res) (reply_body res raw_iso))"
    using assms(3) by (cases "reply_status (ls_dev_id h) sn k ep st")
      (auto simp: put_reply_def rbind_eq_Ret reply_bytes_wire(1) [OF assms(2)] Let_def)
  then show ?thesis
    using framed_wire [OF reply_bytes_wire(2) [OF assms(2)]] assms(1) framed_append by auto
qed

lemma lend_ops_sel [simp]:
  "lh_is_buf_empty (lend_send_handler_ops chk) = lend_is_buf_empty"
  "lh_flush_buf (lend_send_handler_ops chk) = lend_flush_buf"
  "lh_iso_completed (lend_send_handler_ops chk) = iso_completed chk"
  "lh_int_completed (lend_send_handler_ops chk) = int_completed chk"
  "lh_ctrl_completed (lend_send_handler_ops chk) = ctrl_completed chk"
  "lh_bulk_completed (lend_send_handler_ops chk) = bulk_completed chk"
  "lh_device_resetted (lend_send_handler_ops chk) = device_resetted"
  by (simp_all add: lend_send_handler_ops_def)

lemma device_resetted_eq:
  "device_resetted sq h = Ret (case sq_data sq of
     Inr _ \<Rightarrow> (Inr (), h\<lparr>ls_buf := ls_buf h @ wire_bytes (MShort RetPort (sq_seqnum sq))\<rparr>)
   | Inl _ \<Rightarrow> (Inl \<lparr>ue_id = ls_dev_id h, ue_seq = \<lparr>sq_seqnum = sq_seqnum sq, sq_data = SeqReset\<rparr>\<rparr>, h))"
  by (simp add: device_resetted_def le64_header_as_u64_le wire_bytes_def HEADER_SIZE_def split: sum.split)

interpretation lend_h: lend_handler "\<lambda>h. framed (ls_buf h)" ls_buf framed "lend_send_handler_ops chk" completed_ok
  for chk
proof unfold_locales
  fix h h' t
  assume h: "framed (ls_buf h)" and t: "completed_ok t"
    and res: "handle_event (lend_send_handler_ops chk) t h = Ret (Inr (), h')"
  show "framed (ls_buf h') \<and> (\<exists>bs. framed bs \<and> ls_buf h' = ls_buf h @ bs)"
  proof (cases t)
    case (CReset sq)
    have "wire_ok (MShort RetPort (sq_seqnum sq))" by simp
    from framed_wire [OF this] CReset res h show ?thesis
      by (auto simp: device_resetted_eq intro: framed_append split: sum.splits)
  qed (use put_reply_appends [OF h] t res in \<open>auto simp: ctrl_completed_def int_completed_def
    iso_completed_def bulk_completed_def Let_def\<close>)
qed (auto simp: lend_is_buf_empty_def lend_flush_buf_def intro: framed_append)
section \<open>Facts: the receive loop\<close>

text \<open>A run of the receive loop, with the events it has taken.\<close>

inductive lend_recv_reach :: "vhci_ops \<Rightarrow> 'h lend_recv_handler \<Rightarrow> 'h \<Rightarrow> lend_recv_event list \<Rightarrow>
    'h lend_receiver \<Rightarrow> bool" for V H h0 where
  start: "lend_recv_reach V H h0 [] \<lparr>lrs_handler = h0, reset_inprogress = {#}, ctrl_inprogress = {#},
     int_inprogress = {#}, iso_inprogress = {#}, bulk_inprogress = {#}, results = []\<rparr>"
| step: "lend_recv_reach V H h0 evs s \<Longrightarrow> lend_recv_ready s ev \<Longrightarrow>
    lend_recv_step V H ev s = Ret (Inr s') \<Longrightarrow> lend_recv_reach V H h0 (evs @ [ev]) s'"

section \<open>Properties of the lender\<close>

text \<open>C4. Whenever the writer is not lent to a flush, the bytes that the lender has sent are a
  sequence of whole, well-formed messages, and a borrower that receives them, in whatever pieces,
  parses exactly these messages in order.\<close>

theorem lender_sends_messages:
  assumes "lend_send_reach (lend_send_handler_ops chk) completed_ok
      \<lparr>ls_dev_id = dev, ls_buf = [], ls_tokens = t\<rparr> s"
    and "tx_holder s = Some tx"
    and "alloc_ok al" and "stream_reader rd strm" and "ring_ok r" and "r_buf r @ strm rx = tx"
  shows "\<exists>ms as. (\<forall>m \<in> set ms. wire_ok m) \<and> tx = concat (map wire_bytes ms) \<and> length as = length ms \<and>
    recv_parsed (Suc (length ms)) chk2 iso_sz al rd r rx = (map2 wire_frame as ms, True)"
proof -
  from lend_h.lend_reach_inv [OF assms(1)] assms(2) have "framed tx"
    by (auto simp: lend_h.sender_inv_def split: loop_state.splits)
  then obtain ms where ms: "\<forall>m \<in> set ms. wire_ok m" "tx = concat (map wire_bytes ms)"
    by (auto simp: framed_def)
  with recv_parsed_wire [OF assms(3-5) ms(1), of rx chk2 iso_sz] assms(6) show ?thesis by metis
qed

text \<open>C6. The lender, too, gets rid of everything that it has built, in three rounds of the timer and the
  writer at most, and what it has written then are whole messages.\<close>

theorem lender_drains:
  assumes "lend_send_reach (lend_send_handler_ops chk) completed_ok
      \<lparr>ls_dev_id = dev, ls_buf = [], ls_tokens = t\<rparr> s"
  shows "\<exists>evs s' ms. length evs \<le> 3 \<and> set evs \<subseteq> lend_flush_events \<and>
    lend_send_run (lend_send_handler_ops chk) evs s = Some s' \<and>
    s_state s' = Solicit \<and> tx_holder s' = Some (all_bytes ls_buf s) \<and>
    (\<forall>m \<in> set ms. wire_ok m) \<and> all_bytes ls_buf s = concat (map wire_bytes ms)"
proof -
  have inv: "lend_h.sender_inv s" by (rule lend_h.lend_reach_inv [OF assms]) simp_all
  from lend_h.out_framed [OF framed_Nil inv] obtain ms where
    "\<forall>m \<in> set ms. wire_ok m" "all_bytes ls_buf s = concat (map wire_bytes ms)" by (auto simp: framed_def)
  with lend_h.lend_drains [OF inv, of chk] show ?thesis by metis
qed

text \<open>C8. No request is lost or answered twice: at any time, the sequence numbers of the requests
  received are exactly those of the transfers in progress and of the results passed on.\<close>

theorem lend_recv_conserves:
  assumes "lend_recv_reach V H h0 evs s"
  shows "in_progress s + answered s = (\<Sum>ev \<leftarrow> evs. requested ev)"
  using assms
proof induction
  case start
  show ?case by (simp add: in_progress_def answered_def)
next
  case (step evs s ev s')
  from lend_recv_step_conserves [OF step.hyps(2,3)] step.IH show ?case by simp
qed

text \<open>C23. The cancellation tokens stay consistent in every sequence of registrations, cancellations
  and completions: no debug assertion fails, no two active transfers share a token, and a
  cancelled token is never in use again.\<close>

theorem tokens_never_clash:
  shows "\<exists>t. token_run chk es no_tokens = Ret t \<and> tokens_ok t \<and>
    fst (register_cancel_token sn t) \<notin> cancelled t \<and>
    (\<forall>sn'. active_transfers t sn' \<noteq> Some (fst (register_cancel_token sn t)))"
  using token_run_ok [OF no_tokens_ok, of chk es] register_ok(2,3) by metis

text \<open>When the receive loop ends it cancels every active transfer but leaves it registered. A
  result that was already on its way to the send loop then fails the debug assertion.\<close>

theorem result_after_shutdown_panics:
  assumes "token_run chk es no_tokens = Ret t" and "active_transfers t sn \<noteq> None"
  shows "deregister_token True sn (drop_cancel_all t) = Panic"
  using assms(2) by (auto simp: deregister_token_def drop_cancel_all_def ran_def)

text \<open>A control transfer without a result byte panics the lender if it was GET_STATUS: the handler
  overwrites the first byte of the result whatever its length, and the device may return none
  (a stall, a timeout, a cancelled transfer).\<close>

theorem get_status_empty_panics:
  assumes "setup_req V (ctrl_packet h) = STANDARD_DEVICE_GET_STATUS" and "length buf = SETUP_SIZE"
  shows "ctrl_done V sn h st buf = Panic"
  using assms by (simp add: ctrl_done_def)

text \<open>The reply of a finished transfer: on success or an error that the protocol can report, one
  message with the status, the data and the length of the result; otherwise the buffer is left
  as it was and the session ends with the error of this transfer. Either way the token of the
  transfer is released.\<close>

theorem put_reply_message:
  assumes "reply_fits res raw_iso" and "tokens_ok (ls_tokens h)"
  shows "\<exists>r h'. put_reply chk sn k ep ival st n_pkts n_errs res raw_iso h = Ret (r, h') \<and>
    tokens_ok (ls_tokens h') \<and> active_transfers (ls_tokens h') sn = None \<and>
    (case st of
       Inl (Abortable err) \<Rightarrow> r = Inl \<lparr>ue_id = ls_dev_id h,
         ue_seq = \<lparr>sq_seqnum = sn, sq_data = SeqTransfer k ep err\<rparr>\<rparr> \<and> ls_buf h' = ls_buf h
     | Inl (Reportable err) \<Rightarrow> r = Inr () \<and> ls_buf h' = ls_buf h @ wire_bytes (MUrb RetSubmit sn
         (reply_header k ep ival (ts_from_reportable err) n_pkts n_errs res) (reply_body res raw_iso))
     | Inr _ \<Rightarrow> r = Inr () \<and> ls_buf h' = ls_buf h @ wire_bytes (MUrb RetSubmit sn
         (reply_header k ep ival TS_Success n_pkts n_errs res) (reply_body res raw_iso)))"
proof -
  obtain r h' where p: "put_reply chk sn k ep ival st n_pkts n_errs res raw_iso h = Ret (r, h')"
    "tokens_ok (ls_tokens h')" "active_transfers (ls_tokens h') = (active_transfers (ls_tokens h))(sn := None)"
    and c: "case reply_status (ls_dev_id h) sn k ep st of
       Inl err \<Rightarrow> r = Inl err \<and> ls_buf h' = ls_buf h
     | Inr ts \<Rightarrow> r = Inr () \<and> ls_buf h' = ls_buf h @ wire_bytes (MUrb RetSubmit sn
         (reply_header k ep ival ts n_pkts n_errs res) (reply_body res raw_iso))"
    using put_reply_spec [OF assms, of chk sn k ep ival st n_pkts n_errs] by (elim exE conjE) (rule that)
  show ?thesis
    by (rule exI [of _ r], rule exI [of _ h'])
      (use c in \<open>auto simp: p reply_status_def split: sum.splits transfer_error.splits\<close>)
qed

section \<open>The properties at work\<close>

text \<open>A session in which one port reset is acknowledged: one message is built, flushed and written.\<close>

definition lend_send_new :: lend_send where
  "lend_send_new = \<lparr>ls_dev_id = \<lparr>bus_number = 1, device_addr = 2\<rparr>, ls_buf = [], ls_tokens = no_tokens\<rparr>"

lemma example_ack: "wire_bytes (MShort RetPort 7) = [1, 0, 4, 0, 7, 0, 0, 0]"
  by (simp add: wire_bytes_def header_as_bytes_def le16_def le32_def)

text \<open>The message waits for the timer.\<close>

definition example_lend_waiting :: "lend_send sender" where
  "example_lend_waiting = \<lparr>s_state = Timer, tx_holder = Some [], sleeper = True, flusher = None,
    s_handler = lend_send_new\<lparr>ls_buf := [1, 0, 4, 0, 7, 0, 0, 0]\<rparr>\<rparr>"

lemma example_lend_waiting_reach:
  "lend_send_reach (lend_send_handler_ops True) completed_ok
     \<lparr>ls_dev_id = \<lparr>bus_number = 1, device_addr = 2\<rparr>, ls_buf = [], ls_tokens = no_tokens\<rparr> example_lend_waiting"
  by (rule lend_send_reach.step [OF lend_send_reach.start, where ev = "LendEv (CReset (lend_device_reset 7))"])
    (simp_all add: lend_send_step_def device_resetted_eq lend_device_reset_def start_sender_def
      example_ack lend_send_new_def example_lend_waiting_def)

lemma example_lend_reach:
  "lend_send_reach (lend_send_handler_ops True) completed_ok \<lparr>ls_dev_id = \<lparr>bus_number = 1, device_addr = 2\<rparr>, ls_buf = [], ls_tokens = no_tokens\<rparr>
     \<lparr>s_state = Solicit, tx_holder = Some [1, 0, 4, 0, 7, 0, 0, 0], sleeper = False, flusher = None,
      s_handler = lend_send_new\<rparr>"
proof -
  let ?m = "[1, 0, 4, 0, 7, 0, 0, 0] :: bytes"
  have "lend_send_reach (lend_send_handler_ops True) completed_ok
    \<lparr>ls_dev_id = \<lparr>bus_number = 1, device_addr = 2\<rparr>, ls_buf = [], ls_tokens = no_tokens\<rparr>
    \<lparr>s_state = Flush, tx_holder = None, sleeper = False, flusher = Some ([], ?m), s_handler = lend_send_new\<rparr>"
    by (rule lend_send_reach.step [OF example_lend_waiting_reach, where ev = LFlushBuf])
      (simp_all add: lend_send_step_def on_flush_buf_def lend_flush_buf_def lend_send_new_def example_lend_waiting_def)
  then show ?thesis
    by (rule lend_send_reach.step [where ev = "LFlushComplete (Inr ?m)"])
      (simp_all add: lend_send_step_def on_flush_complete_def lend_is_buf_empty_def lend_send_new_def)
qed

theorem lender_drains_witness:
  "\<exists>evs s'. set evs \<subseteq> lend_flush_events \<and> lend_send_run (lend_send_handler_ops True) evs example_lend_waiting = Some s' \<and>
    tx_holder s' = Some [1, 0, 4, 0, 7, 0, 0, 0]"
  using lender_drains [OF example_lend_waiting_reach]
  by (auto simp: example_lend_waiting_def all_bytes_def)

theorem lender_sends_messages_witness:
  "\<exists>ms as. (\<forall>m \<in> set ms. wire_ok m) \<and> [1, 0, 4, 0, 7, 0, 0, 0] = concat (map wire_bytes ms) \<and>
     length as = length ms \<and>
     recv_parsed (Suc (length ms)) True 8 exact_alloc (chunk_reader 3) (ring_with_capacity 0 0)
       [1, 0, 4, 0, 7, 0, 0, 0] = (map2 wire_frame as ms, True)"
  by (rule lender_sends_messages [OF example_lend_reach, of _ exact_alloc "chunk_reader 3" id]) simp_all

definition example_recv_ops :: "unit lend_recv_handler" where
  "example_recv_ops = \<lparr>lr_cancel_urb = (\<lambda>_ h. h), lr_device_reset = (\<lambda>_. Ret), lr_blocking = (\<lambda>_. Ret),
     lr_new = (\<lambda>_ _. Ret)\<rparr>"

definition example_lender :: "u32 multiset \<Rightarrow> completed_transfer list \<Rightarrow> unit lend_receiver" where
  "example_lender m res = \<lparr>lrs_handler = (), reset_inprogress = m, ctrl_inprogress = {#},
     int_inprogress = {#}, iso_inprogress = {#}, bulk_inprogress = {#}, results = res\<rparr>"

lemma example_lender_reach:
  "lend_recv_reach V example_recv_ops () [LFrame (Inr (FPortReset 7)), LCompleted (CReset (lend_device_reset 7))]
     (example_lender {#} [CReset (lend_device_reset 7)])"
proof -
  have "lend_recv_reach V example_recv_ops () ([] @ [LFrame (Inr (FPortReset 7))]) (example_lender {#7#} [])"
    by (rule lend_recv_reach.step [OF lend_recv_reach.start])
      (simp_all add: lend_recv_step_def example_recv_ops_def example_lender_def)
  then have "lend_recv_reach V example_recv_ops ()
      (([] @ [LFrame (Inr (FPortReset 7))]) @ [LCompleted (CReset (lend_device_reset 7))])
      (example_lender {#} [CReset (lend_device_reset 7)])"
    by (rule lend_recv_reach.step) (simp_all add: lend_recv_step_def example_lender_def lend_device_reset_def)
  then show ?thesis by simp
qed

theorem lend_recv_conserves_witness:
  "answered (example_lender {#} [CReset (lend_device_reset 7)]) = {#7#}"
  using lend_recv_conserves [OF example_lender_reach] by (simp add: in_progress_def example_lender_def)

theorem result_after_shutdown_panics_witness:
  "\<exists>t. token_run True [TRegister 5, TRegister 6, TComplete 5] no_tokens = Ret t \<and>
     deregister_token True 6 (drop_cancel_all t) = Panic"
proof -
  obtain t where t: "token_run True [TRegister 5, TRegister 6, TComplete 5] no_tokens = Ret t"
    "active_transfers t 6 \<noteq> None"
    by (simp add: no_tokens_def register_cancel_token_def deregister_token_def Let_def)
  with result_after_shutdown_panics [OF t] show ?thesis by blast
qed

theorem get_status_empty_panics_witness:
  "ctrl_done \<lparr>setup_req = (\<lambda>_. STANDARD_DEVICE_GET_STATUS), setup_value = ucast, setup_index = ucast,
     setup_length = ucast, is_for_unassigned = (\<lambda>_. False), is_anycast = (\<lambda>_. False), address_new = Some\<rparr>
     3 (reply_header Control 0x80 0 TS_Pending 0 0 (ResOut 0)) LS_Stall (replicate 8 0) = Panic"
  by (rule get_status_empty_panics) (simp_all add: SETUP_SIZE_def)

theorem put_reply_message_witness:
  "\<exists>r h'. put_reply True 3 Bulk 0x81 0 (Inl (Reportable Stall)) 0 0 (ResIn [1, 2, 3]) [] lend_send_new = Ret (r, h') \<and>
     r = Inr () \<and> ls_buf h' = wire_bytes (MUrb RetSubmit 3
       (reply_header Bulk 0x81 0 TS_Stall 0 0 (ResIn [1, 2, 3])) (reply_body (ResIn [1, 2, 3]) []))"
  using put_reply_message [of "ResIn [1, 2, 3]" "[]" lend_send_new True 3 Bulk "0x81" 0 "Inl (Reportable Stall)" 0 0]
  by (simp add: reply_fits_def up8_def lend_send_new_def no_tokens_ok) blast

end
