(* ===== verification/End_To_End.thy ===== *)
theory End_To_End
  imports Borrow_Operator Lend_Operator
begin

text \<open>
  Both sides together: a request built by \<^verbatim>\<open>BorrowSendHandler\<close> reaches the buffers that
  \<^verbatim>\<open>LendRecvHandler\<close> prepares, a reply built by \<^verbatim>\<open>LendSendHandler\<close> reaches the giveback of
  \<^verbatim>\<open>BorrowRecvHandler\<close>, and what becomes of the lender's errors.
\<close>

section \<open>Replies reach the driver\<close>

lemma reply_given_back:
  assumes fits: "reply_fits (result_data_new buf dir) raw_iso"
    and dir: "dir = (if bit ep 7 then In else Out)"
    and known: "handles l sn = Some hnd" "seqnums l hnd = Some sn"
  shows "\<exists>g l'. urb_reply \<lparr>sq_seqnum = sn, sq_data = \<lparr>d_addr = a, d_bytes =
        urb_header_as_bytes (reply_header k ep ival st n_pkts n_errs (result_data_new buf dir)) @
        reply_body (result_data_new buf dir) raw_iso\<rparr>\<rparr> l = Ret (g, l') \<and>
    g = \<lparr>gb_handle = hnd, gb_kind = urb_type_from_kind k, gb_status = vhci_from_ts st,
      gb_data = (case dir of In \<Rightarrow> GivebackIn buf | Out \<Rightarrow> GivebackOut (of_nat (length buf))),
      gb_iso_packets = raw_iso\<rparr> \<and>
    handles l' = (handles l)(sn := None) \<and> seqnums l' = (seqnums l)(hnd := None)"
proof -
  let ?res = "result_data_new buf dir"
  let ?h = "reply_header k ep ival st n_pkts n_errs ?res"
  have out: "is_out ?h \<longleftrightarrow> dir = Out" using dir by (simp add: is_out_eq reply_header_def)
  have pad: "padded_transfer_len ?h = up8 (length buf) \<and> unat (actual_transfer_len ?h) = length buf" if "dir = In"
  proof -
    have "length buf < 65536"
      using fits up8_ge [of "length buf"] that unfolding reply_fits_def by (simp del: up8_ge)
    then show ?thesis using that
      by (simp add: padded_transfer_len_eq reply_header_def unat_of_nat take_bit_nat_eq_self)
  qed
  have body: "reply_body ?res raw_iso = (case dir of In \<Rightarrow> buf @ replicate (up8 (length buf) - length buf) 0 @ raw_iso
      | Out \<Rightarrow> raw_iso)"
    by (cases dir) (simp_all add: reply_body_def)
  have len: "is_out ?h \<or> padded_transfer_len ?h \<le> length (reply_body ?res raw_iso)"
    unfolding body using pad out by (cases dir) simp_all
  have eq: "(if is_out ?h then GivebackOut (actual_transfer_len ?h)
         else GivebackIn (take (unat (actual_transfer_len ?h)) (take (padded_transfer_len ?h) (reply_body ?res raw_iso)))) =
      (case dir of In \<Rightarrow> GivebackIn buf | Out \<Rightarrow> GivebackOut (of_nat (length buf)))"
    "(if is_out ?h then reply_body ?res raw_iso else drop (padded_transfer_len ?h) (reply_body ?res raw_iso)) = raw_iso"
    unfolding body using pad out by (cases dir; simp add: reply_header_def min_absorb1)+
  have "kind ?h = k" "urb_status ?h = st" by (simp_all add: reply_header_def)
  then show ?thesis
    unfolding urb_reply_eq [OF known len] eq by simp
qed

text \<open>C2. What a device returns is what the driver gets: the reply of a finished transfer, received by
  the borrower in whatever pieces, completes the request with that sequence number, with the
  device's data (or, for an outgoing transfer, their length), status and packet descriptors.\<close>

theorem reply_round_trip:
  assumes "reply_bytes sn k ep ival st n_pkts n_errs (result_data_new buf dir) raw_iso = Ret bs"
    and "reply_fits (result_data_new buf dir) raw_iso" and "dir_from_u8 ep = Ret dir"
    and "handles l sn = Some hnd" and "seqnums l hnd = Some sn"
    and "alloc_ok al" and "stream_reader rd strm" and "ring_ok r" and "r_buf r @ strm rx = bs @ rest"
  shows "\<exists>d sq r' rx' g l'. recv_frame chk al rd r rx = Some (Ret (Inr d, r', rx')) \<and>
    r_buf r' @ strm rx' = rest \<and> parse_frame iso_sz d = Ret (Inr (FUrb sq)) \<and>
    urb_reply sq l = Ret (g, l') \<and>
    g = \<lparr>gb_handle = hnd, gb_kind = urb_type_from_kind k, gb_status = vhci_from_ts st,
      gb_data = (case dir of In \<Rightarrow> GivebackIn buf | Out \<Rightarrow> GivebackOut (of_nat (length buf))),
      gb_iso_packets = raw_iso\<rparr> \<and> handles l' = (handles l)(sn := None)"
proof -
  let ?m = "MUrb RetSubmit sn (reply_header k ep ival st n_pkts n_errs (result_data_new buf dir))
    (reply_body (result_data_new buf dir) raw_iso)"
  note w = reply_bytes_wire [OF assms(2), of sn k ep ival st n_pkts n_errs]
  have dir: "dir = (if bit ep 7 then In else Out)" using assms(3) by (simp add: dir_from_u8_eq)
  from w(1) assms(1,9) have "r_buf r @ strm rx = wire_bytes ?m @ rest" by simp
  from recv_wire [OF assms(6-8) w(2) this, of chk] obtain a r' rx' where
    f: "recv_frame chk al rd r rx = Some (Ret (Inr \<lparr>d_addr = a, d_bytes = wire_bytes ?m\<rparr>, r', rx'))"
    "a mod 8 = 0" "r_buf r' @ strm rx' = rest"
    by (elim exE conjE) (rule that)
  from f parse_wire [OF w(2) f(2), of iso_sz] reply_given_back [OF assms(2) dir assms(4,5), of "a + 8" k ival st n_pkts n_errs]
  show ?thesis by auto
qed

section \<open>Requests reach the device\<close>

lemma fetch_section_data:
  assumes env: "borrow_env iso_sz iso_align al fetch" and fits: "urb_fits iso_sz urb"
    and a: "a mod 8 = 0" and out: "\<not> bit (iu_endpoint urb) 7"
    and fetched: "\<forall>b i. length b = iu_buffer_length urb \<and> length i = iu_packet_count urb * iso_sz \<longrightarrow>
      fetch hnd (urb_request_header urb) b i = Inr (t, pkts)"
  shows "length t = iu_buffer_length urb \<and> length pkts = iu_packet_count urb * iso_sz \<and>
    (\<exists>pad. length pad = up8 (length t) - length t \<and>
      fetch_section iso_sz iso_align junk fetch urb hnd (urb_request_header urb) a = Ret (Inr (t @ pad @ pkts)))"
proof -
  let ?h = "urb_request_header urb" and ?n = "iu_buffer_length urb"
  note lens = request_header_lens [OF fits]
  have l: "length t = ?n \<and> length pkts = iu_packet_count urb * iso_sz"
    using borrow_envD(2) [OF env fetched [rule_format], of "replicate ?n 0" "replicate (iu_packet_count urb * iso_sz) 0"]
    by simp
  have out1: "is_out ?h" using out lens(3) by simp
  have "(a + up8 ?n) mod 8 = 0" by (rule mod8_add [OF a up8_mod])
  then have "8 dvd a + up8 ?n" by presburger
  with borrow_envD(4) [OF env] have "iso_align dvd a + up8 ?n" by (rule dvd_trans)
  then have al: "(a + up8 ?n) mod iso_align = 0" by simp
  let ?data = "map junk [a ..< a + up8 ?n + iu_packet_count urb * iso_sz]"
  let ?pad = "drop ?n (take (up8 ?n) ?data)"
  have f: "fetch hnd ?h (take ?n (take (up8 ?n) ?data)) (drop (up8 ?n) ?data) = Inr (t, pkts)"
    by (rule fetched [rule_format]) (simp add: min_absorb1 min_absorb2 trans_le_add1)
  have "fetch_section iso_sz iso_align junk fetch urb hnd ?h a =
      (if 0 < ?n \<and> is_out ?h \<or> 0 < iu_packet_count urb then Ret (Inr (t @ ?pad @ pkts)) else Ret (Inr ?data))"
    using f out1 unfolding fetch_section_def Let_def lens
    by (simp add: al not_less if_not_P min_absorb1 del: take_map drop_map take_upt drop_upt)
  also have "\<dots> = Ret (Inr (t @ ?pad @ pkts))"
    using out1 l by auto
  finally show ?thesis using l by (intro conjI exI [of _ ?pad]) simp_all
qed

text \<open>The buffers that the lender prepares from a request message.\<close>

lemma urb_frame_header_eq [simp]:
  "urb_frame_header \<lparr>d_addr = a, d_bytes = urb_header_as_bytes h @ body\<rparr> = Ret h"
  using urb_header_layout.dec_prefix [of h body] by (simp only: urb_frame_header_def data.select_convs option.case)

lemma urb_frame_data_eq [simp]:
  "urb_frame_data \<lparr>d_addr = a, d_bytes = urb_header_as_bytes h @ body\<rparr> = body"
  by (simp add: urb_frame_data_def URB_HEADER_SIZE_def)

lemma drop_16_urb_header: "drop 16 (urb_header_as_bytes h) = le64 (ctrl_packet h)"
  by (simp add: urb_header_as_bytes_def le16_def split: prod.split)

lemma lender_buffers:
  assumes fits: "urb_fits iso_sz urb" and out: "\<not> bit (iu_endpoint urb) 7"
    and t: "length t = iu_buffer_length urb" and pkts: "length pkts = iu_packet_count urb * iso_sz"
    and pad: "length pad = up8 (length t) - length t"
    and d: "d = \<lparr>d_addr = a, d_bytes = urb_header_as_bytes (urb_request_header urb) @ t @ pad @ pkts\<rparr>"
  shows "new_data_buf junk d = Ret t" and "new_iso_bufs iso_sz junk d = Ret (t, pkts)"
    and "iu_packet_count urb = 0 \<Longrightarrow> unat (setup_length V (iu_setup_packet urb)) = iu_buffer_length urb \<Longrightarrow>
      new_ctrl_buf V junk d = Ret (le64 (iu_setup_packet urb) @ t)"
proof -
  let ?h = "urb_request_header urb"
  note lens = request_header_lens [OF fits]
  have h: "is_out ?h" "unat (actual_transfer_len ?h) = length t" "ctrl_packet ?h = iu_setup_packet urb"
    "unat (iso_packet_count ?h) = iu_packet_count urb" "padded_transfer_len ?h = up8 (length t)"
    using lens out fits t by (simp_all add: urb_request_header_def unat_of_nat_u16 urb_fits_def)
  have p: "length (t @ pad) = up8 (length t)" using pad up8_ge [of "length t"] by (simp del: up8_ge)
  then have s: "take (up8 (length t)) (t @ pad @ pkts) = t @ pad" "drop (up8 (length t)) (t @ pad @ pkts) = pkts"
    by (metis append.assoc append_eq_conv_conj)+
  show "new_data_buf junk d = Ret t" by (simp add: d new_data_buf_def h)
  show "new_iso_bufs iso_sz junk d = Ret (t, pkts)"
    using p by (simp add: d new_iso_bufs_def h Let_def s pkts assert_that_def)
  assume c: "iu_packet_count urb = 0" "unat (setup_length V (iu_setup_packet urb)) = iu_buffer_length urb"
  have "up8 (length t + 8) = up8 (length t) + 8" unfolding up8_def by presburger
  with c t pkts p show "new_ctrl_buf V junk d = Ret (le64 (iu_setup_packet urb) @ t)"
    by (simp add: d new_ctrl_buf_def h Let_def URB_HEADER_SIZE_def SETUP_SIZE_def drop_16_urb_header assert_that_def)
qed

text \<open>C1. What the driver sends is what the device gets: the message of an outgoing request, received
  by the lender in whatever pieces, is parsed under the sequence number it was given, and the
  buffer prepared for the device holds exactly the bytes of the driver: the data for a bulk or
  interrupt transfer, the data and the packet descriptors for an isochronous one, the setup
  packet followed by the data for a control transfer.\<close>

theorem request_round_trip:
  assumes "borrow_send_inv iso_sz iso_align al fetch b" and "urb_fits iso_sz urb"
    and "chk \<longrightarrow> dev_addr b = iu_address urb" and "chk \<longrightarrow> cur_seq b \<noteq> -1"
    and "\<not> bit (iu_endpoint urb) 7"
    and "\<forall>buf iso. length buf = iu_buffer_length urb \<and> length iso = iu_packet_count urb * iso_sz \<longrightarrow>
      fetch hnd (urb_request_header urb) buf iso = Inr (t, pkts)"
    and "alloc_ok al2" and "stream_reader rd strm"
  shows "\<exists>b' bs. process_urb chk iso_sz iso_align al junk fetch urb hnd b = Ret (Inr (), b') \<and>
    bs_buf b' = bs_buf b @ bs \<and>
    (\<forall>r rx rest. ring_ok r \<and> r_buf r @ strm rx = bs @ rest \<longrightarrow>
      (\<exists>d sq r' rx'. recv_frame chk2 al2 rd r rx = Some (Ret (Inr d, r', rx')) \<and>
        parse_frame iso_sz d = Ret (Inr (FUrb sq)) \<and> sq_seqnum sq = cur_seq b \<and>
        new_data_buf junk2 (sq_data sq) = Ret t \<and> new_iso_bufs iso_sz junk2 (sq_data sq) = Ret (t, pkts) \<and>
        (iu_packet_count urb = 0 \<and> unat (setup_length V (iu_setup_packet urb)) = iu_buffer_length urb \<longrightarrow>
          new_ctrl_buf V junk2 (sq_data sq) = Ret (le64 (iu_setup_packet urb) @ t)) \<and>
        r_buf r' @ strm rx' = rest))"
proof -
  have env: "borrow_env iso_sz iso_align al fetch" using assms(1) by (simp add: borrow_send_inv_def)
  obtain a x b' where a: "a mod 8 = 0"
    and x: "fetch_section iso_sz iso_align junk fetch urb hnd (urb_request_header urb) a = Ret x"
    and p: "process_urb chk iso_sz iso_align al junk fetch urb hnd b = Ret (map_sum id (\<lambda>_. ()) x, b')"
    and m: "\<forall>data. x = Inr data \<longrightarrow> borrow_send_inv iso_sz iso_align al fetch b' \<and>
      length data = urb_data_size iso_sz urb \<and>
      bs_buf b' = bs_buf b @ wire_bytes (MUrb CmdSubmit (cur_seq b) (urb_request_header urb) data) \<and>
      wire_ok (MUrb CmdSubmit (cur_seq b) (urb_request_header urb) data)"
    using process_urb_spec [OF assms(1-4), of junk hnd] by (elim exE conjE) (rule that)
  from fetch_section_data [OF env assms(2) a assms(5,6), of junk] x obtain pad where
    t: "length t = iu_buffer_length urb" "length pkts = iu_packet_count urb * iso_sz"
      "length pad = up8 (length t) - length t" "x = Inr (t @ pad @ pkts)" by auto
  let ?m = "MUrb CmdSubmit (cur_seq b) (urb_request_header urb) (t @ pad @ pkts)"
  from m t(4) have ok: "wire_ok ?m" "bs_buf b' = bs_buf b @ wire_bytes ?m" by blast+
  have "\<exists>d sq r' rx'. recv_frame chk2 al2 rd r rx = Some (Ret (Inr d, r', rx')) \<and>
        parse_frame iso_sz d = Ret (Inr (FUrb sq)) \<and> sq_seqnum sq = cur_seq b \<and>
        new_data_buf junk2 (sq_data sq) = Ret t \<and> new_iso_bufs iso_sz junk2 (sq_data sq) = Ret (t, pkts) \<and>
        (iu_packet_count urb = 0 \<and> unat (setup_length V (iu_setup_packet urb)) = iu_buffer_length urb \<longrightarrow>
          new_ctrl_buf V junk2 (sq_data sq) = Ret (le64 (iu_setup_packet urb) @ t)) \<and>
        r_buf r' @ strm rx' = rest"
    if "ring_ok r" "r_buf r @ strm rx = wire_bytes ?m @ rest" for r rx rest
  proof -
    from recv_wire [OF assms(7,8) that(1) ok(1) that(2), of chk2] obtain a' r' rx' where
      f: "recv_frame chk2 al2 rd r rx = Some (Ret (Inr \<lparr>d_addr = a', d_bytes = wire_bytes ?m\<rparr>, r', rx'))"
      "a' mod 8 = 0" "r_buf r' @ strm rx' = rest"
      by (elim exE conjE) (rule that)
    note bufs = lender_buffers [OF assms(2,5) t(1-3) refl, where a = "a' + 8"]
    show ?thesis
      by (rule exI, rule exI, rule exI, rule exI, intro conjI impI, rule f(1),
          rule parse_wire [OF ok(1) f(2), unfolded wire_frame.simps])
        (use f(3) bufs in \<open>simp_all\<close>)
  qed
  with p t(4) ok(2) show ?thesis by auto
qed

section \<open>Errors of the lender\<close>

text \<open>How the borrower reads the header with which the lender ends a session: data the lender
  could not parse, a device that went away and a protocol error arrive as errors, but the
  statuses of the other two errors panic the borrower.\<close>

theorem lend_error_told:
  assumes "alloc_ok al" and "stream_reader rd strm" and "ring_ok r"
    and "r_buf r @ strm rx = le64 (header_as_u64_le (as_header e)) @ rest"
  shows "\<exists>d r' rx'. recv_frame chk al rd r rx = Some (Ret (Inr d, r', rx')) \<and>
    parse_frame iso_sz d = (case sq_data (ue_seq e) of
        SeqReset \<Rightarrow> Ret (Inl DeviceDisconnected)
      | SeqTransfer k ep err \<Rightarrow> (case err of
          InvalidData \<Rightarrow> Ret (Inl Oops)
        | DeviceDisconnected \<Rightarrow> Ret (Inl DeviceDisconnected)
        | AbortProto \<Rightarrow> Ret (Inl AbortProto)
        | Oops \<Rightarrow> Panic
        | Other \<Rightarrow> Panic))"
proof -
  let ?h = "as_header e"
  have fr: "frame_ok ?h []" by (simp add: frame_ok_def as_header_def HEADER_SIZE_def)
  from recv_frame_delivers_aux [OF assms(1-3) fr, of rx rest chk] assms(4) obtain a r' rx' where
    f: "recv_frame chk al rd r rx = Some (Ret (Inr \<lparr>d_addr = a, d_bytes = header_as_bytes ?h @ []\<rparr>, r', rx'))"
    "a mod 8 = 0"
    by (auto simp: le64_header_as_u64_le)
  have h: "header_from_bytes (take 8 (header_as_bytes ?h)) = Some ?h"
    using header_layout.dec_prefix [of ?h "[]"] by (simp add: HEADER_SIZE_def)
  have t: "try_ref_from_bytes qusb_frame a (header_as_bytes ?h)"
    using mod_mod_cancel [of 4 8 a] f(2) h by (simp add: try_ref_qusb)
  have c: "command ?h = as_command (sq_data (ue_seq e))" "hdr_status ?h = as_status (sq_data (ue_seq e))"
    by (simp_all add: as_header_def)
  have "parse_frame iso_sz \<lparr>d_addr = a, d_bytes = header_as_bytes ?h @ []\<rparr> = (case sq_data (ue_seq e) of
        SeqReset \<Rightarrow> Ret (Inl DeviceDisconnected)
      | SeqTransfer k ep err \<Rightarrow> (case err of
          InvalidData \<Rightarrow> Ret (Inl Oops)
        | DeviceDisconnected \<Rightarrow> Ret (Inl DeviceDisconnected)
        | AbortProto \<Rightarrow> Ret (Inl AbortProto)
        | Oops \<Rightarrow> Panic
        | Other \<Rightarrow> Panic))"
    using h c split_qusb [of "\<lparr>d_addr = a, d_bytes = header_as_bytes ?h\<rparr>" iso_sz] t
    by (simp add: parse_frame_def qusb_split_def HEADER_SIZE_def split: seq_error.split abortable_error.split)
  with f(1) show ?thesis by blast
qed

text \<open>If a flush is under way when the session ends, its remaining bytes are dropped and the header
  lands in the middle of a message: the borrower takes it for data and then sees an orderly end
  of the stream, and the error is lost.\<close>

theorem lend_error_lost:
  assumes "wire_ok m" and "8 \<le> k" and "k + 8 < length (wire_bytes m)"
    and "tx_holder s = None" and "flusher s = Some (tx, wire_bytes m)"
    and "snd (lend_run_end k s (Some (LUsb e))) = tx @ r_buf r @ strm rx"
    and "alloc_ok al" and "stream_reader rd strm" and "ring_ok r"
  shows "\<exists>r' rx'. recv_frame chk al rd r rx = Some (Ret (Inl None, r', rx'))"
proof -
  let ?x = "take k (wire_bytes m) @ header_as_bytes (as_header e)"
  let ?miss = "replicate (length (wire_bytes m) - length ?x) (0 :: u8)"
  have x: "r_buf r @ strm rx = ?x"
    using assms(4-6) by (simp add: lend_run_end_def writer_at_end_def le64_header_as_u64_le)
  have n: "length (?x @ ?miss) = length (wire_bytes m)" using assms(3) by simp
  have "take 8 (?x @ ?miss) = take 8 (wire_bytes m)"
    using assms(2,3) by (simp add: min_absorb1 take_all)
  also have "\<dots> = header_as_bytes (wire_header m)" by (simp add: wire_bytes_def)
  finally have split: "?x @ ?miss = header_as_bytes (wire_header m) @ drop 8 (?x @ ?miss)"
    by (metis append_take_drop_id)
  have "length (drop 8 (?x @ ?miss)) = length (wire_payload m)"
    unfolding length_drop n by (simp add: wire_bytes_def)
  then have fr: "frame_ok (wire_header m) (drop 8 (?x @ ?miss))"
    using wire_frame_ok [OF assms(1)] by (simp only: frame_ok_def)
  have "?miss \<noteq> []" using assms(3) by simp
  from recv_frame_closed_aux [OF assms(7-9) fr _ this, of rx chk] split x show ?thesis by simp
qed

section \<open>The properties at work\<close>

theorem reply_round_trip_witness:
  "\<exists>d sq r' rx' g l'. recv_frame True exact_alloc (chunk_reader 5) (ring_with_capacity 0 0)
      (wire_bytes (MUrb RetSubmit 3 (reply_header Bulk 0x81 0 TS_Success 0 0 (ResIn [1, 2, 3])) (reply_body (ResIn [1, 2, 3]) []))) =
      Some (Ret (Inr d, r', rx')) \<and> parse_frame 8 d = Ret (Inr (FUrb sq)) \<and>
    urb_reply sq \<lparr>seqnums = [42 \<mapsto> 3], handles = [3 \<mapsto> 42]\<rparr> = Ret (g, l') \<and>
    gb_handle g = 42 \<and> gb_data g = GivebackIn [1, 2, 3] \<and> handles l' = Map.empty"
proof -
  have fits: "reply_fits (result_data_new [1, 2, 3] In) []" by (simp add: reply_fits_def up8_def)
  have "bit (0x81 :: u8) 7" by (simp add: bit_iff_odd drop_bit_eq_div)
  then have dir: "dir_from_u8 0x81 = Ret In" by (simp add: dir_from_u8_eq)
  from reply_round_trip [OF reply_bytes_wire(1) [OF fits] fits dir,
      of "\<lparr>seqnums = [42 \<mapsto> 3], handles = [3 \<mapsto> 42]\<rparr>" 3 42 exact_alloc "chunk_reader 5" id
        "ring_with_capacity 0 0" _ Bulk 0 TS_Success 0 0 "[]" True 8]
  show ?thesis by auto
qed

definition fetch_sevens :: fetch where "fetch_sevens hnd h t i = Inr (map (\<lambda>_. 7) t, i)"

theorem request_round_trip_witness:
  "\<exists>b' bs. process_urb True 8 4 same_place (\<lambda>_. 0) fetch_sevens (example_urb 3) 42
      ((borrow_send_new 0 no_links)\<lparr>dev_addr := 5\<rparr>) = Ret (Inr (), b') \<and> bs_buf b' = bs \<and>
    (\<exists>d sq r' rx'. recv_frame True exact_alloc (chunk_reader 5) (ring_with_capacity 0 0) bs = Some (Ret (Inr d, r', rx')) \<and>
      parse_frame 8 d = Ret (Inr (FUrb sq)) \<and> new_data_buf (\<lambda>_. 0) (sq_data sq) = Ret [7, 7, 7])"
proof -
  let ?b = "(borrow_send_new 0 no_links)\<lparr>dev_addr := 5\<rparr>"
  have inv: "borrow_send_inv 8 4 same_place fetch_sevens ?b"
    by (simp add: borrow_send_inv_def borrow_send_new_def borrow_env_def same_place_def fetch_sevens_def)
  have fits: "urb_fits 8 (example_urb 3)"
    by (simp add: urb_fits_def example_urb_def urb_data_size_def up8_def not_bit_2_7)
  have fetched: "\<forall>buf iso. length buf = iu_buffer_length (example_urb 3) \<and> length iso = iu_packet_count (example_urb 3) * 8 \<longrightarrow>
      fetch_sevens 42 (urb_request_header (example_urb 3)) buf iso = Inr ([7, 7, 7], [])"
    by (auto simp: example_urb_def fetch_sevens_def map_replicate_const numeral_3_eq_3)
  obtain b' bs where p: "process_urb True 8 4 same_place (\<lambda>_. 0) fetch_sevens (example_urb 3) 42 ?b = Ret (Inr (), b')"
    "bs_buf b' = bs_buf ?b @ bs" and
    r: "\<forall>r rx rest. ring_ok r \<and> r_buf r @ id rx = bs @ rest \<longrightarrow>
      (\<exists>d sq r' rx'. recv_frame True exact_alloc (chunk_reader 5) r rx = Some (Ret (Inr d, r', rx')) \<and>
        parse_frame 8 d = Ret (Inr (FUrb sq)) \<and> sq_seqnum sq = cur_seq ?b \<and>
        new_data_buf (\<lambda>_. 0) (sq_data sq) = Ret [7, 7, 7] \<and> new_iso_bufs 8 (\<lambda>_. 0) (sq_data sq) = Ret ([7, 7, 7], []) \<and>
        (iu_packet_count (example_urb 3) = 0 \<and>
          unat (setup_length example_vhci (iu_setup_packet (example_urb 3))) = iu_buffer_length (example_urb 3) \<longrightarrow>
          new_ctrl_buf example_vhci (\<lambda>_. 0) (sq_data sq) = Ret (le64 (iu_setup_packet (example_urb 3)) @ [7, 7, 7])) \<and>
        r_buf r' @ id rx' = rest)"
    using request_round_trip [OF inv fits _ _ _ fetched exact_alloc_ok chunk_reader_ok [of 5], of True "\<lambda>_. 0" True "\<lambda>_. 0" example_vhci]
    by (simp add: example_urb_def borrow_send_new_def not_bit_2_7) blast
  from r [rule_format, of "ring_with_capacity 0 0" bs "[]"] p show ?thesis
    by (auto simp: borrow_send_new_def)
qed

theorem lend_error_told_witness:
  "\<exists>d r' rx'. recv_frame True exact_alloc (chunk_reader 5) (ring_with_capacity 0 0)
      (le64 (header_as_u64_le (as_header \<lparr>ue_id = \<lparr>bus_number = 1, device_addr = 2\<rparr>,
        ue_seq = \<lparr>sq_seqnum = 3, sq_data = SeqTransfer Bulk 0x81 Other\<rparr>\<rparr>))) = Some (Ret (Inr d, r', rx')) \<and>
    parse_frame 8 d = Panic"
proof -
  from lend_error_told [of exact_alloc "chunk_reader 5" id "ring_with_capacity 0 0" _
    "\<lparr>ue_id = \<lparr>bus_number = 1, device_addr = 2\<rparr>, ue_seq = \<lparr>sq_seqnum = 3, sq_data = SeqTransfer Bulk 0x81 Other\<rparr>\<rparr>"
    "[]" True 8]
  show ?thesis by simp
qed

theorem lend_error_lost_witness:
  "\<exists>r' rx'. recv_frame True exact_alloc (chunk_reader 5) (ring_with_capacity 0 0)
      (snd (lend_run_end 10
        \<lparr>s_state = Flush, tx_holder = None, sleeper = False, flusher = Some ([], wire_bytes (MUrb RetSubmit 3
           (reply_header Bulk 0x81 0 TS_Success 0 0 (ResIn [1, 2, 3])) (reply_body (ResIn [1, 2, 3]) []))),
         s_handler = lend_send_new\<rparr>
        (Some (LUsb \<lparr>ue_id = \<lparr>bus_number = 1, device_addr = 2\<rparr>,
           ue_seq = \<lparr>sq_seqnum = 4, sq_data = SeqReset\<rparr>\<rparr>)))) = Some (Ret (Inl None, r', rx'))"
proof -
  let ?m = "MUrb RetSubmit 3 (reply_header Bulk 0x81 0 TS_Success 0 0 (ResIn [1, 2, 3])) (reply_body (ResIn [1, 2, 3]) [])"
  have "reply_fits (ResIn [1, 2, 3]) []" by (simp add: reply_fits_def up8_def)
  then have ok: "wire_ok ?m" by (rule reply_bytes_wire(2))
  have len: "10 + 8 < length (wire_bytes ?m)" by (simp add: wire_bytes_def length_reply_body)
  show ?thesis
    by (rule lend_error_lost [OF ok _ len, where tx = "[]" and strm = id]) simp_all
qed

end
