(* ===== verification/Three_Key_Map.thy ===== *)
theory Three_Key_Map
  imports Qusb_Prelude
begin

text \<open>
  \<^verbatim>\<open>ThreeKeyMap\<close> of \<^verbatim>\<open>crates/qusb/src/utils.rs\<close>: values in a vector, each with the number of
  keys that refer to it, and three maps from keys to positions of the vector. The abstract
  view is one map from keys of any of the three kinds to values; every operation acts on it
  as the corresponding map update, as long as the reference counts are not too small.
\<close>

section \<open>The map and its operations\<close>

datatype link_result = LinkSuccess | NewKeyAlreadyExists | ExistingKeyDoesNotExist

record ('k1, 'k2, 'k3, 'v) tkm =
  key1_map :: "'k1 \<Rightarrow> nat option"
  key2_map :: "'k2 \<Rightarrow> nat option"
  key3_map :: "'k3 \<Rightarrow> nat option"
  vals :: "('v \<times> nat) list"

definition with_capacities :: "('k1, 'k2, 'k3, 'v) tkm" where
  "with_capacities = \<lparr>key1_map = Map.empty, key2_map = Map.empty, key3_map = Map.empty, vals = []\<rparr>"

definition tkm_is_empty :: "('k1, 'k2, 'k3, 'v) tkm \<Rightarrow> bool" where
  "tkm_is_empty m \<longleftrightarrow> dom (key1_map m) = {} \<and> dom (key2_map m) = {} \<and> dom (key3_map m) = {} \<and>
     vals m = []"

text \<open>Positions equal to \<open>from\<close> become \<open>to\<close>.\<close>

definition redirect :: "nat \<Rightarrow> nat \<Rightarrow> ('k \<Rightarrow> nat option) \<Rightarrow> 'k \<Rightarrow> nat option" where
  "redirect from to f k = map_option (\<lambda>i. if i = from then to else i) (f k)"

definition swap_remove :: "nat \<Rightarrow> ('k1, 'k2, 'k3, 'v) tkm \<Rightarrow> ('v option \<times> ('k1, 'k2, 'k3, 'v) tkm) run" where
  "swap_remove index m =
     (if index < length (vals m) then
        (let last_item_position = length (vals m) - 1;
             value = fst (vals m ! index)
         in Ret (Some value,
              \<lparr>key1_map = redirect last_item_position index (key1_map m),
               key2_map = redirect last_item_position index (key2_map m),
               key3_map = redirect last_item_position index (key3_map m),
               vals = butlast ((vals m)[index := last (vals m)])\<rparr>))
      else Panic)"

definition unlink_all_but_key1 :: "'k1 \<Rightarrow> ('k1, 'k2, 'k3, 'v) tkm \<Rightarrow> ('k1, 'k2, 'k3, 'v) tkm" where
  "unlink_all_but_key1 k m =
     (case key1_map m k of
        None \<Rightarrow> m
      | Some index \<Rightarrow>
          m\<lparr>key1_map := (\<lambda>q. if q = k \<or> key1_map m q \<noteq> Some index then key1_map m q else None),
            key2_map := (\<lambda>q. if key2_map m q \<noteq> Some index then key2_map m q else None),
            key3_map := (\<lambda>q. if key3_map m q \<noteq> Some index then key3_map m q else None)\<rparr>)"

text \<open>\<open>self.values[index]\<close> panics out of bounds. The counts are \<^verbatim>\<open>usize\<close>.\<close>

definition inc_count :: "bool \<Rightarrow> nat \<Rightarrow> ('v \<times> nat) list \<Rightarrow> ('v \<times> nat) list run" where
  "inc_count chk index vs =
     (if index < length vs then
        rbind (usize_add chk (snd (vs ! index)) 1) (\<lambda>c. Ret (vs[index := (fst (vs ! index), c)]))
      else Panic)"

text \<open>\<^verbatim>\<open>TwoKeyOperation::link_key_to_key\<close>\<close>

definition link_key_to_key :: "bool \<Rightarrow> ('k \<Rightarrow> nat option) \<Rightarrow> ('q \<Rightarrow> nat option) \<Rightarrow> ('v \<times> nat) list \<Rightarrow>
    'k \<Rightarrow> 'q \<Rightarrow> (link_result \<times> ('k \<Rightarrow> nat option) \<times> ('v \<times> nat) list) run" where
  "link_key_to_key chk f1 f2 vs new_key existing_key =
     (if new_key \<in> dom f1 then Ret (NewKeyAlreadyExists, f1, vs)
      else case f2 existing_key of
             Some index \<Rightarrow>
               rbind (inc_count chk index vs) (\<lambda>vs'. Ret (LinkSuccess, f1(new_key \<mapsto> index), vs'))
           | None \<Rightarrow> Ret (ExistingKeyDoesNotExist, f1, vs))"

definition link_key2_to_key1 :: "bool \<Rightarrow> 'k2 \<Rightarrow> 'k1 \<Rightarrow> ('k1, 'k2, 'k3, 'v) tkm \<Rightarrow>
    (link_result \<times> ('k1, 'k2, 'k3, 'v) tkm) run" where
  "link_key2_to_key1 chk new_k existing_k m =
     rbind (link_key_to_key chk (key2_map m) (key1_map m) (vals m) new_k existing_k)
       (\<lambda>(r, f, vs). Ret (r, m\<lparr>key2_map := f, vals := vs\<rparr>))"

definition link_key3_to_key1 :: "bool \<Rightarrow> 'k3 \<Rightarrow> 'k1 \<Rightarrow> ('k1, 'k2, 'k3, 'v) tkm \<Rightarrow>
    (link_result \<times> ('k1, 'k2, 'k3, 'v) tkm) run" where
  "link_key3_to_key1 chk new_k existing_k m =
     rbind (link_key_to_key chk (key3_map m) (key1_map m) (vals m) new_k existing_k)
       (\<lambda>(r, f, vs). Ret (r, m\<lparr>key3_map := f, vals := vs\<rparr>))"

definition link_key3_to_key2 :: "bool \<Rightarrow> 'k3 \<Rightarrow> 'k2 \<Rightarrow> ('k1, 'k2, 'k3, 'v) tkm \<Rightarrow>
    (link_result \<times> ('k1, 'k2, 'k3, 'v) tkm) run" where
  "link_key3_to_key2 chk new_k existing_k m =
     rbind (link_key_to_key chk (key3_map m) (key2_map m) (vals m) new_k existing_k)
       (\<lambda>(r, f, vs). Ret (r, m\<lparr>key3_map := f, vals := vs\<rparr>))"

definition link_key1_to_key2 :: "bool \<Rightarrow> 'k1 \<Rightarrow> 'k2 \<Rightarrow> ('k1, 'k2, 'k3, 'v) tkm \<Rightarrow>
    (link_result \<times> ('k1, 'k2, 'k3, 'v) tkm) run" where
  "link_key1_to_key2 chk new_k existing_k m =
     rbind (link_key_to_key chk (key1_map m) (key2_map m) (vals m) new_k existing_k)
       (\<lambda>(r, f, vs). Ret (r, m\<lparr>key1_map := f, vals := vs\<rparr>))"

definition link_key1_to_key3 :: "bool \<Rightarrow> 'k1 \<Rightarrow> 'k3 \<Rightarrow> ('k1, 'k2, 'k3, 'v) tkm \<Rightarrow>
    (link_result \<times> ('k1, 'k2, 'k3, 'v) tkm) run" where
  "link_key1_to_key3 chk new_k existing_k m =
     rbind (link_key_to_key chk (key1_map m) (key3_map m) (vals m) new_k existing_k)
       (\<lambda>(r, f, vs). Ret (r, m\<lparr>key1_map := f, vals := vs\<rparr>))"

definition link_key2_to_key3 :: "bool \<Rightarrow> 'k2 \<Rightarrow> 'k3 \<Rightarrow> ('k1, 'k2, 'k3, 'v) tkm \<Rightarrow>
    (link_result \<times> ('k1, 'k2, 'k3, 'v) tkm) run" where
  "link_key2_to_key3 chk new_k existing_k m =
     rbind (link_key_to_key chk (key2_map m) (key3_map m) (vals m) new_k existing_k)
       (\<lambda>(r, f, vs). Ret (r, m\<lparr>key2_map := f, vals := vs\<rparr>))"

text \<open>\<^verbatim>\<open>OneKeyOperation::link_key_to_key\<close> is the same code with one map in both roles.\<close>

definition link_key1_to_key1 :: "bool \<Rightarrow> 'k1 \<Rightarrow> 'k1 \<Rightarrow> ('k1, 'k2, 'k3, 'v) tkm \<Rightarrow>
    (link_result \<times> ('k1, 'k2, 'k3, 'v) tkm) run" where
  "link_key1_to_key1 chk new_k existing_k m =
     rbind (link_key_to_key chk (key1_map m) (key1_map m) (vals m) new_k existing_k)
       (\<lambda>(r, f, vs). Ret (r, m\<lparr>key1_map := f, vals := vs\<rparr>))"

definition link_key2_to_key2 :: "bool \<Rightarrow> 'k2 \<Rightarrow> 'k2 \<Rightarrow> ('k1, 'k2, 'k3, 'v) tkm \<Rightarrow>
    (link_result \<times> ('k1, 'k2, 'k3, 'v) tkm) run" where
  "link_key2_to_key2 chk new_k existing_k m =
     rbind (link_key_to_key chk (key2_map m) (key2_map m) (vals m) new_k existing_k)
       (\<lambda>(r, f, vs). Ret (r, m\<lparr>key2_map := f, vals := vs\<rparr>))"

definition link_key3_to_key3 :: "bool \<Rightarrow> 'k3 \<Rightarrow> 'k3 \<Rightarrow> ('k1, 'k2, 'k3, 'v) tkm \<Rightarrow>
    (link_result \<times> ('k1, 'k2, 'k3, 'v) tkm) run" where
  "link_key3_to_key3 chk new_k existing_k m =
     rbind (link_key_to_key chk (key3_map m) (key3_map m) (vals m) new_k existing_k)
       (\<lambda>(r, f, vs). Ret (r, m\<lparr>key3_map := f, vals := vs\<rparr>))"

text \<open>\<^verbatim>\<open>OneKeyOperation::insert_by_key\<close>: on a key that is present it pops the new value again,
  but the key already refers to the popped position.\<close>

definition insert_by_key :: "'k \<Rightarrow> 'v \<Rightarrow> ('k \<Rightarrow> nat option) \<Rightarrow> ('v \<times> nat) list \<Rightarrow>
    'v option \<times> ('k \<Rightarrow> nat option) \<times> ('v \<times> nat) list" where
  "insert_by_key k v f vs =
     (let vs' = vs @ [(v, 1)]; index = length vs' - 1
      in case f k of
           None \<Rightarrow> (None, f(k \<mapsto> index), vs')
         | Some _ \<Rightarrow> (Some (fst (last vs')), f(k \<mapsto> index), butlast vs'))"

definition insert_by_key1 :: "'k1 \<Rightarrow> 'v \<Rightarrow> ('k1, 'k2, 'k3, 'v) tkm \<Rightarrow>
    'v option \<times> ('k1, 'k2, 'k3, 'v) tkm" where
  "insert_by_key1 k v m =
     (case insert_by_key k v (key1_map m) (vals m) of (r, f, vs) \<Rightarrow> (r, m\<lparr>key1_map := f, vals := vs\<rparr>))"

definition insert_by_key2 :: "'k2 \<Rightarrow> 'v \<Rightarrow> ('k1, 'k2, 'k3, 'v) tkm \<Rightarrow>
    'v option \<times> ('k1, 'k2, 'k3, 'v) tkm" where
  "insert_by_key2 k v m =
     (case insert_by_key k v (key2_map m) (vals m) of (r, f, vs) \<Rightarrow> (r, m\<lparr>key2_map := f, vals := vs\<rparr>))"

definition insert_by_key3 :: "'k3 \<Rightarrow> 'v \<Rightarrow> ('k1, 'k2, 'k3, 'v) tkm \<Rightarrow>
    'v option \<times> ('k1, 'k2, 'k3, 'v) tkm" where
  "insert_by_key3 k v m =
     (case insert_by_key k v (key3_map m) (vals m) of (r, f, vs) \<Rightarrow> (r, m\<lparr>key3_map := f, vals := vs\<rparr>))"

definition remove_by_key1 :: "bool \<Rightarrow> 'k1 \<Rightarrow> ('k1, 'k2, 'k3, 'v) tkm \<Rightarrow>
    ('v option \<times> ('k1, 'k2, 'k3, 'v) tkm) run" where
  "remove_by_key1 chk k m =
     (case key1_map m k of
        None \<Rightarrow> Ret (None, m)
      | Some index \<Rightarrow>
          (let m1 = m\<lparr>key1_map := (key1_map m)(k := None)\<rparr>
           in if index < length (vals m) then
                rbind (usize_sub chk (snd (vals m ! index)) 1) (\<lambda>count.
                  let m2 = m1\<lparr>vals := (vals m)[index := (fst (vals m ! index), count)]\<rparr>
                  in if 0 = count then swap_remove index m2 else Ret (None, m2))
              else Ret (None, m1)))"

text \<open>\<^verbatim>\<open>OneKeyOperation::remove_by_key\<close>: the position of the removed key and the new count.\<close>

definition remove_by_key :: "'k \<Rightarrow> ('k \<Rightarrow> nat option) \<Rightarrow> ('v \<times> nat) list \<Rightarrow>
    ((nat \<times> nat) option \<times> ('k \<Rightarrow> nat option) \<times> ('v \<times> nat) list) run" where
  "remove_by_key k f vs =
     (case f k of
        None \<Rightarrow> Ret (None, f, vs)
      | Some index \<Rightarrow>
          if index < length vs then
            (if snd (vs ! index) = 0 then Panic
             else let count = snd (vs ! index) - 1
                  in Ret (Some (index, count), f(k := None), vs[index := (fst (vs ! index), count)]))
          else Ret (None, f(k := None), vs))"

definition remove_by_key2 :: "'k2 \<Rightarrow> ('k1, 'k2, 'k3, 'v) tkm \<Rightarrow>
    ('v option \<times> ('k1, 'k2, 'k3, 'v) tkm) run" where
  "remove_by_key2 k m =
     rbind (remove_by_key k (key2_map m) (vals m)) (\<lambda>(r, f, vs).
       let m' = m\<lparr>key2_map := f, vals := vs\<rparr>
       in case r of
            Some (index, count) \<Rightarrow> if 0 = count then swap_remove index m' else Ret (None, m')
          | None \<Rightarrow> Ret (None, m'))"

definition remove_by_key3 :: "'k3 \<Rightarrow> ('k1, 'k2, 'k3, 'v) tkm \<Rightarrow>
    ('v option \<times> ('k1, 'k2, 'k3, 'v) tkm) run" where
  "remove_by_key3 k m =
     rbind (remove_by_key k (key3_map m) (vals m)) (\<lambda>(r, f, vs).
       let m' = m\<lparr>key3_map := f, vals := vs\<rparr>
       in case r of
            Some (index, count) \<Rightarrow> if 0 = count then swap_remove index m' else Ret (None, m')
          | None \<Rightarrow> Ret (None, m'))"

definition get_by_key :: "('k \<Rightarrow> nat option) \<Rightarrow> ('v \<times> nat) list \<Rightarrow> 'k \<Rightarrow> 'v option" where
  "get_by_key f vs k =
     (case f k of
        None \<Rightarrow> None
      | Some index \<Rightarrow> if index < length vs then Some (fst (vs ! index)) else None)"

definition get_by_key1 :: "('k1, 'k2, 'k3, 'v) tkm \<Rightarrow> 'k1 \<Rightarrow> 'v option" where
  "get_by_key1 m = get_by_key (key1_map m) (vals m)"

definition get_by_key2 :: "('k1, 'k2, 'k3, 'v) tkm \<Rightarrow> 'k2 \<Rightarrow> 'v option" where
  "get_by_key2 m = get_by_key (key2_map m) (vals m)"

definition get_by_key3 :: "('k1, 'k2, 'k3, 'v) tkm \<Rightarrow> 'k3 \<Rightarrow> 'v option" where
  "get_by_key3 m = get_by_key (key3_map m) (vals m)"

section \<open>The invariant\<close>

text \<open>
  Keys of the three kinds in one type, and the position a key refers to. The counts bound the
  number of keys that refer to a position (\<open>exact\<close>: they are that number).
\<close>

datatype ('k1, 'k2, 'k3) tkey = Key1 'k1 | Key2 'k2 | Key3 'k3

fun slot :: "('k1, 'k2, 'k3, 'v) tkm \<Rightarrow> ('k1, 'k2, 'k3) tkey \<Rightarrow> nat option" where
  "slot m (Key1 k) = key1_map m k"
| "slot m (Key2 k) = key2_map m k"
| "slot m (Key3 k) = key3_map m k"

definition lookup :: "('k1, 'k2, 'k3, 'v) tkm \<Rightarrow> ('k1, 'k2, 'k3) tkey \<Rightarrow> 'v option" where
  "lookup m = get_by_key (slot m) (vals m)"

definition refs :: "('k \<Rightarrow> nat option) \<Rightarrow> nat \<Rightarrow> nat" where
  "refs f i = card {k. f k = Some i}"

definition counted :: "bool \<Rightarrow> ('k \<Rightarrow> nat option) \<Rightarrow> ('v \<times> nat) list \<Rightarrow> bool" where
  "counted exact f vs \<longleftrightarrow> finite (dom f) \<and> (\<forall>k i. f k = Some i \<longrightarrow> i < length vs) \<and>
     (\<forall>i < length vs. 0 < snd (vs ! i) \<and> refs f i \<le> snd (vs ! i) \<and>
        (exact \<longrightarrow> snd (vs ! i) = refs f i))"

definition tkm_ok :: "bool \<Rightarrow> ('k1, 'k2, 'k3, 'v) tkm \<Rightarrow> bool" where
  "tkm_ok exact m \<longleftrightarrow> counted exact (slot m) (vals m)"

lemma countedD:
  assumes "counted exact f vs"
  shows "finite (dom f)" and "f k = Some i \<Longrightarrow> i < length vs"
    and "i < length vs \<Longrightarrow> 0 < snd (vs ! i)" and "i < length vs \<Longrightarrow> refs f i \<le> snd (vs ! i)"
    and "exact \<Longrightarrow> i < length vs \<Longrightarrow> snd (vs ! i) = refs f i"
  using assms unfolding counted_def by blast+

lemma finite_refs: "finite (dom f) \<Longrightarrow> finite {k. f k = Some i}"
  by (rule finite_subset [of _ "dom f"]) auto

lemma refs_upd_new:
  assumes "finite (dom f)" and "f k = None"
  shows "refs (f(k \<mapsto> i)) j = (if j = i then refs f j + 1 else refs f j)"
proof (cases "j = i")
  case True
  have "{q. (f(k \<mapsto> i)) q = Some i} = insert k {q. f q = Some i}" by auto
  then show ?thesis using assms True finite_refs [of f i] by (simp add: refs_def)
next
  case False
  with assms(2) have "{q. (f(k \<mapsto> i)) q = Some j} = {q. f q = Some j}" by auto
  with False show ?thesis by (simp add: refs_def)
qed

lemma refs_del:
  assumes "finite (dom f)" and "f k = Some i"
  shows "refs (f(k := None)) j = (if j = i then refs f j - 1 else refs f j)"
    and "0 < refs f i"
proof -
  have "{q. (f(k := None)) q = Some j} = {q. f q = Some j} - {k}" by auto
  then show "refs (f(k := None)) j = (if j = i then refs f j - 1 else refs f j)"
    using assms finite_refs [of f j] by (auto simp: refs_def card_Diff_singleton)
  show "0 < refs f i"
    using assms finite_refs [of f i] by (auto simp: refs_def card_gt_0_iff)
qed

lemma refs_mono: "finite (dom f) \<Longrightarrow> (\<And>k. g k = Some i \<Longrightarrow> f k = Some i) \<Longrightarrow> refs g i \<le> refs f i"
  unfolding refs_def by (rule card_mono [OF finite_refs]) auto

section \<open>Facts: what the operations do to a counted map\<close>

lemma get_by_key_upd:
  "counted exact f vs \<Longrightarrow> get_by_key (f(k := x)) vs =
    (get_by_key f vs)(k := (case x of None \<Rightarrow> None
       | Some i \<Rightarrow> if i < length vs then Some (fst (vs ! i)) else None))"
  by (auto simp: get_by_key_def fun_eq_iff split: option.split)

lemma get_by_key_count:
  "get_by_key f (vs[i := (fst (vs ! i), c)]) = get_by_key f vs"
  by (auto simp: get_by_key_def fun_eq_iff split: option.split)
    (metis fst_conv nth_list_update_eq nth_list_update_neq)

lemma counted_insert:
  assumes "counted exact f vs" and "f k = None"
  shows "counted exact (f(k \<mapsto> length vs)) (vs @ [(v, 1)])"
    and "get_by_key (f(k \<mapsto> length vs)) (vs @ [(v, 1)]) = (get_by_key f vs)(k \<mapsto> v)"
proof -
  note D = countedD [OF assms(1)]
  have "{q. f q = Some (length vs)} = {}" using D(2) by fastforce
  then have 0: "refs f (length vs) = 0" unfolding refs_def by (metis card.empty)
  show "counted exact (f(k \<mapsto> length vs)) (vs @ [(v, 1)])"
    unfolding counted_def
  proof (intro conjI allI impI)
    fix i
    assume i: "i < length (vs @ [(v, 1)])"
    show "0 < snd ((vs @ [(v, 1)]) ! i)" "refs (f(k \<mapsto> length vs)) i \<le> snd ((vs @ [(v, 1)]) ! i)"
      "exact \<Longrightarrow> snd ((vs @ [(v, 1)]) ! i) = refs (f(k \<mapsto> length vs)) i"
      using i 0 D(3-5) [of i] refs_upd_new [OF D(1) assms(2)]
      by (auto simp: nth_append less_Suc_eq)
  next
    fix q j
    assume "(f(k \<mapsto> length vs)) q = Some j"
    then show "j < length (vs @ [(v, 1)])" using D(2) [of q j] by (auto split: if_splits)
  qed (use D(1) in simp)
  show "get_by_key (f(k \<mapsto> length vs)) (vs @ [(v, 1)]) = (get_by_key f vs)(k \<mapsto> v)"
    by (auto simp: get_by_key_def fun_eq_iff nth_append split: option.split dest: D(2))
qed

lemma counted_link:
  assumes "counted exact f vs" and "f k = None" and "f e = Some i"
  shows "counted exact (f(k \<mapsto> i)) (vs[i := (fst (vs ! i), snd (vs ! i) + 1)])"
    and "get_by_key (f(k \<mapsto> i)) (vs[i := (fst (vs ! i), snd (vs ! i) + 1)]) =
      (get_by_key f vs)(k := get_by_key f vs e)"
proof -
  note D = countedD [OF assms(1)]
  have i: "i < length vs" using D(2) assms(3) by blast
  show "counted exact (f(k \<mapsto> i)) (vs[i := (fst (vs ! i), snd (vs ! i) + 1)])"
    unfolding counted_def
  proof (intro conjI allI impI)
    fix j
    assume j: "j < length (vs[i := (fst (vs ! i), snd (vs ! i) + 1)])"
    let ?x = "vs[i := (fst (vs ! i), snd (vs ! i) + 1)] ! j"
    show "0 < snd ?x" "refs (f(k \<mapsto> i)) j \<le> snd ?x" "exact \<Longrightarrow> snd ?x = refs (f(k \<mapsto> i)) j"
      using i j D(3-5) [of j] refs_upd_new [OF D(1) assms(2)] by (auto simp: nth_list_update)
  qed (use D(1,2) i in \<open>auto split: if_splits\<close>)
  show "get_by_key (f(k \<mapsto> i)) (vs[i := (fst (vs ! i), snd (vs ! i) + 1)]) =
      (get_by_key f vs)(k := get_by_key f vs e)"
    using i assms(3) by (simp add: get_by_key_count get_by_key_upd [OF assms(1)])
      (simp add: get_by_key_def)
qed

lemma counted_drop:
  assumes "counted exact f vs" and "f k = Some i" and "snd (vs ! i) \<noteq> 1"
  shows "counted exact (f(k := None)) (vs[i := (fst (vs ! i), snd (vs ! i) - 1)])"
proof -
  note D = countedD [OF assms(1)]
  have i: "i < length vs" using D(2) assms(2) by blast
  note r = refs_del [OF D(1) assms(2)]
  show ?thesis
    unfolding counted_def
  proof (intro conjI allI impI)
    fix j
    assume j: "j < length (vs[i := (fst (vs ! i), snd (vs ! i) - 1)])"
    let ?x = "vs[i := (fst (vs ! i), snd (vs ! i) - 1)] ! j"
    show "0 < snd ?x" "refs (f(k := None)) j \<le> snd ?x" "exact \<Longrightarrow> snd ?x = refs (f(k := None)) j"
      using i j D(3-5) [of j] r assms(3) by (auto simp: nth_list_update)
  qed (use D(1,2) in \<open>auto split: if_splits\<close>)
qed

text \<open>The swap: the last value moves to the freed position, its keys follow.\<close>

lemma counted_swap:
  assumes "counted exact f vs" and "f k = Some i" and "snd (vs ! i) = 1" and "fst x = fst (vs ! i)"
  shows "counted exact (redirect (length vs - 1) i (f(k := None))) (butlast (vs[i := x, i := last (vs[i := x])]))"
    and "get_by_key (redirect (length vs - 1) i (f(k := None))) (butlast (vs[i := x, i := last (vs[i := x])])) =
      (get_by_key f vs)(k := None)"
proof -
  note D = countedD [OF assms(1)]
  let ?g = "f(k := None)" and ?l = "length vs - 1"
  let ?h = "redirect ?l i ?g" and ?ws = "butlast (vs[i := x, i := last (vs[i := x])])"
  have i: "i < length vs" using D(2) assms(2) by blast
  then have len: "length ?ws = ?l" "vs \<noteq> []" by auto
  have "refs ?g i \<le> 0" using refs_del [OF D(1) assms(2)] D(4) [OF i] assms(3) by simp
  moreover have fin: "finite (dom ?g)" using D(1) by simp
  ultimately have none: "?g q \<noteq> Some i" for q
    using finite_refs [OF fin, of i] by (auto simp: refs_def)
  have at: "?ws ! j = (if j = i then last vs else vs ! j)" if "j < ?l" for j
    using that i len by (auto simp: nth_butlast nth_list_update last_list_update last_conv_nth)
  have g: "?g q = Some j \<Longrightarrow> j < length vs" for q j using D(2) by (auto split: if_splits)
  have h: "?h q = Some j \<longleftrightarrow> (if j = i then ?g q = Some ?l \<and> i \<noteq> ?l else ?g q = Some j \<and> j \<noteq> ?l)" for q j
    using none [of q] by (auto simp: redirect_def split: if_splits)
  have refs_h: "refs ?h j = (if j = i then if i = ?l then 0 else refs f ?l else if j = ?l then 0 else refs f j)" for j
    using refs_del(1) [OF D(1) assms(2)] unfolding refs_def h by auto
  have fin_h: "finite (dom ?h)"
    by (rule finite_subset [OF _ fin]) (auto simp: redirect_def split: if_splits)
  have lt: "?h q = Some j \<Longrightarrow> j < ?l" for q j
    using h [of q j] g [of q j] i by (auto split: if_splits)
  show "counted exact ?h ?ws"
    unfolding counted_def len(1)
  proof (intro conjI allI impI)
    fix j
    assume j: "j < ?l"
    have l: "?l < length vs" using i by simp
    show "0 < snd (?ws ! j)" "refs ?h j \<le> snd (?ws ! j)" "exact \<Longrightarrow> snd (?ws ! j) = refs ?h j"
      unfolding at [OF j] refs_h
      using j i D(3-5) [of j] D(5) [OF _ l] D(3,4) [OF l] len(2)
      by (auto simp: last_conv_nth)
  qed (use fin_h lt in auto)
  show "get_by_key ?h ?ws = (get_by_key f vs)(k := None)"
  proof
    fix q
    show "get_by_key ?h ?ws q = ((get_by_key f vs)(k := None)) q"
    proof (cases "?g q")
      case None
      then show ?thesis by (auto simp: get_by_key_def redirect_def split: if_splits)
    next
      case (Some j)
      then have "q \<noteq> k" "f q = Some j" "j \<noteq> i" "j < length vs"
        using none [of q] g by (auto split: if_splits)
      moreover let ?j = "if j = ?l then i else j"
      have hq: "?h q = Some ?j" using Some by (simp add: redirect_def)
      have "get_by_key ?h ?ws q = Some (fst (?ws ! ?j))"
        using lt [OF hq] by (simp only: get_by_key_def hq option.case len(1) if_True)
      then have "get_by_key ?h ?ws q = Some (fst (if ?j = i then last vs else vs ! ?j))"
        by (simp only: at [OF lt [OF hq]])
      ultimately show ?thesis using len(2) by (auto simp: get_by_key_def last_conv_nth)
    qed
  qed
qed

lemma counted_filter:
  assumes "counted exact f vs"
  shows "counted False (\<lambda>q. if P q then f q else None) vs"
    and "get_by_key (\<lambda>q. if P q then f q else None) vs = (\<lambda>q. if P q then get_by_key f vs q else None)"
proof -
  note D = countedD [OF assms]
  show "counted False (\<lambda>q. if P q then f q else None) vs"
    unfolding counted_def
  proof (intro conjI allI impI)
    show "finite (dom (\<lambda>q. if P q then f q else None))"
      by (rule finite_subset [OF _ D(1)]) (auto split: if_splits)
    fix i
    assume "i < length vs"
    then show "refs (\<lambda>q. if P q then f q else None) i \<le> snd (vs ! i)"
      by (intro order.trans [OF refs_mono [OF D(1)] D(4)]) (auto split: if_splits)
  qed (use D(2,3) in \<open>auto split: if_splits\<close>)
qed (auto simp: get_by_key_def fun_eq_iff)

section \<open>Facts: the operations refine map updates\<close>

text \<open>The operations by the kind of their keys.\<close>

fun tkm_insert :: "('k1, 'k2, 'k3) tkey \<Rightarrow> 'v \<Rightarrow> ('k1, 'k2, 'k3, 'v) tkm \<Rightarrow>
    'v option \<times> ('k1, 'k2, 'k3, 'v) tkm" where
  "tkm_insert (Key1 k) = insert_by_key1 k"
| "tkm_insert (Key2 k) = insert_by_key2 k"
| "tkm_insert (Key3 k) = insert_by_key3 k"

fun tkm_remove :: "bool \<Rightarrow> ('k1, 'k2, 'k3) tkey \<Rightarrow> ('k1, 'k2, 'k3, 'v) tkm \<Rightarrow>
    ('v option \<times> ('k1, 'k2, 'k3, 'v) tkm) run" where
  "tkm_remove chk (Key1 k) = remove_by_key1 chk k"
| "tkm_remove chk (Key2 k) = remove_by_key2 k"
| "tkm_remove chk (Key3 k) = remove_by_key3 k"

fun tkm_link :: "bool \<Rightarrow> ('k1, 'k2, 'k3) tkey \<Rightarrow> ('k1, 'k2, 'k3) tkey \<Rightarrow> ('k1, 'k2, 'k3, 'v) tkm \<Rightarrow>
    (link_result \<times> ('k1, 'k2, 'k3, 'v) tkm) run" where
  "tkm_link chk (Key1 k) (Key1 e) = link_key1_to_key1 chk k e"
| "tkm_link chk (Key1 k) (Key2 e) = link_key1_to_key2 chk k e"
| "tkm_link chk (Key1 k) (Key3 e) = link_key1_to_key3 chk k e"
| "tkm_link chk (Key2 k) (Key1 e) = link_key2_to_key1 chk k e"
| "tkm_link chk (Key2 k) (Key2 e) = link_key2_to_key2 chk k e"
| "tkm_link chk (Key2 k) (Key3 e) = link_key2_to_key3 chk k e"
| "tkm_link chk (Key3 k) (Key1 e) = link_key3_to_key1 chk k e"
| "tkm_link chk (Key3 k) (Key2 e) = link_key3_to_key2 chk k e"
| "tkm_link chk (Key3 k) (Key3 e) = link_key3_to_key3 chk k e"

lemmas link_defs = link_key1_to_key1_def link_key1_to_key2_def link_key1_to_key3_def
  link_key2_to_key1_def link_key2_to_key2_def link_key2_to_key3_def
  link_key3_to_key1_def link_key3_to_key2_def link_key3_to_key3_def

lemma slotI:
  assumes "\<And>a. key1_map m a = f (Key1 a)" and "\<And>b. key2_map m b = f (Key2 b)"
    and "\<And>c. key3_map m c = f (Key3 c)"
  shows "slot m = f"
proof
  fix k
  show "slot m k = f k" using assms by (cases k) simp_all
qed

lemma slot_upd [simp]:
  "slot (m\<lparr>key1_map := (key1_map m)(a := x)\<rparr>) = (slot m)(Key1 a := x)"
  "slot (m\<lparr>key2_map := (key2_map m)(b := x)\<rparr>) = (slot m)(Key2 b := x)"
  "slot (m\<lparr>key3_map := (key3_map m)(c := x)\<rparr>) = (slot m)(Key3 c := x)"
  "slot (m\<lparr>vals := vs\<rparr>) = slot m"
  by (rule slotI; simp add: redirect_def)+

lemma swap_remove_slot:
  assumes "i < length (vals m)"
  shows "\<exists>m'. swap_remove i m = Ret (Some (fst (vals m ! i)), m') \<and>
    slot m' = redirect (length (vals m) - 1) i (slot m) \<and>
    vals m' = butlast ((vals m)[i := last (vals m)])"
proof -
  have "slot \<lparr>key1_map = redirect l i (key1_map m), key2_map = redirect l i (key2_map m),
      key3_map = redirect l i (key3_map m), vals = vs\<rparr> = redirect l i (slot m)" for l vs
    by (rule slotI) (simp_all add: redirect_def)
  with assms show ?thesis by (simp add: swap_remove_def Let_def)
qed

lemma lookup_simps [simp]:
  "lookup m (Key1 a) = get_by_key1 m a" "lookup m (Key2 b) = get_by_key2 m b"
  "lookup m (Key3 c) = get_by_key3 m c"
  by (simp_all add: lookup_def get_by_key1_def get_by_key2_def get_by_key3_def get_by_key_def)

lemma lookup_dom: "tkm_ok exact m \<Longrightarrow> lookup m k = None \<longleftrightarrow> slot m k = None"
  unfolding tkm_ok_def lookup_def get_by_key_def by (auto dest: countedD(2) split: option.split)

lemma tkm_ok_weaken: "tkm_ok exact m \<Longrightarrow> tkm_ok False m"
  by (simp add: tkm_ok_def counted_def)

lemma tkm_new: "tkm_ok exact with_capacities" "lookup with_capacities = Map.empty"
proof -
  have 1: "slot with_capacities = Map.empty" "vals with_capacities = []"
    by (rule slotI) (simp_all add: with_capacities_def)
  show "tkm_ok exact with_capacities" by (simp add: tkm_ok_def counted_def 1)
  show "lookup with_capacities = Map.empty" by (rule ext) (simp add: lookup_def get_by_key_def 1)
qed

lemma tkm_insert_new:
  assumes "tkm_ok exact m" and "lookup m k = None"
  shows "\<exists>m'. tkm_insert k v m = (None, m') \<and> tkm_ok exact m' \<and> lookup m' = (lookup m)(k \<mapsto> v)"
proof -
  have k: "slot m k = None" using assms lookup_dom by blast
  from counted_insert [OF assms(1) [unfolded tkm_ok_def] k, of v] k show ?thesis
    by (cases k) (simp_all add: insert_by_key1_def insert_by_key2_def insert_by_key3_def
      insert_by_key_def tkm_ok_def lookup_def)
qed

lemma tkm_link_eq:
  "tkm_link chk k e m =
     (if slot m k \<noteq> None then Ret (NewKeyAlreadyExists, m)
      else case slot m e of
             None \<Rightarrow> Ret (ExistingKeyDoesNotExist, m)
           | Some i \<Rightarrow> rbind (inc_count chk i (vals m)) (\<lambda>vs. Ret (LinkSuccess,
               case k of Key1 a \<Rightarrow> m\<lparr>key1_map := (key1_map m)(a \<mapsto> i), vals := vs\<rparr>
                       | Key2 b \<Rightarrow> m\<lparr>key2_map := (key2_map m)(b \<mapsto> i), vals := vs\<rparr>
                       | Key3 c \<Rightarrow> m\<lparr>key3_map := (key3_map m)(c \<mapsto> i), vals := vs\<rparr>)))"
  by (cases k; cases e) (auto simp: link_defs link_key_to_key_def run_simps split: option.split)

text \<open>A value whose count is at its limit cannot get one more key; with 64-bit counts this
  takes \<open>2 ^ 64\<close> links.\<close>

definition room :: "('k1, 'k2, 'k3, 'v) tkm \<Rightarrow> bool" where
  "room m \<longleftrightarrow> (\<forall>x \<in> set (vals m). snd x + 1 < 2 ^ 64)"

lemma tkm_link_new:
  assumes "tkm_ok exact m" and "room m" and "lookup m k = None" and "lookup m e \<noteq> None"
  shows "\<exists>m'. tkm_link chk k e m = Ret (LinkSuccess, m') \<and> tkm_ok exact m' \<and>
    lookup m' = (lookup m)(k := lookup m e)"
proof -
  have ok: "counted exact (slot m) (vals m)" using assms(1) by (simp add: tkm_ok_def)
  obtain i where ke: "slot m k = None" "slot m e = Some i"
    using assms lookup_dom by (metis not_None_eq)
  have i: "i < length (vals m)" using countedD(2) [OF ok ke(2)] .
  then have "inc_count chk i (vals m) = Ret ((vals m)[i := (fst (vals m ! i), snd (vals m ! i) + 1)])"
    using assms(2) by (simp add: inc_count_def room_def)
  with counted_link [OF ok ke] ke show ?thesis
    by (cases k) (simp_all add: tkm_link_eq tkm_ok_def lookup_def)
qed

lemma tkm_link_other:
  assumes "tkm_ok exact m"
  shows "lookup m k \<noteq> None \<Longrightarrow> tkm_link chk k e m = Ret (NewKeyAlreadyExists, m)"
    and "lookup m k = None \<Longrightarrow> lookup m e = None \<Longrightarrow>
      tkm_link chk k e m = Ret (ExistingKeyDoesNotExist, m)"
  using lookup_dom [OF assms] by (simp_all add: tkm_link_eq)

lemma tkm_remove_eq:
  assumes "tkm_ok exact m"
  shows "tkm_remove chk k m =
    (case slot m k of
       None \<Rightarrow> Ret (None, m)
     | Some i \<Rightarrow>
         (let vs = (vals m)[i := (fst (vals m ! i), snd (vals m ! i) - 1)];
              m' = (case k of Key1 a \<Rightarrow> m\<lparr>key1_map := (key1_map m)(a := None), vals := vs\<rparr>
                            | Key2 b \<Rightarrow> m\<lparr>key2_map := (key2_map m)(b := None), vals := vs\<rparr>
                            | Key3 c \<Rightarrow> m\<lparr>key3_map := (key3_map m)(c := None), vals := vs\<rparr>)
          in if snd (vals m ! i) = 1 then swap_remove i m' else Ret (None, m')))"
proof (cases "slot m k")
  case None
  then show ?thesis
    by (cases k) (auto simp: remove_by_key1_def remove_by_key2_def remove_by_key3_def
      remove_by_key_def)
next
  case (Some i)
  have ok: "counted exact (slot m) (vals m)" using assms by (simp add: tkm_ok_def)
  have i: "i < length (vals m)" "0 < snd (vals m ! i)"
    using countedD(2) [OF ok Some] countedD(3) [OF ok] by simp_all
  then have "(0 = snd (vals m ! i) - 1) = (snd (vals m ! i) = 1)" by linarith
  with Some i show ?thesis
    by (cases k) (simp_all add: remove_by_key1_def remove_by_key2_def remove_by_key3_def
      remove_by_key_def Let_def)
qed

text \<open>Removing a key forgets that key only, and gives the value out when it was the last key.\<close>

lemma tkm_remove_ok:
  assumes "tkm_ok exact m"
  shows "\<exists>r m'. tkm_remove chk k m = Ret (r, m') \<and> tkm_ok exact m' \<and>
    lookup m' = (lookup m)(k := None) \<and> (r = None \<or> r = lookup m k)"
proof (cases "slot m k")
  case None
  then have "lookup m k = None" by (simp add: lookup_def get_by_key_def)
  then have "(lookup m)(k := None) = lookup m" by auto
  with None assms show ?thesis by (simp add: tkm_remove_eq [OF assms])
next
  case (Some i)
  have ok: "counted exact (slot m) (vals m)" using assms by (simp add: tkm_ok_def)
  have i: "i < length (vals m)" using countedD(2) [OF ok Some] .
  have val: "lookup m k = Some (fst (vals m ! i))" using Some i by (simp add: lookup_def get_by_key_def)
  let ?vs = "(vals m)[i := (fst (vals m ! i), snd (vals m ! i) - 1)]"
  show ?thesis
  proof (cases "snd (vals m ! i) = 1")
    case False
    have "get_by_key ((slot m)(k := None)) ?vs = (lookup m)(k := None)"
      by (simp add: get_by_key_count get_by_key_upd [OF ok] lookup_def)
    with counted_drop [OF ok Some False] Some False show ?thesis
      unfolding tkm_remove_eq [OF assms] by (cases k) (simp_all add: tkm_ok_def lookup_def Let_def)
  next
    case True
    define m2 where "m2 = (case k of Key1 a \<Rightarrow> m\<lparr>key1_map := (key1_map m)(a := None), vals := ?vs\<rparr>
      | Key2 b \<Rightarrow> m\<lparr>key2_map := (key2_map m)(b := None), vals := ?vs\<rparr>
      | Key3 c \<Rightarrow> m\<lparr>key3_map := (key3_map m)(c := None), vals := ?vs\<rparr>)"
    have m2: "slot m2 = (slot m)(k := None)" "vals m2 = ?vs"
      by (cases k; simp add: m2_def)+
    obtain m3 where m3: "swap_remove i m2 = Ret (lookup m k, m3)"
      "slot m3 = redirect (length (vals m) - 1) i ((slot m)(k := None))"
      "vals m3 = butlast (?vs[i := last ?vs])"
      using swap_remove_slot [of i m2] i val by (auto simp: m2)
    have "tkm_remove chk k m = Ret (lookup m k, m3)"
      unfolding tkm_remove_eq [OF assms] Let_def Some option.case m2_def [symmetric]
      using True m3(1) by simp
    moreover have "tkm_ok exact m3" "lookup m3 = (lookup m)(k := None)"
      using counted_swap [OF ok Some True, of "(fst (vals m ! i), snd (vals m ! i) - 1)"] m3
      by (simp_all add: tkm_ok_def lookup_def)
    ultimately show ?thesis by auto
  qed
qed

text \<open>Unlinking keeps the key itself and the keys of other values; the counts become too large.\<close>

lemma slot_unlink:
  "slot (unlink_all_but_key1 p m) =
     (\<lambda>q. if q = Key1 p \<or> slot m (Key1 p) = None \<or> slot m q \<noteq> slot m (Key1 p) then slot m q else None)"
  by (rule slotI) (auto simp: unlink_all_but_key1_def split: option.split)

lemma vals_unlink [simp]: "vals (unlink_all_but_key1 p m) = vals m"
  by (simp add: unlink_all_but_key1_def split: option.split)

lemma tkm_unlink_ok:
  assumes "tkm_ok exact m"
  shows "tkm_ok False (unlink_all_but_key1 p m)"
    and "lookup (unlink_all_but_key1 p m) = (\<lambda>q. if q = Key1 p \<or> slot m (Key1 p) = None \<or>
      slot m q \<noteq> slot m (Key1 p) then lookup m q else None)"
  using counted_filter [OF assms [unfolded tkm_ok_def]]
  unfolding tkm_ok_def lookup_def slot_unlink vals_unlink by simp_all

section \<open>The contract of a store with linked keys\<close>

text \<open>
  What the users of the map rely on: a store whose keys are looked up, inserted, linked to
  existing keys, and removed. \<open>inv n\<close> is the invariant after \<open>n\<close> operations; linking needs
  \<open>n\<close> to be below the limit of the reference counts.
\<close>

locale linked_store =
  fixes inv :: "nat \<Rightarrow> 's \<Rightarrow> bool"
    and look :: "'s \<Rightarrow> 'k \<Rightarrow> 'v option"
    and ins :: "'k \<Rightarrow> 'v \<Rightarrow> 's \<Rightarrow> 'v option \<times> 's"
    and lnk :: "'k \<Rightarrow> 'k \<Rightarrow> 's \<Rightarrow> (link_result \<times> 's) run"
    and rem :: "'k \<Rightarrow> 's \<Rightarrow> ('v option \<times> 's) run"
    and limit :: nat
  assumes inv_mono: "inv n s \<Longrightarrow> n \<le> n' \<Longrightarrow> inv n' s"
    and ins_new: "inv n s \<Longrightarrow> look s k = None \<Longrightarrow>
      \<exists>s'. ins k v s = (None, s') \<and> inv (Suc n) s' \<and> look s' = (look s)(k \<mapsto> v)"
    and lnk_new: "inv n s \<Longrightarrow> n < limit \<Longrightarrow> look s k = None \<Longrightarrow> look s e \<noteq> None \<Longrightarrow>
      \<exists>s'. lnk k e s = Ret (LinkSuccess, s') \<and> inv (Suc n) s' \<and> look s' = (look s)(k := look s e)"
    and lnk_taken: "inv n s \<Longrightarrow> look s k \<noteq> None \<Longrightarrow> lnk k e s = Ret (NewKeyAlreadyExists, s)"
    and lnk_missing: "inv n s \<Longrightarrow> look s k = None \<Longrightarrow> look s e = None \<Longrightarrow>
      lnk k e s = Ret (ExistingKeyDoesNotExist, s)"
    and rem_key: "inv n s \<Longrightarrow>
      \<exists>r s'. rem k s = Ret (r, s') \<and> inv n s' \<and> look s' = (look s)(k := None) \<and>
        (r = None \<or> r = look s k)"

text \<open>Sequences of operations, on the store and on the map that specifies it.\<close>

datatype ('k, 'v) store_op = OpInsert 'k 'v | OpLink 'k 'k | OpRemove 'k

fun abs_op :: "('k, 'v) store_op \<Rightarrow> ('k \<Rightarrow> 'v option) \<Rightarrow> 'k \<Rightarrow> 'v option" where
  "abs_op (OpInsert k v) f = f(k \<mapsto> v)"
| "abs_op (OpLink k e) f = (if f k = None then f(k := f e) else f)"
| "abs_op (OpRemove k) f = f(k := None)"

fun fresh_inserts :: "('k, 'v) store_op list \<Rightarrow> ('k \<Rightarrow> 'v option) \<Rightarrow> bool" where
  "fresh_inserts [] f = True"
| "fresh_inserts (op # ops) f =
     ((case op of OpInsert k _ \<Rightarrow> f k = None | _ \<Rightarrow> True) \<and> fresh_inserts ops (abs_op op f))"

fun run_ops :: "('k \<Rightarrow> 'v \<Rightarrow> 's \<Rightarrow> 'v option \<times> 's) \<Rightarrow> ('k \<Rightarrow> 'k \<Rightarrow> 's \<Rightarrow> (link_result \<times> 's) run) \<Rightarrow>
    ('k \<Rightarrow> 's \<Rightarrow> ('v option \<times> 's) run) \<Rightarrow> ('k, 'v) store_op list \<Rightarrow> 's \<Rightarrow> 's run" where
  "run_ops ins lnk rem [] s = Ret s"
| "run_ops ins lnk rem (op # ops) s =
     (case op of
        OpInsert k v \<Rightarrow> run_ops ins lnk rem ops (snd (ins k v s))
      | OpLink k e \<Rightarrow> rbind (lnk k e s) (\<lambda>(_, s'). run_ops ins lnk rem ops s')
      | OpRemove k \<Rightarrow> rbind (rem k s) (\<lambda>(_, s'). run_ops ins lnk rem ops s'))"

context linked_store
begin

lemma lnk_ok:
  assumes "inv n s" and "n < limit"
  shows "\<exists>r s'. lnk k e s = Ret (r, s') \<and> inv (Suc n) s' \<and>
    look s' = (if look s k = None then (look s)(k := look s e) else look s) \<and>
    (r = LinkSuccess \<longleftrightarrow> look s k = None \<and> look s e \<noteq> None) \<and>
    (r = ExistingKeyDoesNotExist \<longleftrightarrow> look s k = None \<and> look s e = None)"
proof (cases "look s k")
  case None
  show ?thesis
  proof (cases "look s e")
    case (Some v)
    with lnk_new [OF assms None, of e] None show ?thesis by auto
  next
    case N: None
    have "(look s)(k := look s e) = look s" using None N by auto
    with lnk_missing [OF assms(1) None N] N None inv_mono [OF assms(1), of "Suc n"] show ?thesis by simp
  qed
next
  case (Some v)
  with lnk_taken [OF assms(1), of k e] inv_mono [OF assms(1), of "Suc n"] show ?thesis by simp
qed

text \<open>Every sequence of operations whose inserts are fresh refines the specification.\<close>

lemma run_ops_refines:
  "inv n s \<Longrightarrow> n + length ops \<le> limit \<Longrightarrow> fresh_inserts ops (look s) \<Longrightarrow>
     \<exists>s'. run_ops ins lnk rem ops s = Ret s' \<and> inv (n + length ops) s' \<and>
       look s' = fold abs_op ops (look s)"
proof (induction ops arbitrary: n s)
  case Nil
  then show ?case by simp
next
  case (Cons op ops)
  have "\<exists>s1. run_ops ins lnk rem (op # ops) s = run_ops ins lnk rem ops s1 \<and> inv (Suc n) s1 \<and>
      look s1 = abs_op op (look s)"
  proof (cases op)
    case (OpInsert k v)
    with Cons.prems(3) ins_new [OF Cons.prems(1), of k v] show ?thesis by auto
  next
    case (OpLink k e)
    with lnk_ok [OF Cons.prems(1), of k e] Cons.prems(2) show ?thesis by auto
  next
    case (OpRemove k)
    obtain r s' where "rem k s = Ret (r, s')" "inv n s'" "look s' = (look s)(k := None)"
      using rem_key [OF Cons.prems(1), of k] by blast
    with OpRemove inv_mono [of n s' "Suc n"] show ?thesis by (intro exI [of _ s']) simp
  qed
  then obtain s1 where s1: "run_ops ins lnk rem (op # ops) s = run_ops ins lnk rem ops s1"
    "inv (Suc n) s1" "look s1 = abs_op op (look s)" by blast
  from Cons.IH [OF s1(2)] s1 Cons.prems(2,3) show ?case by simp
qed

end

section \<open>The map keeps the contract\<close>

definition tkm_inv :: "bool \<Rightarrow> nat \<Rightarrow> ('k1, 'k2, 'k3, 'v) tkm \<Rightarrow> bool" where
  "tkm_inv exact n m \<longleftrightarrow> tkm_ok exact m \<and> (\<forall>x \<in> set (vals m). snd x \<le> n)"

lemma tkm_inv_ok: "tkm_inv exact n m \<Longrightarrow> tkm_ok exact m"
  by (simp add: tkm_inv_def)

lemma tkm_inv_new [simp]: "tkm_inv exact n with_capacities"
  by (simp add: tkm_inv_def tkm_new) (simp add: with_capacities_def)

lemma vals_insert: "tkm_insert k v m = (None, m') \<Longrightarrow> vals m' = vals m @ [(v, 1)]"
  by (cases k) (auto simp: insert_by_key1_def insert_by_key2_def insert_by_key3_def
    insert_by_key_def Let_def split: option.splits)

lemma vals_link: "tkm_link chk k e m = Ret (LinkSuccess, m') \<Longrightarrow> room m \<Longrightarrow>
    \<exists>i < length (vals m). vals m' = (vals m)[i := (fst (vals m ! i), snd (vals m ! i) + 1)]"
  by (cases k) (auto simp: tkm_link_eq inc_count_def room_def rbind_eq_Ret
    split: if_splits option.splits)

lemma counts_butlast:
  assumes "x \<in> set (butlast (ys[i := last ys]))"
  shows "x \<in> set ys"
proof (cases "ys = []")
  case False
  from in_set_butlastD [OF assms] have "x \<in> insert (last ys) (set ys)"
    using set_update_subset_insert by fastforce
  with False show ?thesis by auto
qed (use assms in simp)

lemma vals_remove:
  assumes "tkm_ok exact m" and "tkm_remove chk k m = Ret (r, m')" and "x \<in> set (vals m')"
  shows "\<exists>y \<in> set (vals m). snd x \<le> snd y"
proof (cases "slot m k")
  case None
  with assms(2,3) show ?thesis by (auto simp: tkm_remove_eq [OF assms(1)])
next
  case (Some i)
  have i: "i < length (vals m)"
    using countedD(2) [OF assms(1) [unfolded tkm_ok_def] Some] .
  let ?vs = "(vals m)[i := (fst (vals m ! i), snd (vals m ! i) - 1)]"
  have "vals m' = ?vs \<or> vals m' = butlast (?vs[i := last ?vs])"
    using assms(2) [unfolded tkm_remove_eq [OF assms(1)]] Some i
    by (cases k) (auto simp: Let_def swap_remove_def split: if_splits)
  then have "x \<in> set ?vs" using assms(3) counts_butlast [of x ?vs i] by (elim disjE) simp_all
  then have "x = (fst (vals m ! i), snd (vals m ! i) - 1) \<or> x \<in> set (vals m)"
    using set_update_subset_insert [of "vals m" i] by blast
  then show ?thesis
  proof
    assume "x = (fst (vals m ! i), snd (vals m ! i) - 1)"
    then show ?thesis using i by (intro bexI [of _ "vals m ! i"]) simp_all
  qed blast
qed

lemma vals_unlink_inv: "tkm_inv exact n m \<Longrightarrow> tkm_inv False n (unlink_all_but_key1 p m)"
  using tkm_unlink_ok(1) [of exact m p] by (auto simp: tkm_inv_def)

interpretation tkm: linked_store "tkm_inv exact" lookup tkm_insert "tkm_link chk" "tkm_remove chk" "2 ^ 64 - 1"
  for exact chk
proof unfold_locales
  fix n n' and s :: "('k1, 'k2, 'k3, 'v) tkm"
  show "tkm_inv exact n s \<Longrightarrow> n \<le> n' \<Longrightarrow> tkm_inv exact n' s"
    by (auto simp: tkm_inv_def)
next
  fix n k and v :: 'v and s :: "('k1, 'k2, 'k3, 'v) tkm"
  assume "tkm_inv exact n s" "lookup s k = None"
  then show "\<exists>s'. tkm_insert k v s = (None, s') \<and> tkm_inv exact (Suc n) s' \<and> lookup s' = (lookup s)(k \<mapsto> v)"
    using tkm_insert_new [of exact s k v] vals_insert [of k v s] by (fastforce simp: tkm_inv_def)
next
  fix n k e and s :: "('k1, 'k2, 'k3, 'v) tkm"
  assume a: "tkm_inv exact n s" "n < 2 ^ 64 - 1" "lookup s k = None" "lookup s e \<noteq> None"
  then have room: "room s" by (auto simp: tkm_inv_def room_def)
  from tkm_link_new [OF tkm_inv_ok [OF a(1)] room a(3,4), of chk] obtain s' where
    s': "tkm_link chk k e s = Ret (LinkSuccess, s')" "tkm_ok exact s'"
    "lookup s' = (lookup s)(k := lookup s e)" by blast
  from vals_link [OF s'(1) room] obtain i where i: "i < length (vals s)"
    "vals s' = (vals s)[i := (fst (vals s ! i), snd (vals s ! i) + 1)]" by blast
  have "snd x \<le> Suc n" if "x \<in> set (vals s')" for x
    using that a(1) i set_update_subset_insert [of "vals s" i] by (fastforce simp: tkm_inv_def)
  with s'(2) have "tkm_inv exact (Suc n) s'" by (simp add: tkm_inv_def)
  with s' show "\<exists>s'. tkm_link chk k e s = Ret (LinkSuccess, s') \<and> tkm_inv exact (Suc n) s' \<and>
      lookup s' = (lookup s)(k := lookup s e)" by blast
next
  fix n k and s :: "('k1, 'k2, 'k3, 'v) tkm"
  assume a: "tkm_inv exact n s"
  then have ok: "tkm_ok exact s" by (rule tkm_inv_ok)
  from tkm_remove_ok [OF ok, of chk k] obtain r s' where
    s': "tkm_remove chk k s = Ret (r, s')" "tkm_ok exact s'" "lookup s' = (lookup s)(k := None)"
    "r = None \<or> r = lookup s k" by blast
  have "snd x \<le> n" if "x \<in> set (vals s')" for x
    using vals_remove [OF ok s'(1) that] a by (auto simp: tkm_inv_def intro: order.trans)
  with s' show "\<exists>r s'. tkm_remove chk k s = Ret (r, s') \<and> tkm_inv exact n s' \<and>
      lookup s' = (lookup s)(k := None) \<and> (r = None \<or> r = lookup s k)"
    by (auto simp: tkm_inv_def)
qed (auto dest!: tkm_inv_ok intro: tkm_link_other)

lemma tkm_empty_iff:
  assumes "tkm_ok True m"
  shows "tkm_is_empty m \<longleftrightarrow> lookup m = Map.empty"
proof
  assume "tkm_is_empty m"
  then have "slot m = Map.empty" by (intro slotI) (auto simp: tkm_is_empty_def dom_def)
  then show "lookup m = Map.empty" by (simp add: lookup_def get_by_key_def fun_eq_iff)
next
  assume l: "lookup m = Map.empty"
  have ok: "counted True (slot m) (vals m)" using assms by (simp add: tkm_ok_def)
  have s: "slot m k = None" for k using lookup_dom [OF assms, of k] l by simp
  then have "refs (slot m) i = 0" for i by (simp add: refs_def)
  with countedD(3,5) [OF ok] have "vals m = []" by (metis less_irrefl length_greater_0_conv)
  with s [of "Key1 _"] s [of "Key2 _"] s [of "Key3 _"] show "tkm_is_empty m"
    by (auto simp: tkm_is_empty_def fun_eq_iff)
qed

section \<open>Properties of the map\<close>

text \<open>C7. From the empty map, any sequence of insertions of fresh keys, links and removals runs
  without a panic and computes the map from keys to values that the same updates of a plain map
  give; the reference counts are exact, so a value is kept precisely as long as a key leads to it.\<close>

theorem tkm_refines:
  assumes "fresh_inserts ops Map.empty" and "length ops < 2 ^ 64"
  shows "\<exists>m. run_ops tkm_insert (tkm_link chk) (tkm_remove chk) ops with_capacities = Ret m \<and>
    lookup m = fold abs_op ops Map.empty \<and> tkm_ok True m \<and>
    (tkm_is_empty m \<longleftrightarrow> fold abs_op ops Map.empty = Map.empty)"
proof -
  obtain m where "run_ops tkm_insert (tkm_link chk) (tkm_remove chk) ops with_capacities = Ret m"
    "tkm_inv True (0 + length ops) m" "lookup m = fold abs_op ops Map.empty"
    using tkm.run_ops_refines [of True 0 with_capacities ops chk] assms by (auto simp: tkm_new)
  with tkm_empty_iff [of m] tkm_inv_ok [of True _ m] show ?thesis by auto
qed

theorem tkm_refines_witness:
  "\<exists>m :: (nat, nat, nat, nat) tkm. run_ops tkm_insert (tkm_link True) (tkm_remove True)
     [OpInsert (Key1 1) 10, OpInsert (Key1 2) 20, OpLink (Key3 7) (Key1 2), OpRemove (Key1 1)]
     with_capacities = Ret m \<and> lookup m = [Key1 2 \<mapsto> 20, Key3 7 \<mapsto> 20]"
  using tkm_refines [of "[OpInsert (Key1 1) 10, OpInsert (Key1 2) 20, OpLink (Key3 7) (Key1 2),
    OpRemove (Key1 1)] :: ((nat, nat, nat) tkey, nat) store_op list" True]
  by auto

text \<open>Inserting at a key that is present hands back the new value instead of the old one,
  leaves the key with a dangling position, and so breaks the invariant of the map.\<close>

theorem insert_existing_dangles:
  assumes "tkm_ok exact m" and "get_by_key1 m k \<noteq> None"
  shows "fst (insert_by_key1 k v m) = Some v \<and>
    get_by_key1 (snd (insert_by_key1 k v m)) k = None \<and> \<not> tkm_ok False (snd (insert_by_key1 k v m))"
proof -
  obtain i where i: "key1_map m k = Some i"
    using assms(2) by (auto simp: get_by_key1_def get_by_key_def split: option.splits)
  let ?m = "snd (insert_by_key1 k v m)"
  have m: "insert_by_key1 k v m = (Some v, m\<lparr>key1_map := (key1_map m)(k \<mapsto> length (vals m))\<rparr>)"
    using i by (simp add: insert_by_key1_def insert_by_key_def)
  have "\<not> tkm_ok False ?m"
    using countedD(2) [of False "slot ?m" "vals ?m" "Key1 k" "length (vals m)"]
    by (auto simp: tkm_ok_def m)
  then show ?thesis by (simp add: m get_by_key1_def get_by_key_def)
qed

theorem insert_existing_dangles_witness:
  "fst (insert_by_key1 (3 :: nat) (20 :: nat) (snd (tkm_insert (Key1 3) 10
     (with_capacities :: (nat, nat, nat, nat) tkm)))) = Some 20"
proof -
  obtain m :: "(nat, nat, nat, nat) tkm" where m: "tkm_insert (Key1 3) 10 with_capacities = (None, m)"
    "tkm_ok True m" "lookup m = (lookup with_capacities)(Key1 3 \<mapsto> 10)"
    using tkm_insert_new [OF tkm_new(1), of "Key1 (3 :: nat)" "10 :: nat" True] by (auto simp: tkm_new)
  have "get_by_key1 m 3 \<noteq> None" using fun_cong [OF m(3), of "Key1 3"] by simp
  from insert_existing_dangles [OF m(2) this, of 20] m(1) show ?thesis by simp
qed

text \<open>\<open>unlink_all_but_key1\<close> drops keys but not their counts: after unlinking, removing the last
  key returns nothing, and the value stays in the vector with no key that leads to it.\<close>

theorem unlink_leaks_value:
  "\<exists>m1 m2. link_key2_to_key1 chk a p (snd (insert_by_key1 p v with_capacities)) = Ret (LinkSuccess, m1) \<and>
     remove_by_key1 chk p (unlink_all_but_key1 p m1) = Ret (None, m2) \<and>
     lookup m2 = Map.empty \<and> map fst (vals m2) = [v] \<and> \<not> tkm_is_empty m2"
proof -
  let ?m = "snd (insert_by_key1 p v with_capacities)"
  have 1: "link_key2_to_key1 chk a p ?m = Ret (LinkSuccess, \<lparr>key1_map = [p \<mapsto> 0],
      key2_map = [a \<mapsto> 0], key3_map = Map.empty, vals = [(v, 2)]\<rparr>)"
    by (simp add: link_key2_to_key1_def link_key_to_key_def insert_by_key1_def insert_by_key_def
      with_capacities_def inc_count_def Let_def usize_add_def)
  let ?m1 = "\<lparr>key1_map = [p \<mapsto> 0], key2_map = [a \<mapsto> 0], key3_map = Map.empty, vals = [(v, 2)]\<rparr>"
  let ?m2 = "\<lparr>key1_map = Map.empty, key2_map = Map.empty, key3_map = Map.empty, vals = [(v, 1)]\<rparr>"
  have u: "unlink_all_but_key1 p ?m1 = \<lparr>key1_map = [p \<mapsto> 0], key2_map = Map.empty,
      key3_map = Map.empty, vals = [(v, 2)]\<rparr>"
    by (auto simp: unlink_all_but_key1_def fun_eq_iff)
  have 2: "remove_by_key1 chk p (unlink_all_but_key1 p ?m1) = Ret (None, ?m2)"
    unfolding u by (simp add: remove_by_key1_def)
  have s: "slot ?m2 = Map.empty" by (rule slotI) simp_all
  have 3: "lookup ?m2 = Map.empty" "\<not> tkm_is_empty ?m2"
    unfolding lookup_def s by (simp_all add: get_by_key_def fun_eq_iff tkm_is_empty_def)
  show ?thesis
    by (rule exI [of _ ?m1], rule exI [of _ ?m2]) (use 1 2 3 in simp)
qed

end
