(* ===== verification/Stub_Demux.thy ===== *)
theory Stub_Demux
  imports Three_Key_Map Vhci
begin

text \<open>
  The demultiplexer of \<^verbatim>\<open>crates/qusb/src/stub.rs\<close>: one task owns the VHCI controller, hands
  each work item of the driver to the mailbox of the device it belongs to, and learns from the
  items which addresses and which requests belong to which port. A mailbox (a channel) is a
  number; \<open>mailboxes\<close> holds what has been sent to it. The calls of the driver run on other
  threads: \<open>jobs\<close> are the calls started, their outcomes come back as events.
\<close>

section \<open>State and events\<close>

datatype register_port = AnyPort | ThisPort port

text \<open>A request carries the number of the one-shot channel for its answer.\<close>

datatype 'd controller_job =
    JobConnect register_port 'd nat
  | JobDisconnect port nat

datatype controller_result =
    CrRegister "io_error + port" nat
  | CrDisconnect "io_error + unit" nat

datatype 'd demux_event =
    DRegister register_port 'd nat
  | DGivebackUrb urb_handle
  | DDisconnect port nat
  | DWork work
  | DController controller_result

datatype demux_answer =
    Registered "io_error + port \<times> nat"
  | Disconnected "io_error + unit"

type_synonym mailer = "(port, address, urb_handle, nat) tkm"

record 'd demux =
  register_queue :: "port list"
  mailer :: mailer
  mailboxes :: "nat \<Rightarrow> work list"
  next_mailbox :: nat
  jobs :: "'d controller_job list"
  answers :: "(nat \<times> demux_answer) list"

definition demux_start :: "'d demux" where
  "demux_start = \<lparr>register_queue = [], mailer = with_capacities, mailboxes = (\<lambda>_. []),
     next_mailbox = 0, jobs = [], answers = []\<rparr>"

section \<open>Routing a work item\<close>

definition enumerates :: "ioc_port_stat \<Rightarrow> bool" where
  "enumerates stat \<longleftrightarrow> PC_RESET \<in> ps_change stat \<and> PS_RESET \<notin> ps_status stat \<and> PS_ENABLE \<in> ps_status stat"

definition route_port_stat :: "ioc_port_stat \<Rightarrow> port list \<Rightarrow> mailer \<Rightarrow> nat option \<times> port list \<times> mailer" where
  "route_port_stat stat queue m =
     (if enumerates stat \<and> ps_index stat \<notin> set queue then
        (let m' = unlink_all_but_key1 (ps_index stat) m
         in (get_by_key1 m' (ps_index stat), queue @ [ps_index stat], m'))
      else (get_by_key1 m (ps_index stat), queue, m))"

definition route_set_address :: "bool \<Rightarrow> vhci_ops \<Rightarrow> ioc_urb \<Rightarrow> urb_handle \<Rightarrow> port list \<Rightarrow> mailer \<Rightarrow>
    (nat option \<times> port list \<times> mailer) run" where
  "route_set_address chk V urb hnd queue m =
     rbind (unwrap (address_new V (ucast (setup_value V (iu_setup_packet urb))))) (\<lambda>address.
     rbind (case queue of [] \<Rightarrow> Panic | p # ps \<Rightarrow> Ret (p, ps)) (\<lambda>(prt, queue').
     rbind (unwrap (address_new V 0)) (\<lambda>zero.
     rbind (remove_by_key2 zero m) (\<lambda>(_, m1).
     rbind (link_key2_to_key1 chk address prt m1) (\<lambda>(_, m2).
     rbind (link_key3_to_key1 chk hnd prt m2) (\<lambda>(r, m3).
     rbind (assert_that (r = LinkSuccess)) (\<lambda>_.
       Ret (get_by_key1 m3 prt, queue', m3))))))))"

definition route_unassigned :: "bool \<Rightarrow> urb_handle \<Rightarrow> port list \<Rightarrow> mailer \<Rightarrow>
    (nat option \<times> port list \<times> mailer) run" where
  "route_unassigned chk hnd queue m =
     rbind (case queue of [] \<Rightarrow> Panic | p # _ \<Rightarrow> Ret p) (\<lambda>prt.
     rbind (link_key3_to_key1 chk hnd prt m) (\<lambda>(r, m').
     rbind (assert_that (r = LinkSuccess)) (\<lambda>_.
       Ret (get_by_key1 m' prt, queue, m'))))"

definition route_address :: "bool \<Rightarrow> address \<Rightarrow> urb_handle \<Rightarrow> port list \<Rightarrow> mailer \<Rightarrow>
    (nat option \<times> port list \<times> mailer) run" where
  "route_address chk a hnd queue m =
     rbind (link_key3_to_key2 chk hnd a m) (\<lambda>(r, m').
     rbind (assert_that (r \<noteq> ExistingKeyDoesNotExist)) (\<lambda>_.
       Ret (get_by_key2 m' a, queue, m')))"

definition route :: "bool \<Rightarrow> vhci_ops \<Rightarrow> work \<Rightarrow> port list \<Rightarrow> mailer \<Rightarrow>
    (nat option \<times> port list \<times> mailer) run" where
  "route chk V w queue m =
     (case w of
        PortStat stat \<Rightarrow> Ret (route_port_stat stat queue m)
      | ProcessUrb urb hnd \<Rightarrow>
          (if iu_typ urb = UrbCtrl \<and> is_for_unassigned V (iu_address urb) \<and>
              is_anycast V (iu_endpoint urb) \<and> queue \<noteq> [] \<and>
              setup_req V (iu_setup_packet urb) = STANDARD_DEVICE_SET_ADDRESS
           then route_set_address chk V urb hnd queue m
           else if iu_typ urb = UrbCtrl \<and> is_for_unassigned V (iu_address urb) \<and> queue \<noteq> []
           then route_unassigned chk hnd queue m
           else route_address chk (iu_address urb) hnd queue m)
      | CancelUrb hnd \<Rightarrow>
          rbind (remove_by_key3 hnd m) (\<lambda>(_, m'). Ret (get_by_key3 m hnd, queue, m')))"

section \<open>The loop\<close>

text \<open>\<open>listening\<close> tells whether the other end of a one-shot channel is still there.\<close>

definition demux_step :: "bool \<Rightarrow> vhci_ops \<Rightarrow> (nat \<Rightarrow> bool) \<Rightarrow> 'd demux_event \<Rightarrow> 'd demux \<Rightarrow> 'd demux run" where
  "demux_step chk V listening ev s =
     (case ev of
        DRegister prt rate tx \<Rightarrow> Ret (s\<lparr>jobs := jobs s @ [JobConnect prt rate tx]\<rparr>)
      | DGivebackUrb hnd \<Rightarrow> rbind (remove_by_key3 hnd (mailer s)) (\<lambda>(_, m). Ret (s\<lparr>mailer := m\<rparr>))
      | DDisconnect prt tx \<Rightarrow> Ret (s\<lparr>jobs := jobs s @ [JobDisconnect prt tx]\<rparr>)
      | DWork w \<Rightarrow>
          rbind (route chk V w (register_queue s) (mailer s)) (\<lambda>(tx, queue, m).
            let s' = s\<lparr>register_queue := queue, mailer := m\<rparr>
            in Ret (case tx of
                      Some b \<Rightarrow> s'\<lparr>mailboxes := (mailboxes s)(b := mailboxes s b @ [w])\<rparr>
                    | None \<Rightarrow> s'))
      | DController (CrRegister (Inr prt) tx) \<Rightarrow>
          (let b = next_mailbox s
           in case insert_by_key1 prt b (mailer s) of (old, m) \<Rightarrow>
             rbind (assert_that (old = None)) (\<lambda>_.
             rbind (assert_that (listening tx)) (\<lambda>_.
               Ret (s\<lparr>mailer := m, next_mailbox := b + 1,
                 answers := answers s @ [(tx, Registered (Inr (prt, b)))]\<rparr>))))
      | DController (CrRegister (Inl err) tx) \<Rightarrow>
          Ret (if listening tx then s\<lparr>answers := answers s @ [(tx, Registered (Inl err))]\<rparr> else s)
      | DController (CrDisconnect result tx) \<Rightarrow>
          Ret (if listening tx then s\<lparr>answers := answers s @ [(tx, Disconnected result)]\<rparr> else s))"

fun demux_run :: "bool \<Rightarrow> vhci_ops \<Rightarrow> (nat \<Rightarrow> bool) \<Rightarrow> 'd demux_event list \<Rightarrow> 'd demux \<Rightarrow> 'd demux run" where
  "demux_run chk V listening [] s = Ret s"
| "demux_run chk V listening (ev # evs) s =
     rbind (demux_step chk V listening ev s) (demux_run chk V listening evs)"

section \<open>Fetching work\<close>

text \<open>
  \<^verbatim>\<open>recv_work\<close>: each answer of the driver comes with whether the channel has been closed by
  the time it was handled. The result is the items passed on, and how the loop ended, if it did.
\<close>

datatype fetch_error = FetchTimedOut | FetchInterrupted | FetchNoData | FetchFailed io_error

fun recv_work_loop :: "((fetch_error + work) \<times> bool) list \<Rightarrow> work list \<times> (io_error + unit) option" where
  "recv_work_loop [] = ([], None)"
| "recv_work_loop ((Inl (FetchFailed err), _) # _) = ([], Some (Inl err))"
| "recv_work_loop ((Inl _, closed) # rs) = (if closed then ([], Some (Inr ())) else recv_work_loop rs)"
| "recv_work_loop ((Inr w, closed) # rs) =
     (if closed then ([w], Some (Inr ()))
      else case recv_work_loop rs of (ws, r) \<Rightarrow> (w # ws, r))"

definition recv_work :: "bool \<Rightarrow> ((fetch_error + work) \<times> bool) list \<Rightarrow> work list \<times> (io_error + unit) option" where
  "recv_work closed rs = (if closed then ([], Some (Inr ())) else recv_work_loop rs)"

section \<open>The specification: one map from keys to mailboxes\<close>

type_synonym boxes = "(port, address, urb_handle) tkey \<Rightarrow> nat option"

text \<open>A request is linked to the mailbox of an existing key.\<close>

definition spec_link :: "urb_handle \<Rightarrow> (port, address, urb_handle) tkey \<Rightarrow> port list \<Rightarrow> boxes \<Rightarrow>
    (nat option \<times> port list \<times> boxes) run" where
  "spec_link hnd k queue f =
     (if f (Key3 hnd) = None \<and> f k \<noteq> None then Ret (f k, queue, f(Key3 hnd := f k)) else Panic)"

definition spec_unlink :: "port \<Rightarrow> boxes \<Rightarrow> boxes" where
  "spec_unlink p f = (\<lambda>q. if q = Key1 p \<or> f (Key1 p) = None \<or> f q \<noteq> f (Key1 p) then f q else None)"

text \<open>The address moves to the port, unless it is already linked.\<close>

definition spec_address :: "address \<Rightarrow> address \<Rightarrow> port \<Rightarrow> boxes \<Rightarrow> boxes" where
  "spec_address zero a p f =
     (let f1 = f(Key2 zero := None) in if f1 (Key2 a) = None then f1(Key2 a := f1 (Key1 p)) else f1)"

definition spec_route :: "vhci_ops \<Rightarrow> work \<Rightarrow> port list \<Rightarrow> boxes \<Rightarrow> (nat option \<times> port list \<times> boxes) run" where
  "spec_route V w queue f =
     (case w of
        PortStat stat \<Rightarrow>
          Ret (f (Key1 (ps_index stat)),
            if enumerates stat \<and> ps_index stat \<notin> set queue
            then (queue @ [ps_index stat], spec_unlink (ps_index stat) f) else (queue, f))
      | ProcessUrb urb hnd \<Rightarrow>
          (if iu_typ urb = UrbCtrl \<and> is_for_unassigned V (iu_address urb) \<and>
              is_anycast V (iu_endpoint urb) \<and> queue \<noteq> [] \<and>
              setup_req V (iu_setup_packet urb) = STANDARD_DEVICE_SET_ADDRESS
           then
             (case (address_new V (ucast (setup_value V (iu_setup_packet urb))), queue, address_new V 0) of
                (Some a, p # ps, Some zero) \<Rightarrow>
                  spec_link hnd (Key1 p) ps (spec_address zero a p f)
              | _ \<Rightarrow> Panic)
           else if iu_typ urb = UrbCtrl \<and> is_for_unassigned V (iu_address urb) \<and> queue \<noteq> []
           then spec_link hnd (Key1 (hd queue)) queue f
           else if f (Key3 hnd) \<noteq> None then Ret (f (Key2 (iu_address urb)), queue, f)
           else spec_link hnd (Key2 (iu_address urb)) queue f)
      | CancelUrb hnd \<Rightarrow> Ret (f (Key3 hnd), queue, f(Key3 hnd := None)))"

section \<open>Facts: the mailer refines the specification\<close>

text \<open>The values are distinct mailboxes, so keys with equal values have equal positions.\<close>

definition boxes_of :: "mailer \<Rightarrow> nat set" where
  "boxes_of m = set (map fst (vals m))"

definition mail_ok :: "nat \<Rightarrow> mailer \<Rightarrow> bool" where
  "mail_ok n m \<longleftrightarrow> tkm_inv False n m \<and> distinct (map fst (vals m))"

lemma mail_okD: "mail_ok n m \<Longrightarrow> tkm_inv False n m" "mail_ok n m \<Longrightarrow> distinct (map fst (vals m))"
  "mail_ok n m \<Longrightarrow> tkm_ok False m"
  by (auto simp: mail_ok_def tkm_inv_def)

lemma map_fst_count: "i < length vs \<Longrightarrow> map fst (vs[i := (fst (vs ! i), c)]) = map fst vs"
  by (rule nth_equalityI) (auto simp: nth_list_update)

lemma inc_count_fst: "inc_count chk i vs = Ret vs' \<Longrightarrow> map fst vs' = map fst vs"
  by (auto simp: inc_count_def rbind_eq_Ret map_fst_count split: if_splits)

lemma link_boxes: "tkm_link chk k e m = Ret (r, m') \<Longrightarrow> map fst (vals m') = map fst (vals m)"
  by (cases k) (auto simp: tkm_link_eq rbind_eq_Ret dest: inc_count_fst split: if_splits option.splits)

lemma distinct_swap:
  assumes "distinct xs" and "i < length xs"
  shows "distinct (butlast (xs[i := last xs])) \<and> set (butlast (xs[i := last xs])) \<subseteq> set xs"
proof -
  obtain ys l where xs: "xs = ys @ [l]" using assms(2) by (cases xs rule: rev_cases) auto
  show ?thesis
  proof (cases "i < length ys")
    case True
    with assms(1) xs show ?thesis
      by (auto simp: list_update_append distinct_list_update dest: set_update_subset_insert [THEN subsetD])
  next
    case False
    with assms xs show ?thesis by (auto simp: list_update_append)
  qed
qed

lemma remove_boxes:
  assumes "tkm_ok False m" and "distinct (map fst (vals m))" and "tkm_remove chk k m = Ret (r, m')"
  shows "distinct (map fst (vals m')) \<and> set (map fst (vals m')) \<subseteq> set (map fst (vals m))"
proof (cases "slot m k")
  case None
  then have "m' = m" using assms(3) by (simp add: tkm_remove_eq [OF assms(1)])
  then show ?thesis using assms(2) by simp
next
  case (Some i)
  let ?vs = "(vals m)[i := (fst (vals m ! i), snd (vals m ! i) - 1)]"
  have i: "i < length (vals m)"
    by (rule countedD(2) [OF assms(1) [unfolded tkm_ok_def] Some])
  have vs: "map fst ?vs = map fst (vals m)" using i by (rule map_fst_count)
  show ?thesis
  proof (cases "snd (vals m ! i) = 1")
    case False
    with Some have "vals m' = ?vs"
      using assms(3) [unfolded tkm_remove_eq [OF assms(1)]] by (cases k) (auto simp: Let_def)
    then show ?thesis using vs assms(2) by simp
  next
    case True
    have "vals m' = butlast (?vs[i := last ?vs])"
      using Some True i assms(3) [unfolded tkm_remove_eq [OF assms(1)]]
      by (cases k) (auto simp: Let_def swap_remove_def)
    then have "map fst (vals m') = butlast ((map fst ?vs)[i := last (map fst ?vs)])"
      using last_map [of ?vs fst] i by (simp only: map_butlast map_update [of fst ?vs] list_update_nonempty) force
    with distinct_swap [OF assms(2)] i vs show ?thesis by simp
  qed
qed

lemma mail_link:
  assumes "mail_ok n m" and "n < 2 ^ 64 - 1"
  shows "\<exists>r m'. tkm_link chk k e m = Ret (r, m') \<and> mail_ok (Suc n) m' \<and>
    boxes_of m' = boxes_of m \<and>
    lookup m' = (if lookup m k = None then (lookup m)(k := lookup m e) else lookup m) \<and>
    (r = LinkSuccess \<longleftrightarrow> lookup m k = None \<and> lookup m e \<noteq> None) \<and>
    (r = ExistingKeyDoesNotExist \<longleftrightarrow> lookup m k = None \<and> lookup m e = None)"
proof -
  obtain r m' where l: "tkm_link chk k e m = Ret (r, m')" "tkm_inv False (Suc n) m'"
    "lookup m' = (if lookup m k = None then (lookup m)(k := lookup m e) else lookup m)"
    "r = LinkSuccess \<longleftrightarrow> lookup m k = None \<and> lookup m e \<noteq> None"
    "r = ExistingKeyDoesNotExist \<longleftrightarrow> lookup m k = None \<and> lookup m e = None"
    using tkm.lnk_ok [OF mail_okD(1) [OF assms(1)] assms(2), of chk k e] by blast
  with link_boxes [OF l(1)] assms(1) show ?thesis by (auto simp: mail_ok_def boxes_of_def simp del: set_map)
qed

lemma mail_remove:
  assumes "mail_ok n m"
  shows "\<exists>r m'. tkm_remove chk k m = Ret (r, m') \<and> mail_ok n m' \<and>
    boxes_of m' \<subseteq> boxes_of m \<and> lookup m' = (lookup m)(k := None)"
proof -
  obtain r m' where "tkm_remove chk k m = Ret (r, m')" "tkm_inv False n m'" "lookup m' = (lookup m)(k := None)"
    using tkm.rem_key [OF mail_okD(1) [OF assms], of chk k] by blast
  with remove_boxes [OF mail_okD(3,2) [OF assms]] assms show ?thesis
    unfolding mail_ok_def boxes_of_def by blast
qed

lemma mail_unlink:
  assumes "mail_ok n m"
  shows "mail_ok n (unlink_all_but_key1 p m)" and "boxes_of (unlink_all_but_key1 p m) = boxes_of m"
    and "lookup (unlink_all_but_key1 p m) = spec_unlink p (lookup m)"
proof -
  show "mail_ok n (unlink_all_but_key1 p m)"
    using assms tkm_unlink_ok(1) [OF mail_okD(3) [OF assms], of p] by (simp add: mail_ok_def tkm_inv_def)
  show "boxes_of (unlink_all_but_key1 p m) = boxes_of m" by (simp add: boxes_of_def)
  have "slot m q = slot m (Key1 p) \<longleftrightarrow> lookup m q = lookup m (Key1 p)"
    if "slot m (Key1 p) \<noteq> None" "slot m q \<noteq> None" for q
  proof -
    from that obtain i j where s: "slot m (Key1 p) = Some i" "slot m q = Some j" by auto
    have c: "counted False (slot m) (vals m)" using mail_okD(3) [OF assms] by (simp add: tkm_ok_def)
    have "i < length (vals m)" "j < length (vals m)"
      using countedD(2) [OF c s(1)] countedD(2) [OF c s(2)] .
    with s nth_eq_iff_index_eq [OF mail_okD(2) [OF assms], of j i] show ?thesis
      by (simp add: lookup_def get_by_key_def)
  qed
  then show "lookup (unlink_all_but_key1 p m) = spec_unlink p (lookup m)"
    using lookup_dom [OF mail_okD(3) [OF assms]]
    unfolding tkm_unlink_ok(2) [OF mail_okD(3) [OF assms]] spec_unlink_def by (intro ext) metis
qed

lemma mail_insert:
  assumes "mail_ok n m" and "lookup m (Key1 p) = None" and "b \<notin> boxes_of m"
  shows "\<exists>m'. insert_by_key1 p b m = (None, m') \<and> mail_ok (Suc n) m' \<and>
    boxes_of m' = insert b (boxes_of m) \<and> lookup m' = (lookup m)(Key1 p \<mapsto> b)"
proof -
  obtain m' where "tkm_insert (Key1 p) b m = (None, m')" "tkm_inv False (Suc n) m'"
    "lookup m' = (lookup m)(Key1 p \<mapsto> b)"
    using tkm.ins_new [OF mail_okD(1) [OF assms(1)] assms(2), of b] by blast
  moreover have "key1_map m p = None"
    using lookup_dom [OF mail_okD(3) [OF assms(1)], of "Key1 p"] assms(2) by simp
  then have "vals m' = vals m @ [(b, 1)]"
    using calculation(1) by (auto simp: insert_by_key1_def insert_by_key_def)
  ultimately show ?thesis using assms by (auto simp: mail_ok_def boxes_of_def)
qed

abbreviation view_route :: "nat option \<times> port list \<times> mailer \<Rightarrow> nat option \<times> port list \<times> boxes" where
  "view_route \<equiv> \<lambda>(tx, queue, m). (tx, queue, lookup m)"

text \<open>\<open>refines_route\<close>: the result of a routing step is the specified one, and leaves the mailer intact.\<close>

definition refines_route :: "nat \<Rightarrow> mailer \<Rightarrow> (nat option \<times> port list \<times> mailer) run \<Rightarrow>
    (nat option \<times> port list \<times> boxes) run \<Rightarrow> bool" where
  "refines_route n m res spec \<longleftrightarrow> map_run view_route res = spec \<and>
     (\<forall>tx queue m'. res = Ret (tx, queue, m') \<longrightarrow> mail_ok (n + 2) m' \<and>
        boxes_of m' \<subseteq> boxes_of m)"

lemma mail_ok_mono: "mail_ok n m \<Longrightarrow> n \<le> n' \<Longrightarrow> mail_ok n' m"
  by (auto simp: mail_ok_def intro: tkm.inv_mono)

lemma link3_refines:
  assumes "mail_ok n m" and "n < 2 ^ 64 - 1" and "n \<le> Suc k" and "boxes_of m \<subseteq> boxes_of m0"
  shows "refines_route k m0 (rbind (tkm_link chk (Key3 hnd) e m) (\<lambda>(r, m').
      rbind (assert_that (r = LinkSuccess)) (\<lambda>_. Ret (lookup m' e, queue, m'))))
    (spec_link hnd e queue (lookup m))"
proof -
  obtain r m' where l: "tkm_link chk (Key3 hnd) e m = Ret (r, m')" "mail_ok (Suc n) m'"
    "boxes_of m' = boxes_of m"
    "lookup m' = (if lookup m (Key3 hnd) = None then (lookup m)(Key3 hnd := lookup m e) else lookup m)"
    "r = LinkSuccess \<longleftrightarrow> lookup m (Key3 hnd) = None \<and> lookup m e \<noteq> None"
    using mail_link [OF assms(1,2), of chk "Key3 hnd" e] by blast
  have "mail_ok (k + 2) m'" by (rule mail_ok_mono [OF l(2)]) (use assms(3) in simp)
  with l assms(4) show ?thesis
    by (auto simp: refines_route_def spec_link_def assert_that_def split: if_splits)
qed

lemma route_address_refines:
  assumes "mail_ok n m" and "n < 2 ^ 64 - 1"
  shows "refines_route n m (route_address chk a hnd queue m)
    (if lookup m (Key3 hnd) \<noteq> None then Ret (lookup m (Key2 a), queue, lookup m)
     else spec_link hnd (Key2 a) queue (lookup m))"
proof -
  obtain r m' where l: "link_key3_to_key2 chk hnd a m = Ret (r, m')" "mail_ok (Suc n) m'"
    "boxes_of m' = boxes_of m"
    "lookup m' = (if lookup m (Key3 hnd) = None then (lookup m)(Key3 hnd := lookup m (Key2 a)) else lookup m)"
    "r = ExistingKeyDoesNotExist \<longleftrightarrow> lookup m (Key3 hnd) = None \<and> lookup m (Key2 a) = None"
    using mail_link [OF assms, of chk "Key3 hnd" "Key2 a"] unfolding tkm_link.simps by blast
  have "mail_ok (n + 2) m'" by (rule mail_ok_mono [OF l(2)]) simp
  moreover have "get_by_key2 m' a = lookup m' (Key2 a)" by simp
  ultimately show ?thesis using l
    by (auto simp: refines_route_def spec_link_def route_address_def assert_that_def
      simp del: lookup_simps split: if_splits)
qed

lemma route_unassigned_refines:
  assumes "mail_ok n m" and "n < 2 ^ 64 - 1" and "queue \<noteq> []"
  shows "refines_route n m (route_unassigned chk hnd queue m) (spec_link hnd (Key1 (hd queue)) queue (lookup m))"
proof -
  obtain p ps where q: "queue = p # ps" using assms(3) by (cases queue) auto
  have "route_unassigned chk hnd queue m = rbind (tkm_link chk (Key3 hnd) (Key1 p) m) (\<lambda>(r, m').
      rbind (assert_that (r = LinkSuccess)) (\<lambda>_. Ret (lookup m' (Key1 p), queue, m')))"
    by (simp add: route_unassigned_def q)
  moreover have "refines_route n m \<dots> (spec_link hnd (Key1 p) queue (lookup m))"
    by (rule link3_refines [OF assms(1,2)]) simp_all
  ultimately show ?thesis by (simp add: q)
qed

lemma route_set_address_refines:
  assumes "mail_ok n m" and "n + 1 < 2 ^ 64 - 1" and "queue \<noteq> []"
  shows "refines_route n m (route_set_address chk V urb hnd queue m)
    (case (address_new V (ucast (setup_value V (iu_setup_packet urb))), queue, address_new V 0) of
       (Some a, p # ps, Some zero) \<Rightarrow>
         spec_link hnd (Key1 p) ps (spec_address zero a p (lookup m))
     | _ \<Rightarrow> Panic)"
proof -
  obtain p ps where q: "queue = p # ps" using assms(3) by (cases queue) auto
  show ?thesis
  proof (cases "address_new V (ucast (setup_value V (iu_setup_packet urb))) = None \<or> address_new V 0 = None")
    case True
    then show ?thesis by (auto simp: refines_route_def route_set_address_def q split: option.split)
  next
    case False
    then obtain a zero where az: "address_new V (ucast (setup_value V (iu_setup_packet urb))) = Some a"
      "address_new V 0 = Some zero" by auto
    obtain r1 m1 where r1: "remove_by_key2 zero m = Ret (r1, m1)" "mail_ok n m1"
      "boxes_of m1 \<subseteq> boxes_of m" "lookup m1 = (lookup m)(Key2 zero := None)"
      using mail_remove [OF assms(1), of chk "Key2 zero"] unfolding tkm_remove.simps by blast
    have n: "n < 2 ^ 64 - 1" "Suc n < 2 ^ 64 - 1" using assms(2) by simp_all
    obtain r2 m2 where r2: "link_key2_to_key1 chk a p m1 = Ret (r2, m2)" "mail_ok (Suc n) m2"
      "boxes_of m2 = boxes_of m1"
      "lookup m2 = (if lookup m1 (Key2 a) = None then (lookup m1)(Key2 a := lookup m1 (Key1 p)) else lookup m1)"
      using mail_link [OF r1(2) n(1), of chk "Key2 a" "Key1 p"] unfolding tkm_link.simps by blast
    have "route_set_address chk V urb hnd queue m = rbind (tkm_link chk (Key3 hnd) (Key1 p) m2) (\<lambda>(r, m').
        rbind (assert_that (r = LinkSuccess)) (\<lambda>_. Ret (lookup m' (Key1 p), ps, m')))"
      by (simp add: route_set_address_def q az r1(1) r2(1))
    moreover have "refines_route n m \<dots> (spec_link hnd (Key1 p) ps (lookup m2))"
      by (rule link3_refines [OF r2(2) n(2)]) (use r1(3) r2(3) in simp_all)
    ultimately show ?thesis
      by (simp only: az q option.case list.case prod.case Let_def spec_address_def r1(4) [symmetric] r2(4) [symmetric])
  qed
qed

lemma route_refines:
  assumes "mail_ok n m" and "n + 1 < 2 ^ 64 - 1"
  shows "refines_route n m (route chk V w queue m) (spec_route V w queue (lookup m))"
proof (cases w)
  case (PortStat stat)
  have "mail_ok (n + 2) m" by (rule mail_ok_mono [OF assms(1)]) simp
  moreover have "mail_ok (n + 2) (unlink_all_but_key1 p m)" for p
    by (rule mail_ok_mono [OF mail_unlink(1) [OF assms(1)]]) simp
  moreover have "get_by_key1 (unlink_all_but_key1 p m) p = get_by_key1 m p" for p
    using fun_cong [OF mail_unlink(3) [OF assms(1), of p], of "Key1 p"] by (simp add: spec_unlink_def)
  ultimately show ?thesis using PortStat mail_unlink(2,3) [OF assms(1)]
    by (simp add: refines_route_def route_def route_port_stat_def spec_route_def Let_def)
next
  case (CancelUrb hnd)
  obtain r m' where "remove_by_key3 hnd m = Ret (r, m')" "mail_ok n m'" "boxes_of m' \<subseteq> boxes_of m"
    "lookup m' = (lookup m)(Key3 hnd := None)"
    using mail_remove [OF assms(1), of chk "Key3 hnd"] unfolding tkm_remove.simps by blast
  then show ?thesis using CancelUrb mail_ok_mono [of n m' "n + 2"]
    by (simp add: refines_route_def route_def spec_route_def)
next
  case (ProcessUrb urb hnd)
  have n: "n < 2 ^ 64 - 1" using assms(2) by simp
  have if_refines: "refines_route n m (if c then x else if d then y else z) (if c then x' else if d then y' else z')"
    if "c \<Longrightarrow> refines_route n m x x'" "d \<Longrightarrow> refines_route n m y y'" "refines_route n m z z'" for c d x y z x' y' z'
    using that by simp
  show ?thesis
    unfolding route_def spec_route_def ProcessUrb work.case
    by (rule if_refines) (use route_set_address_refines [OF assms] route_unassigned_refines [OF assms(1) n]
      route_address_refines [OF assms(1) n] in simp_all)
qed

section \<open>The loop refines its specification\<close>

record router =
  r_queue :: "port list"
  r_boxes :: boxes
  r_mail :: "nat \<Rightarrow> work list"
  r_next :: nat

definition spec_start :: router where
  "spec_start = \<lparr>r_queue = [], r_boxes = Map.empty, r_mail = (\<lambda>_. []), r_next = 0\<rparr>"

definition spec_step :: "vhci_ops \<Rightarrow> (nat \<Rightarrow> bool) \<Rightarrow> 'd demux_event \<Rightarrow> router \<Rightarrow> router run" where
  "spec_step V listening ev s =
     (case ev of
        DGivebackUrb hnd \<Rightarrow> Ret (s\<lparr>r_boxes := (r_boxes s)(Key3 hnd := None)\<rparr>)
      | DWork w \<Rightarrow>
          rbind (spec_route V w (r_queue s) (r_boxes s)) (\<lambda>(tx, queue, f).
            Ret (s\<lparr>r_queue := queue, r_boxes := f,
              r_mail := (case tx of Some b \<Rightarrow> (r_mail s)(b := r_mail s b @ [w]) | None \<Rightarrow> r_mail s)\<rparr>))
      | DController (CrRegister (Inr prt) tx) \<Rightarrow>
          if r_boxes s (Key1 prt) = None \<and> listening tx
          then Ret (s\<lparr>r_boxes := (r_boxes s)(Key1 prt \<mapsto> r_next s), r_next := r_next s + 1\<rparr>) else Panic
      | _ \<Rightarrow> Ret s)"

fun spec_run :: "vhci_ops \<Rightarrow> (nat \<Rightarrow> bool) \<Rightarrow> 'd demux_event list \<Rightarrow> router \<Rightarrow> router run" where
  "spec_run V listening [] s = Ret s"
| "spec_run V listening (ev # evs) s = rbind (spec_step V listening ev s) (spec_run V listening evs)"

definition view :: "'d demux \<Rightarrow> router" where
  "view s = \<lparr>r_queue = register_queue s, r_boxes = lookup (mailer s), r_mail = mailboxes s,
     r_next = next_mailbox s\<rparr>"

definition demux_inv :: "nat \<Rightarrow> 'd demux \<Rightarrow> bool" where
  "demux_inv n s \<longleftrightarrow> mail_ok n (mailer s) \<and> (\<forall>b \<in> boxes_of (mailer s). b < next_mailbox s)"

lemma demux_start_ok: "demux_inv n demux_start" "view demux_start = spec_start"
  by (simp_all add: demux_inv_def demux_start_def mail_ok_def boxes_of_def with_capacities_def view_def
    spec_start_def tkm_new(2) [unfolded with_capacities_def] tkm_inv_new [unfolded with_capacities_def])

lemma map_run_simps [simp]: "map_run f (rbind x g) = rbind x (\<lambda>y. map_run f (g y))"
  by (cases x) simp_all

lemma demux_step_refines:
  assumes inv: "demux_inv n s" and n: "n + 1 < 2 ^ 64 - 1"
  shows "map_run view (demux_step chk V listening ev s) = spec_step V listening ev (view s)"
    and "demux_step chk V listening ev s = Ret s' \<Longrightarrow> demux_inv (n + 2) s'"
proof -
  have m: "mail_ok n (mailer s)" and b: "\<forall>b \<in> boxes_of (mailer s). b < next_mailbox s"
    using inv by (simp_all add: demux_inv_def)
  have same: "demux_inv (n + 2) s" using inv mail_ok_mono [OF m, of "n + 2"] by (simp add: demux_inv_def)
  have "map_run view (demux_step chk V listening ev s) = spec_step V listening ev (view s) \<and>
    (demux_step chk V listening ev s = Ret s' \<longrightarrow> demux_inv (n + 2) s')"
  proof (cases ev)
    case (DGivebackUrb hnd)
    obtain r m' where "remove_by_key3 hnd (mailer s) = Ret (r, m')" "mail_ok n m'"
      "boxes_of m' \<subseteq> boxes_of (mailer s)" "lookup m' = (lookup (mailer s))(Key3 hnd := None)"
      using mail_remove [OF m, of chk "Key3 hnd"] unfolding tkm_remove.simps by blast
    then show ?thesis using DGivebackUrb b mail_ok_mono [of n m' "n + 2"]
      by (auto simp: demux_step_def spec_step_def view_def demux_inv_def)
  next
    case (DWork w)
    note ref = route_refines [OF m n, of chk V w "register_queue s", unfolded refines_route_def]
    show ?thesis
    proof (cases "route chk V w (register_queue s) (mailer s)")
      case (Ret x)
      obtain tx queue m' where x: "x = (tx, queue, m')" by (cases x)
      have "spec_route V w (register_queue s) (lookup (mailer s)) = Ret (tx, queue, lookup m')"
        "mail_ok (n + 2) m'" "boxes_of m' \<subseteq> boxes_of (mailer s)"
        using ref Ret x by simp_all
      then show ?thesis using DWork Ret x b
        by (cases tx) (auto simp: demux_step_def spec_step_def view_def demux_inv_def Let_def)
    qed (use ref DWork in \<open>auto simp: demux_step_def spec_step_def view_def\<close>)
  next
    case (DController r)
    show ?thesis
    proof (cases r)
      case (CrRegister res tx)
      show ?thesis
      proof (cases res)
        case (Inr prt)
        show ?thesis
        proof (cases "lookup (mailer s) (Key1 prt)")
          case None
          have "next_mailbox s \<notin> boxes_of (mailer s)" using b by auto
          from mail_insert [OF m None this] obtain m' where
            "insert_by_key1 prt (next_mailbox s) (mailer s) = (None, m')" "mail_ok (Suc n) m'"
            "boxes_of m' = insert (next_mailbox s) (boxes_of (mailer s))"
            "lookup m' = (lookup (mailer s))(Key1 prt \<mapsto> next_mailbox s)" by blast
          then show ?thesis using DController CrRegister Inr None b mail_ok_mono [of "Suc n" m' "n + 2"]
            by (auto simp: demux_step_def spec_step_def view_def demux_inv_def assert_that_def Let_def less_Suc_eq
              simp del: lookup_simps)
        next
          case (Some b')
          then have "key1_map (mailer s) prt \<noteq> None"
            using lookup_dom [OF mail_okD(3) [OF m], of "Key1 prt"] by simp
          then have "fst (insert_by_key1 prt (next_mailbox s) (mailer s)) \<noteq> None"
            by (auto simp: insert_by_key1_def insert_by_key_def)
          then show ?thesis using DController CrRegister Inr Some
            by (auto simp: demux_step_def spec_step_def view_def assert_that_def Let_def
              simp del: lookup_simps split: prod.split)
        qed
      qed (use DController CrRegister same in \<open>auto simp: demux_step_def spec_step_def view_def demux_inv_def\<close>)
    qed (use DController same in \<open>auto simp: demux_step_def spec_step_def view_def demux_inv_def\<close>)
  qed (use same in \<open>auto simp: demux_step_def spec_step_def view_def demux_inv_def\<close>)
  then show "map_run view (demux_step chk V listening ev s) = spec_step V listening ev (view s)"
    and "demux_step chk V listening ev s = Ret s' \<Longrightarrow> demux_inv (n + 2) s'" by blast+
qed

lemma demux_run_refines:
  "demux_inv n s \<Longrightarrow> n + 2 * length evs < 2 ^ 64 - 1 \<Longrightarrow>
    map_run view (demux_run chk V listening evs s) = spec_run V listening evs (view s)"
proof (induction evs arbitrary: n s)
  case (Cons ev evs)
  have n: "n + 1 < 2 ^ 64 - 1" using Cons.prems(2) by simp
  note step = demux_step_refines [OF Cons.prems(1) n]
  show ?case
  proof (cases "demux_step chk V listening ev s")
    case (Ret s')
    with step(1) [of chk V listening ev] have "spec_step V listening ev (view s) = Ret (view s')" by (metis run.map(1))
    moreover have "map_run view (demux_run chk V listening evs s') = spec_run V listening evs (view s')"
      by (rule Cons.IH [OF step(2) [OF Ret]]) (use Cons.prems(2) in simp)
    ultimately show ?thesis using Ret by simp
  qed (use step(1) [of chk V listening ev] in \<open>simp_all flip: step(1)\<close>)
qed simp

section \<open>Facts: what a step keeps\<close>

text \<open>The events that leave the link from a key to a mailbox alone.\<close>

definition keeps :: "vhci_ops \<Rightarrow> boxes \<Rightarrow> nat \<Rightarrow> (port, address, urb_handle) tkey \<Rightarrow> 'd demux_event \<Rightarrow> bool" where
  "keeps V f b k ev =
     (case ev of
        DGivebackUrb hnd \<Rightarrow> k \<noteq> Key3 hnd
      | DWork (CancelUrb hnd) \<Rightarrow> k \<noteq> Key3 hnd
      | DWork (PortStat stat) \<Rightarrow> enumerates stat \<longrightarrow> f (Key1 (ps_index stat)) \<noteq> Some b
      | DWork (ProcessUrb _ _) \<Rightarrow> (case address_new V 0 of None \<Rightarrow> True | Some zero \<Rightarrow> k \<noteq> Key2 zero)
      | _ \<Rightarrow> True)"

lemma spec_link_keeps:
  "spec_link hnd e queue f = Ret (tx, queue', f') \<Longrightarrow> f k = Some b \<Longrightarrow> f' k = Some b"
  by (auto simp: spec_link_def split: if_splits)

lemma spec_route_urb_cases:
  assumes "spec_route V (ProcessUrb urb hnd) queue f = Ret (tx, queue', f')"
  obtains (set) zero a p ps where "address_new V 0 = Some zero" "queue = p # ps"
      "spec_link hnd (Key1 p) ps (spec_address zero a p f) = Ret (tx, queue', f')"
    | (link) e where "spec_link hnd e queue f = Ret (tx, queue', f')"
    | (same) "f' = f"
  using assms unfolding spec_route_def work.case
  by (simp only: split: if_splits option.splits list.splits prod.splits run.splits)
    auto

lemma spec_address_keeps: "f k = Some b \<Longrightarrow> k \<noteq> Key2 zero \<Longrightarrow> spec_address zero a p f k = Some b"
  by (auto simp: spec_address_def Let_def)

lemma spec_address_key1 [simp]: "spec_address zero a p f (Key1 q) = f (Key1 q)"
  by (simp add: spec_address_def Let_def)

lemma spec_link_key1: "spec_link hnd e queue f = Ret (tx, queue', f') \<Longrightarrow> f' (Key1 p) = f (Key1 p)"
  by (auto simp: spec_link_def split: if_splits)

lemma spec_route_keeps:
  assumes "spec_route V w queue f = Ret (tx, queue', f')" and "f k = Some b" and "keeps V f b k (DWork w)"
  shows "f' k = Some b"
proof (cases w)
  case (PortStat stat)
  with assms show ?thesis by (auto simp: spec_route_def spec_unlink_def keeps_def split: if_splits)
next
  case (CancelUrb hnd)
  with assms show ?thesis by (auto simp: spec_route_def keeps_def split: if_splits)
next
  case (ProcessUrb urb hnd)
  from assms(1) [unfolded ProcessUrb] show ?thesis
  proof (cases rule: spec_route_urb_cases)
    case (set zero a p ps)
    have "spec_address zero a p f k = Some b"
      by (rule spec_address_keeps, rule assms(2)) (use assms(3) ProcessUrb set(1) in \<open>simp add: keeps_def\<close>)
    then show ?thesis by (rule spec_link_keeps [OF set(3)])
  next
    case (link e)
    then show ?thesis using assms(2) by (rule spec_link_keeps)
  qed (use assms(2) in simp)
qed

text \<open>Work never changes the mailbox of a port: no two ports share one.\<close>

definition ports_inj :: "boxes \<Rightarrow> bool" where
  "ports_inj f \<longleftrightarrow> (\<forall>p q b. f (Key1 p) = Some b \<longrightarrow> f (Key1 q) = Some b \<longrightarrow> p = q)"

lemma spec_route_ports:
  assumes "spec_route V w queue f = Ret (tx, queue', f')" and "ports_inj f"
  shows "f' (Key1 p) = f (Key1 p)"
proof (cases w)
  case (PortStat stat)
  have "spec_unlink q f (Key1 p) = f (Key1 p)" for q
    using assms(2) by (auto simp: spec_unlink_def ports_inj_def)
  with assms(1) PortStat show ?thesis by (auto simp: spec_route_def split: if_splits)
next
  case (CancelUrb hnd)
  with assms(1) show ?thesis by (auto simp: spec_route_def)
next
  case (ProcessUrb urb hnd)
  from assms(1) [unfolded ProcessUrb] show ?thesis
    by (cases rule: spec_route_urb_cases) (auto dest: spec_link_key1)
qed

definition spec_inv :: "router \<Rightarrow> bool" where
  "spec_inv s \<longleftrightarrow> ports_inj (r_boxes s) \<and> (\<forall>p b. r_boxes s (Key1 p) = Some b \<longrightarrow> b < r_next s)"

lemma spec_step_ports:
  assumes "spec_step V listening ev s = Ret s'" and "spec_inv s"
  shows "spec_inv s' \<and> r_next s \<le> r_next s' \<and>
    (\<forall>p. r_boxes s' (Key1 p) = (case ev of
        DController (CrRegister (Inr q) _) \<Rightarrow> if p = q then Some (r_next s) else r_boxes s (Key1 p)
      | _ \<Rightarrow> r_boxes s (Key1 p))) \<and>
    (\<forall>q tx. ev = DController (CrRegister (Inr q) tx) \<longrightarrow> r_boxes s (Key1 q) = None)"
proof (cases ev)
  case (DWork w)
  from assms(1) DWork obtain tx queue f where "spec_route V w (r_queue s) (r_boxes s) = Ret (tx, queue, f)"
    "r_boxes s' = f" "r_next s' = r_next s"
    by (auto simp: spec_step_def rbind_eq_Ret)
  with spec_route_ports [OF this(1)] assms(2) DWork show ?thesis by (simp add: spec_inv_def ports_inj_def)
next
  case (DController r)
  show ?thesis
  proof (cases r)
    case (CrRegister res tx)
    show ?thesis
    proof (cases res)
      case (Inr q)
      with assms DController CrRegister have n: "r_boxes s (Key1 q) = None"
        and s': "s' = s\<lparr>r_boxes := (r_boxes s)(Key1 q \<mapsto> r_next s), r_next := r_next s + 1\<rparr>"
        by (auto simp: spec_step_def split: if_splits)
      have fresh: "r_boxes s (Key1 p) \<noteq> Some (r_next s)" for p
        using assms(2) by (auto simp: spec_inv_def)
      have "spec_inv s'" using assms(2) fresh unfolding s'
        by (auto simp: spec_inv_def ports_inj_def less_SucI split: if_splits)
      then show ?thesis using n DController CrRegister Inr by (simp add: s')
    qed (use assms DController CrRegister in \<open>simp add: spec_step_def\<close>)
  qed (use assms DController in \<open>simp add: spec_step_def\<close>)
qed (use assms in \<open>auto simp: spec_step_def spec_inv_def ports_inj_def\<close>)

lemma spec_step_keeps:
  assumes "spec_step V listening ev s = Ret s'" and "r_boxes s k = Some b" and "keeps V (r_boxes s) b k ev"
  shows "r_boxes s' k = Some b"
proof (cases ev)
  case (DWork w)
  from assms(1) DWork obtain tx queue f where r: "spec_route V w (r_queue s) (r_boxes s) = Ret (tx, queue, f)"
    "r_boxes s' = f"
    by (auto simp: spec_step_def rbind_eq_Ret)
  from spec_route_keeps [OF r(1) assms(2)] assms(3) DWork r(2) show ?thesis by simp
next
  case (DController r)
  with assms show ?thesis
    by (cases r) (auto simp: spec_step_def split: sum.splits if_splits)
qed (use assms in \<open>auto simp: spec_step_def keeps_def\<close>)

lemma spec_step_other:
  assumes "spec_step V listening ev s = Ret s'" and "spec_inv s" and "b < r_next s" and "r_boxes s (Key1 p) \<noteq> Some b"
  shows "r_boxes s' (Key1 p) \<noteq> Some b \<and> b < r_next s'"
  using spec_step_ports [OF assms(1,2)] assms(3,4)
  by (auto split: demux_event.splits controller_result.splits sum.splits if_splits)

lemma keeps_mono:
  "keeps V f b k ev \<Longrightarrow> (\<And>p. f (Key1 p) \<noteq> Some b \<Longrightarrow> g (Key1 p) \<noteq> Some b) \<Longrightarrow> keeps V g b k ev"
  by (auto simp: keeps_def split: demux_event.splits work.splits)

lemma spec_run_keeps:
  "spec_run V listening evs s = Ret s' \<Longrightarrow> spec_inv s \<Longrightarrow> r_boxes s k = Some b \<Longrightarrow> b < r_next s \<Longrightarrow>
    \<forall>ev \<in> set evs. keeps V (r_boxes s) b k ev \<Longrightarrow> r_boxes s' k = Some b"
proof (induction evs arbitrary: s)
  case (Cons ev evs)
  then obtain s1 where s1: "spec_step V listening ev s = Ret s1" "spec_run V listening evs s1 = Ret s'"
    by (auto simp: rbind_eq_Ret)
  have b1: "r_boxes s1 k = Some b" using spec_step_keeps [OF s1(1) Cons.prems(3)] Cons.prems(5) by simp
  have i1: "spec_inv s1" "b < r_next s1" using spec_step_ports [OF s1(1) Cons.prems(2)] Cons.prems(4) by auto
  have "r_boxes s1 (Key1 p) \<noteq> Some b" if "r_boxes s (Key1 p) \<noteq> Some b" for p
    using spec_step_other [OF s1(1) Cons.prems(2,4) that] by simp
  then have "\<forall>e \<in> set evs. keeps V (r_boxes s1) b k e"
    using Cons.prems(5) by (auto intro: keeps_mono [of V "r_boxes s"])
  then show ?case by (rule Cons.IH [OF s1(2) i1(1) b1 i1(2)])
qed simp

text \<open>A port that has been registered once keeps its mailbox for good.\<close>

lemma spec_run_port:
  "spec_run V listening evs s = Ret s' \<Longrightarrow> spec_inv s \<Longrightarrow>
    r_boxes s (Key1 p) \<noteq> None \<or> (\<exists>tx. DController (CrRegister (Inr p) tx) \<in> set evs) \<Longrightarrow>
    r_boxes s' (Key1 p) \<noteq> None"
proof (induction evs arbitrary: s)
  case (Cons ev evs)
  then obtain s1 where s1: "spec_step V listening ev s = Ret s1" "spec_run V listening evs s1 = Ret s'"
    by (auto simp: rbind_eq_Ret)
  from spec_step_ports [OF s1(1) Cons.prems(2)] have "spec_inv s1"
    and p: "r_boxes s1 (Key1 p) = (case ev of
        DController (CrRegister (Inr q) _) \<Rightarrow> if p = q then Some (r_next s) else r_boxes s (Key1 p)
      | _ \<Rightarrow> r_boxes s (Key1 p))" by blast+
  have "r_boxes s1 (Key1 p) \<noteq> None \<or> (\<exists>tx. DController (CrRegister (Inr p) tx) \<in> set evs)"
    using Cons.prems(3) unfolding p by (auto split: demux_event.splits controller_result.splits sum.splits)
  then show ?case by (rule Cons.IH [OF s1(2) \<open>spec_inv s1\<close>])
qed simp

lemma demux_run_inv:
  "demux_inv n s \<Longrightarrow> n + 2 * length evs < 2 ^ 64 - 1 \<Longrightarrow> demux_run chk V listening evs s = Ret s' \<Longrightarrow>
    demux_inv (n + 2 * length evs) s'"
proof (induction evs arbitrary: n s)
  case (Cons ev evs)
  then obtain s1 where s1: "demux_step chk V listening ev s = Ret s1" "demux_run chk V listening evs s1 = Ret s'"
    by (auto simp: rbind_eq_Ret)
  have "demux_inv (n + 2) s1" by (rule demux_step_refines(2) [OF Cons.prems(1) _ s1(1)]) (use Cons.prems(2) in simp)
  from Cons.IH [OF this _ s1(2)] Cons.prems(2) show ?case by simp
qed simp

lemma demux_inv_box:
  assumes "demux_inv n s" and "lookup (mailer s) k = Some b"
  shows "b < next_mailbox s"
proof -
  have "b \<in> boxes_of (mailer s)"
    using assms(2) by (auto simp: lookup_def get_by_key_def boxes_of_def split: option.splits if_splits)
  with assms(1) show ?thesis by (simp add: demux_inv_def)
qed

text \<open>A link survives a run of the demultiplexer.\<close>

lemma demux_run_keeps:
  assumes "demux_inv n s" and "n + 2 * length evs < 2 ^ 64 - 1" and "demux_run chk V listening evs s = Ret s'"
    and "ports_inj (lookup (mailer s))"
    and "lookup (mailer s) k = Some b" and "\<forall>ev \<in> set evs. keeps V (lookup (mailer s)) b k ev"
  shows "lookup (mailer s') k = Some b"
proof -
  have "spec_run V listening evs (view s) = Ret (view s')"
    using demux_run_refines [OF assms(1,2), of chk V listening] assms(3) by simp
  moreover have "spec_inv (view s)"
    using assms(4) demux_inv_box [OF assms(1)] by (simp add: spec_inv_def view_def del: lookup_simps)
  ultimately show ?thesis
    using spec_run_keeps [of V listening evs "view s" "view s'" k b] assms(5,6) demux_inv_box [OF assms(1,5)]
    by (simp add: view_def)
qed

text \<open>One more work item after a run, by the specification.\<close>

lemma demux_step_work:
  assumes "demux_inv n s" and "n + 1 < 2 ^ 64 - 1" and "spec_route V w (register_queue s) (lookup (mailer s)) = Ret (tx, queue, f)"
  shows "\<exists>s'. demux_step chk V listening (DWork w) s = Ret s' \<and> register_queue s' = queue \<and> lookup (mailer s') = f \<and>
    mailboxes s' = (case tx of Some b \<Rightarrow> (mailboxes s)(b := mailboxes s b @ [w]) | None \<Rightarrow> mailboxes s) \<and>
    demux_inv (n + 2) s'"
proof -
  have "map_run view (demux_step chk V listening (DWork w) s) = Ret ((view s)\<lparr>r_queue := queue, r_boxes := f,
      r_mail := (case tx of Some b \<Rightarrow> (mailboxes s)(b := mailboxes s b @ [w]) | None \<Rightarrow> mailboxes s)\<rparr>)"
    using demux_step_refines(1) [OF assms(1,2), of chk V listening "DWork w"] assms(3)
    by (cases tx) (simp_all add: spec_step_def view_def)
  then obtain s' where s': "demux_step chk V listening (DWork w) s = Ret s'"
    "view s' = (view s)\<lparr>r_queue := queue, r_boxes := f,
      r_mail := (case tx of Some b \<Rightarrow> (mailboxes s)(b := mailboxes s b @ [w]) | None \<Rightarrow> mailboxes s)\<rparr>"
    by (cases "demux_step chk V listening (DWork w) s") auto
  with demux_step_refines(2) [OF assms(1,2) s'(1)] show ?thesis by (simp add: view_def)
qed

lemma demux_run_spec:
  assumes "2 * length evs < 2 ^ 64 - 1"
  shows "map_run view (demux_run chk V listening evs demux_start) = spec_run V listening evs spec_start"
  using demux_run_refines [OF demux_start_ok(1) [of 0], of evs chk V listening] assms by (simp add: demux_start_ok(2))

section \<open>Properties of the demultiplexer\<close>

text \<open>C24. However events arrive, the demultiplexer acts as one map from ports, addresses and requests
  to mailboxes: positions, reference counts and swaps of the three-key map never show, and it
  panics exactly where the specification does.\<close>

theorem demux_refines:
  assumes "2 * length evs < 2 ^ 64 - 1"
  shows "map_run view (demux_run chk V listening evs demux_start) = spec_run V listening evs spec_start"
  by (rule demux_run_spec [OF assms])

text \<open>C26. The requests of a device reach its mailbox: as long as no port of that mailbox is enumerated
  again (and the address is not the default address), every further request to an address that
  is linked to a mailbox is sent there, whatever else happens in between.\<close>

theorem address_keeps_device:
  assumes "demux_inv n s" and "ports_inj (lookup (mailer s))" and "n + 2 * length evs + 1 < 2 ^ 64 - 1"
    and "get_by_key2 (mailer s) a = Some b" and "address_new V 0 \<noteq> Some a" and "\<not> is_for_unassigned V a"
    and "\<forall>stat. DWork (PortStat stat) \<in> set evs \<longrightarrow> enumerates stat \<longrightarrow>
      get_by_key1 (mailer s) (ps_index stat) \<noteq> Some b"
    and "demux_run chk V listening evs s = Ret s1" and "iu_address urb = a"
  shows "\<exists>s2. demux_step chk V listening (DWork (ProcessUrb urb hnd)) s1 = Ret s2 \<and>
    mailboxes s2 b = mailboxes s1 b @ [ProcessUrb urb hnd]"
proof -
  have n: "n + 2 * length evs < 2 ^ 64 - 1" using assms(3) by simp
  have "keeps V (lookup (mailer s)) b (Key2 a) ev" if "ev \<in> set evs" for ev
    using assms(5,7) that by (auto simp: keeps_def split: demux_event.split work.split option.split)
  then have "lookup (mailer s1) (Key2 a) = Some b"
    using demux_run_keeps [OF assms(1) n assms(8,2), of "Key2 a" b] assms(4) by simp
  then have "\<exists>f. spec_route V (ProcessUrb urb hnd) (register_queue s1) (lookup (mailer s1)) = Ret (Some b, register_queue s1, f)"
    using assms(6,9) by (auto simp: spec_route_def spec_link_def simp del: lookup_simps)
  then obtain f where r: "spec_route V (ProcessUrb urb hnd) (register_queue s1) (lookup (mailer s1)) =
      Ret (Some b, register_queue s1, f)" by blast
  from demux_step_work [OF demux_run_inv [OF assms(1) n assms(8)] assms(3) r, of chk listening] show ?thesis by auto
qed

text \<open>C27. A cancellation goes where the request went: once a request is linked to a mailbox, its
  cancellation is sent to that mailbox, unless the request has been given back or cancelled
  before, or the device's port has been enumerated again.\<close>

theorem cancel_reaches_owner:
  assumes "demux_inv n s" and "ports_inj (lookup (mailer s))" and "n + 2 * length evs + 1 < 2 ^ 64 - 1"
    and "get_by_key3 (mailer s) hnd = Some b"
    and "DGivebackUrb hnd \<notin> set evs" and "DWork (CancelUrb hnd) \<notin> set evs"
    and "\<forall>stat. DWork (PortStat stat) \<in> set evs \<longrightarrow> enumerates stat \<longrightarrow>
      get_by_key1 (mailer s) (ps_index stat) \<noteq> Some b"
    and "demux_run chk V listening evs s = Ret s1"
  shows "\<exists>s2. demux_step chk V listening (DWork (CancelUrb hnd)) s1 = Ret s2 \<and>
    mailboxes s2 b = mailboxes s1 b @ [CancelUrb hnd] \<and> get_by_key3 (mailer s2) hnd = None"
proof -
  have n: "n + 2 * length evs < 2 ^ 64 - 1" using assms(3) by simp
  have "keeps V (lookup (mailer s)) b (Key3 hnd) ev" if "ev \<in> set evs" for ev
    using assms(5-7) that by (auto simp: keeps_def split: demux_event.split work.split option.split)
  then have "lookup (mailer s1) (Key3 hnd) = Some b"
    using demux_run_keeps [OF assms(1) n assms(8,2), of "Key3 hnd" b] assms(4) by simp
  then have r: "spec_route V (CancelUrb hnd) (register_queue s1) (lookup (mailer s1)) =
      Ret (Some b, register_queue s1, (lookup (mailer s1))(Key3 hnd := None))"
    by (simp add: spec_route_def del: lookup_simps)
  obtain s2 where s2: "demux_step chk V listening (DWork (CancelUrb hnd)) s1 = Ret s2"
    "lookup (mailer s2) = (lookup (mailer s1))(Key3 hnd := None)"
    "mailboxes s2 = (mailboxes s1)(b := mailboxes s1 b @ [CancelUrb hnd])"
    using demux_step_work [OF demux_run_inv [OF assms(1) n assms(8)] assms(3) r, of chk listening] by auto
  from fun_cong [OF s2(2), of "Key3 hnd"] have "get_by_key3 (mailer s2) hnd = None" by simp
  with s2 show ?thesis by simp
qed

text \<open>A port can be registered only once in the life of the demultiplexer: ports are never removed
  from the mailer, so when the driver hands out a port again after a disconnect, the assertion
  on the insertion fails and the task panics.\<close>

theorem port_reuse_panics:
  assumes "2 * length evs + 1 < 2 ^ 64 - 1" and "demux_run chk V listening evs demux_start = Ret s"
    and "DController (CrRegister (Inr p) tx) \<in> set evs"
  shows "demux_step chk V listening (DController (CrRegister (Inr p) tx')) s = Panic"
proof -
  have n: "0 + 2 * length evs < 2 ^ 64 - 1" using assms(1) by simp
  have "spec_run V listening evs spec_start = Ret (view s)"
    using demux_run_spec [of evs chk V listening] assms by simp
  from spec_run_port [OF this, of p] assms(3) have "r_boxes (view s) (Key1 p) \<noteq> None"
    by (auto simp: spec_inv_def spec_start_def ports_inj_def)
  moreover have "demux_inv (0 + 2 * length evs) s" by (rule demux_run_inv [OF demux_start_ok(1) n assms(2)])
  ultimately have "map_run view (demux_step chk V listening (DController (CrRegister (Inr p) tx')) s) = Panic"
    using demux_step_refines(1) [of "2 * length evs" s chk V listening "DController (CrRegister (Inr p) tx')"] assms(1)
    by (simp add: spec_step_def)
  then show ?thesis
    by (cases "demux_step chk V listening (DController (CrRegister (Inr p) tx')) s") simp_all
qed

text \<open>C37. The addresses of a disconnected device stay linked. When the host gives such an address to the
  device that is enumerated next, the link is refused and the refusal ignored: the new device
  sees the request that sets its address, but all its further requests are sent to the mailbox
  of the old device.\<close>

theorem stale_address_misroutes:
  assumes "demux_inv n s" and "n + 3 < 2 ^ 64 - 1" and "register_queue s = p # ps"
    and "get_by_key1 (mailer s) p = Some new" and "get_by_key2 (mailer s) a = Some old" and "old \<noteq> new"
    and "address_new V 0 = Some zero" and "zero \<noteq> a" and "\<not> is_for_unassigned V a"
    and "iu_typ setup = UrbCtrl" and "is_for_unassigned V (iu_address setup)" and "is_anycast V (iu_endpoint setup)"
    and "setup_req V (iu_setup_packet setup) = STANDARD_DEVICE_SET_ADDRESS"
    and "address_new V (ucast (setup_value V (iu_setup_packet setup))) = Some a"
    and "get_by_key3 (mailer s) h1 = None" and "iu_address urb = a"
  shows "\<exists>s2. demux_run chk V listening [DWork (ProcessUrb setup h1), DWork (ProcessUrb urb h2)] s = Ret s2 \<and>
    mailboxes s2 new = mailboxes s new @ [ProcessUrb setup h1] \<and>
    mailboxes s2 old = mailboxes s old @ [ProcessUrb urb h2]"
proof -
  let ?f = "(lookup (mailer s))(Key2 zero := None, Key3 h1 \<mapsto> new)"
  have "spec_address zero a p (lookup (mailer s)) = (lookup (mailer s))(Key2 zero := None)"
    using assms(5,8) by (simp add: spec_address_def)
  then have 1: "spec_route V (ProcessUrb setup h1) (register_queue s) (lookup (mailer s)) = Ret (Some new, ps, ?f)"
    using assms(3,4,7,10-15) by (simp add: spec_route_def spec_link_def)
  have n: "n + 1 < 2 ^ 64 - 1" "n + 2 + 1 < 2 ^ 64 - 1" using assms(2) by simp_all
  from demux_step_work [OF assms(1) n(1) 1, of chk listening] obtain s1 where
    s1: "demux_step chk V listening (DWork (ProcessUrb setup h1)) s = Ret s1" "lookup (mailer s1) = ?f"
    "register_queue s1 = ps" "mailboxes s1 = (mailboxes s)(new := mailboxes s new @ [ProcessUrb setup h1])"
    "demux_inv (n + 2) s1" by auto
  have "?f (Key2 a) = Some old" using assms(5,8) by simp
  then have "\<exists>f. spec_route V (ProcessUrb urb h2) (register_queue s1) (lookup (mailer s1)) = Ret (Some old, ps, f)"
    using assms(9,16) s1(2,3) by (auto simp: spec_route_def spec_link_def simp del: lookup_simps)
  then obtain f where 2: "spec_route V (ProcessUrb urb h2) (register_queue s1) (lookup (mailer s1)) = Ret (Some old, ps, f)"
    by blast
  from demux_step_work [OF s1(5) n(2) 2, of chk listening] s1(1,4) assms(6) show ?thesis by auto
qed

text \<open>\<open>recv_work\<close> passes on every item of the driver, in order, until the channel is closed or the
  driver fails; timeouts, interruptions and empty answers do not end it.\<close>

theorem recv_work_passes_on:
  assumes "\<forall>(r, closed) \<in> set rs. \<not> closed \<and> (\<forall>err. r \<noteq> Inl (FetchFailed err))"
  shows "recv_work False (rs @ [(last_answer, closed)]) =
    (map projr (filter (\<lambda>r. \<not> isl r) (map fst rs)) @ (case last_answer of Inr w \<Rightarrow> [w] | Inl _ \<Rightarrow> []),
     case last_answer of
       Inl (FetchFailed err) \<Rightarrow> Some (Inl err)
     | _ \<Rightarrow> if closed then Some (Inr ()) else None)"
proof -
  have "recv_work_loop (rs @ [(last_answer, closed)]) =
    (map projr (filter (\<lambda>r. \<not> isl r) (map fst rs)) @ (case last_answer of Inr w \<Rightarrow> [w] | Inl _ \<Rightarrow> []),
     case last_answer of
       Inl (FetchFailed err) \<Rightarrow> Some (Inl err)
     | _ \<Rightarrow> if closed then Some (Inr ()) else None)"
    using assms
  proof (induction rs)
    case Nil
    show ?case by (cases last_answer; (cases "projl last_answer")?) auto
  next
    case (Cons x rs)
    obtain r c where x: "x = (r, c)" by (cases x)
    show ?case
    proof (cases r)
      case (Inl e)
      with Cons x show ?thesis by (cases e) auto
    qed (use Cons x in auto)
  qed
  then show ?thesis by (simp add: recv_work_def)
qed

section \<open>The properties at work\<close>

text \<open>A device is registered on port 1, enumerated, and given the address 5.\<close>

definition stub_vhci :: vhci_ops where
  "stub_vhci = \<lparr>setup_req = (\<lambda>p. if p = 0 then OtherRequest else STANDARD_DEVICE_SET_ADDRESS),
     setup_value = ucast, setup_index = (\<lambda>_. 0), setup_length = (\<lambda>_. 0),
     is_for_unassigned = (\<lambda>a. a = 0), is_anycast = (\<lambda>e. e = 0),
     address_new = (\<lambda>n. if n < 128 then Some n else None)\<rparr>"

definition ctrl_urb :: "address \<Rightarrow> setup_packet \<Rightarrow> ioc_urb" where
  "ctrl_urb a pkt = \<lparr>iu_typ = UrbCtrl, iu_address = a, iu_setup_packet = pkt, iu_buffer_length = 0,
     iu_packet_count = 0, iu_interval = 0, iu_flags = 0, iu_endpoint = 0\<rparr>"

definition port_enabled :: "port \<Rightarrow> ioc_port_stat" where
  "port_enabled p = \<lparr>ps_index = p, ps_status = {PS_ENABLE}, ps_change = {PC_RESET}, ps_flags = {}\<rparr>"

definition plug_in :: "port \<Rightarrow> urb_handle \<Rightarrow> unit demux_event list" where
  "plug_in p hnd = [DController (CrRegister (Inr p) 0), DWork (PortStat (port_enabled p)),
     DWork (ProcessUrb (ctrl_urb 0 5) hnd), DGivebackUrb hnd]"

lemmas stub_example = stub_vhci_def ctrl_urb_def port_enabled_def plug_in_def spec_start_def
  spec_step_def spec_route_def spec_link_def spec_address_def spec_unlink_def enumerates_def

lemma demux_reaches:
  assumes "spec_run V listening evs spec_start = Ret R" and "2 * length evs < 2 ^ 64 - 1"
  obtains s where "demux_run True V listening evs demux_start = Ret s" "view s = R" "demux_inv (2 * length evs) s"
proof -
  have "map_run view (demux_run True V listening evs demux_start) = Ret R"
    using demux_run_spec [OF assms(2), of True V listening] assms(1) by simp
  then obtain s where
    s: "demux_run True V listening evs demux_start = Ret s" "view s = R"
    by (cases "demux_run True V listening evs demux_start") auto
  have "0 + 2 * length evs < 2 ^ 64 - 1" using assms(2) by simp
  from demux_run_inv [OF demux_start_ok(1) this s(1)] s that show ?thesis by simp
qed

lemma ucast_5 [simp]: "ucast (5 :: u64) = (5 :: u16)" "ucast (5 :: u16) = (5 :: u8)"
  by simp_all

definition plugged :: router where
  "plugged = \<lparr>r_queue = [], r_boxes = [Key1 1 \<mapsto> 0, Key2 5 \<mapsto> 0],
     r_mail = (\<lambda>_. [])(0 := [PortStat (port_enabled 1), ProcessUrb (ctrl_urb 0 5) 100]), r_next = 1\<rparr>"

lemma spec_plug_in: "spec_run stub_vhci (\<lambda>_. True) (plug_in 1 100) spec_start = Ret plugged"
  by (auto simp: stub_example plugged_def Let_def fun_eq_iff)

theorem demux_refines_witness:
  "map_run view (demux_run True stub_vhci (\<lambda>_. True) (plug_in 1 100) demux_start) = Ret plugged"
  using demux_refines [of "plug_in 1 100" True stub_vhci "\<lambda>_. True"] spec_plug_in by (simp add: plug_in_def)

lemma plugged_state:
  obtains s :: "unit demux" where "demux_run True stub_vhci (\<lambda>_. True) (plug_in 1 100) demux_start = Ret s"
    "demux_inv 8 s" "lookup (mailer s) = r_boxes plugged" "register_queue s = []" "next_mailbox s = 1"
    "ports_inj (lookup (mailer s))"
proof -
  obtain s :: "unit demux" where s: "demux_run True stub_vhci (\<lambda>_. True) (plug_in 1 100) demux_start = Ret s"
    "view s = plugged" "demux_inv (2 * length (plug_in 1 100)) s"
    by (rule demux_reaches [OF spec_plug_in]) (simp add: plug_in_def)
  then have "r_boxes (view s) = r_boxes plugged" "r_queue (view s) = []" "r_next (view s) = 1"
    by (simp_all add: plugged_def)
  with s show ?thesis
    by (intro that [of s]) (auto simp: view_def plug_in_def plugged_def ports_inj_def split: if_splits)
qed

theorem address_keeps_device_witness:
  "\<exists>s s2. demux_run True stub_vhci (\<lambda>_. True) (plug_in 1 100) demux_start = Ret s \<and>
     demux_step True stub_vhci (\<lambda>_. True) (DWork (ProcessUrb (ctrl_urb 5 0) 101)) s = Ret s2 \<and>
     mailboxes s2 0 = mailboxes s 0 @ [ProcessUrb (ctrl_urb 5 0) 101]"
proof -
  obtain s :: "unit demux" where s: "demux_run True stub_vhci (\<lambda>_. True) (plug_in 1 100) demux_start = Ret s"
    "demux_inv 8 s" "lookup (mailer s) = r_boxes plugged" "ports_inj (lookup (mailer s))"
    by (rule plugged_state)
  have "get_by_key2 (mailer s) 5 = Some 0" using fun_cong [OF s(3), of "Key2 5"] by (simp add: plugged_def)
  with address_keeps_device [OF s(2,4), of "[]" 5 0 stub_vhci True "\<lambda>_. True" s "ctrl_urb 5 0" 101] s(1)
  show ?thesis by (auto simp: stub_vhci_def ctrl_urb_def)
qed

theorem cancel_reaches_owner_witness:
  "\<exists>s s1 s2. demux_run True stub_vhci (\<lambda>_. True) (plug_in 1 100) demux_start = Ret s \<and>
     demux_step True stub_vhci (\<lambda>_. True) (DWork (ProcessUrb (ctrl_urb 5 0) 101)) s = Ret s1 \<and>
     demux_step True stub_vhci (\<lambda>_. True) (DWork (CancelUrb 101)) s1 = Ret s2 \<and>
     mailboxes s2 0 = mailboxes s1 0 @ [CancelUrb 101]"
proof -
  obtain s :: "unit demux" where s: "demux_run True stub_vhci (\<lambda>_. True) (plug_in 1 100) demux_start = Ret s"
    "demux_inv 8 s" "lookup (mailer s) = r_boxes plugged" "register_queue s = []" "ports_inj (lookup (mailer s))"
    by (rule plugged_state)
  have r: "spec_route stub_vhci (ProcessUrb (ctrl_urb 5 0) 101) (register_queue s) (lookup (mailer s)) =
      Ret (Some 0, [], (r_boxes plugged)(Key3 101 \<mapsto> 0))"
    unfolding s(3,4) by (simp add: spec_route_def spec_link_def ctrl_urb_def stub_vhci_def plugged_def)
  obtain s1 where s1: "demux_step True stub_vhci (\<lambda>_. True) (DWork (ProcessUrb (ctrl_urb 5 0) 101)) s = Ret s1"
    "lookup (mailer s1) = (r_boxes plugged)(Key3 101 \<mapsto> 0)" "demux_inv 10 s1"
    using demux_step_work [OF s(2) _ r, of True "\<lambda>_. True"] by auto
  have "get_by_key3 (mailer s1) 101 = Some 0" using fun_cong [OF s1(2), of "Key3 101"] by simp
  moreover have "ports_inj (lookup (mailer s1))"
    unfolding s1(2) by (auto simp: ports_inj_def plugged_def split: if_splits)
  ultimately show ?thesis
    using cancel_reaches_owner [OF s1(3), of "[]" 101 0 True stub_vhci "\<lambda>_. True" s1] s(1) s1(1) by auto
qed

theorem port_reuse_panics_witness:
  "\<exists>s :: unit demux. demux_run True stub_vhci (\<lambda>_. True) (plug_in 1 100 @ [DDisconnect 1 9]) demux_start = Ret s \<and>
     demux_step True stub_vhci (\<lambda>_. True) (DController (CrRegister (Inr 1) 10)) s = Panic"
proof -
  have "spec_run stub_vhci (\<lambda>_. True) (plug_in 1 100 @ [DDisconnect 1 9 :: unit demux_event]) spec_start = Ret plugged"
    by (auto simp: stub_example plugged_def Let_def fun_eq_iff)
  then obtain s :: "unit demux" where
    s: "demux_run True stub_vhci (\<lambda>_. True) (plug_in 1 100 @ [DDisconnect 1 9]) demux_start = Ret s"
    by (rule demux_reaches) (simp add: plug_in_def)
  from port_reuse_panics [OF _ s, of 1 0 10] s show ?thesis by (auto simp: plug_in_def)
qed

text \<open>The first device has left; a second one on port 2 is given its address.\<close>

theorem stale_address_misroutes_witness:
  "\<exists>s s2 :: unit demux. demux_run True stub_vhci (\<lambda>_. True) (plug_in 1 100 @
      [DDisconnect 1 9, DController (CrRegister (Inr 2) 10), DWork (PortStat (port_enabled 2))]) demux_start = Ret s \<and>
    demux_run True stub_vhci (\<lambda>_. True)
      [DWork (ProcessUrb (ctrl_urb 0 5) 101), DWork (ProcessUrb (ctrl_urb 5 0) 102)] s = Ret s2 \<and>
    mailboxes s2 1 = mailboxes s 1 @ [ProcessUrb (ctrl_urb 0 5) 101] \<and>
    mailboxes s2 0 = mailboxes s 0 @ [ProcessUrb (ctrl_urb 5 0) 102]"
proof -
  let ?evs = "plug_in 1 100 @
      [DDisconnect 1 9, DController (CrRegister (Inr 2) 10), DWork (PortStat (port_enabled 2))] :: unit demux_event list"
  let ?R = "\<lparr>r_queue = [2], r_boxes = [Key1 1 \<mapsto> 0, Key2 5 \<mapsto> 0, Key1 2 \<mapsto> 1],
     r_mail = (\<lambda>_. [])(0 := [PortStat (port_enabled 1), ProcessUrb (ctrl_urb 0 5) 100], 1 := [PortStat (port_enabled 2)]),
     r_next = 2\<rparr>"
  have "spec_run stub_vhci (\<lambda>_. True) ?evs spec_start = Ret ?R"
    by (auto simp: stub_example plugged_def Let_def fun_eq_iff)
  then obtain s :: "unit demux" where s: "demux_run True stub_vhci (\<lambda>_. True) ?evs demux_start = Ret s"
    "view s = ?R" "demux_inv (2 * length ?evs) s"
    by (rule demux_reaches) (simp add: plug_in_def)
  have q: "register_queue s = [2]" "lookup (mailer s) = [Key1 1 \<mapsto> 0, Key2 5 \<mapsto> 0, Key1 2 \<mapsto> 1]"
    using s(2) by (simp_all add: view_def)
  have k: "get_by_key1 (mailer s) 2 = Some 1" "get_by_key2 (mailer s) 5 = Some 0" "get_by_key3 (mailer s) 101 = None"
    using fun_cong [OF q(2), of "Key1 2"] fun_cong [OF q(2), of "Key2 5"] fun_cong [OF q(2), of "Key3 101"] by simp_all
  from stale_address_misroutes [OF s(3) _ q(1) k(1,2), of stub_vhci 0 "ctrl_urb 0 5" 101 "ctrl_urb 5 0" True "\<lambda>_. True" 102] k(3)
  show ?thesis using s(1) by (auto simp: stub_vhci_def ctrl_urb_def plug_in_def)
qed

theorem recv_work_passes_on_witness:
  "recv_work False [(Inr (CancelUrb 1), False), (Inl FetchTimedOut, False), (Inr (CancelUrb 2), True)] =
    ([CancelUrb 1, CancelUrb 2], Some (Inr ()))"
  using recv_work_passes_on [of "[(Inr (CancelUrb 1), False), (Inl FetchTimedOut, False)]" "Inr (CancelUrb 2)" True] by simp

end
