(* ===== verification/Stub_Controller.thy ===== *)
theory Stub_Controller
  imports Stub_Demux "HOL-Library.Multiset"
begin

text \<open>
  The demultiplexer of \<^verbatim>\<open>crates/qusb/src/stub.rs\<close> with everything around it: the handles of its
  clients (\<^verbatim>\<open>Controller\<close>, \<^verbatim>\<open>VhciRemote\<close>), the channels that it merges, the thread that fetches work,
  the one thread of \<^verbatim>\<open>task::spawn_blocking\<close> (\<^verbatim>\<open>crates/qusb/src/utils.rs\<close>) on which the calls of the
  driver run, and what \<^verbatim>\<open>demux\<close> does after its loop. Each step of a task or thread is an event; what
  the driver answers is in the event.
\<close>

section \<open>State\<close>

text \<open>\<open>Disconnecting\<close>: the loop has ended and the receivers are dropped, the fetching thread is waited for.\<close>

datatype hub_phase = Demuxing | Disconnecting | Finished | Crashed

text \<open>
  The thread of \<^verbatim>\<open>task::spawn_blocking\<close> takes its tasks from a channel, one after the other: calls of
  the demultiplexer, whose results it sends back, requests given back to the driver, and the
  transfers that a lender in the same process submits. A panic ends the thread.
\<close>

datatype 'd task = TaskCall "'d controller_job" | TaskGiveback urb_handle | TaskSubmit

datatype 'd thread_state = ThIdle | ThRunning "'d task" | ThSending controller_result | ThDead

text \<open>
  \<open>hb_returns\<close> are the futures of \<^verbatim>\<open>giveback_urb\<close> that have not sent yet, each with a sender of its
  own; \<open>hb_spawning\<close> is the call that the demultiplexer is handing to the thread. A one-shot channel
  for an answer is the number of the request that made it. Of what is sent to a mailbox, its device
  has received the first \<open>hb_received\<close>; \<open>hb_left\<close> are the mailboxes whose device has dropped its receiver.
\<close>

record 'd hub =
  hb_phase :: hub_phase
  hb_controllers :: nat
  hb_remotes :: nat
  hb_returns :: "urb_handle list"
  hb_register :: "(register_port \<times> 'd \<times> nat) list"
  hb_giveback :: "urb_handle list"
  hb_disconnect :: "(port \<times> nat) list"
  hb_work :: "work list"
  hb_results :: "controller_result list"
  hb_spawning :: "'d controller_job list"
  hb_tasks :: "'d task list"
  hb_thread :: "'d thread_state"
  hb_fetching :: bool
  hb_demux :: "'d demux"
  hb_received :: "nat \<Rightarrow> nat"
  hb_left :: "nat list"
  hb_unplugged :: "port list"
  hb_next_tx :: nat

definition MAILBOX_ROOM :: nat where "MAILBOX_ROOM = 1"
definition TASKS_ROOM :: nat where "TASKS_ROOM = 64"
definition GIVEBACK_ROOM :: nat where "GIVEBACK_ROOM = 32"
definition REQUEST_ROOM :: nat where "REQUEST_ROOM = 1"

definition controller_start :: "'d hub" where
  "controller_start = \<lparr>hb_phase = Demuxing, hb_controllers = 1, hb_remotes = 0, hb_returns = [], hb_register = [],
     hb_giveback = [], hb_disconnect = [], hb_work = [], hb_results = [], hb_spawning = [], hb_tasks = [],
     hb_thread = ThIdle, hb_fetching = True, hb_demux = demux_start, hb_received = (\<lambda>_. 0), hb_left = [], hb_unplugged = [], hb_next_tx = 0\<rparr>"

text \<open>
  The senders of each channel. Each call of the driver has a sender for its result, and \<^verbatim>\<open>demux\<close>
  keeps the one that it clones for them.
\<close>

definition request_senders :: "'d hub \<Rightarrow> nat" where
  "request_senders s = hb_controllers s"

definition giveback_senders :: "'d hub \<Rightarrow> nat" where
  "giveback_senders s = hb_controllers s + hb_remotes s + length (hb_returns s)"

definition work_senders :: "'d hub \<Rightarrow> nat" where
  "work_senders s = (if hb_fetching s then 1 else 0)"

definition task_call :: "'d task \<Rightarrow> 'd controller_job option" where
  "task_call t = (case t of TaskCall j \<Rightarrow> Some j | _ \<Rightarrow> None)"

definition thread_sender :: "'d thread_state \<Rightarrow> nat" where
  "thread_sender th =
     (case th of ThRunning t \<Rightarrow> if task_call t = None then 0 else 1 | ThSending _ \<Rightarrow> 1 | _ \<Rightarrow> 0)"

definition result_senders :: "'d hub \<Rightarrow> nat" where
  "result_senders s = (if hb_phase s = Demuxing then 1 else 0) + length (hb_spawning s) +
     length (List.map_filter task_call (hb_tasks s)) + thread_sender (hb_thread s)"

text \<open>The merged stream ends when all its channels have.\<close>

definition events_ended :: "'d hub \<Rightarrow> bool" where
  "events_ended s \<longleftrightarrow>
     request_senders s = 0 \<and> hb_register s = [] \<and> hb_disconnect s = [] \<and>
     giveback_senders s = 0 \<and> hb_giveback s = [] \<and>
     work_senders s = 0 \<and> hb_work s = [] \<and>
     result_senders s = 0 \<and> hb_results s = []"

section \<open>Clients\<close>

definition register :: "register_port \<Rightarrow> 'd \<Rightarrow> 'd hub \<Rightarrow> 'd hub option" where
  "register prt rate s =
     (if hb_phase s = Demuxing \<and> 0 < hb_controllers s \<and> length (hb_register s) < REQUEST_ROOM
      then Some (s\<lparr>hb_register := hb_register s @ [(prt, rate, hb_next_tx s)], hb_next_tx := hb_next_tx s + 1\<rparr>)
      else None)"

definition disconnect :: "port \<Rightarrow> 'd hub \<Rightarrow> 'd hub option" where
  "disconnect prt s =
     (if hb_phase s = Demuxing \<and> 0 < hb_controllers s \<and> length (hb_disconnect s) < REQUEST_ROOM
      then Some (s\<lparr>hb_disconnect := hb_disconnect s @ [(prt, hb_next_tx s)], hb_next_tx := hb_next_tx s + 1\<rparr>)
      else None)"

definition clone_controller :: "'d hub \<Rightarrow> 'd hub option" where
  "clone_controller s = (if 0 < hb_controllers s then Some (s\<lparr>hb_controllers := hb_controllers s + 1\<rparr>) else None)"

text \<open>The last controller detaches the task, which goes on.\<close>

definition drop_controller :: "'d hub \<Rightarrow> 'd hub option" where
  "drop_controller s = (if 0 < hb_controllers s then Some (s\<lparr>hb_controllers := hb_controllers s - 1\<rparr>) else None)"

definition remote :: "'d hub \<Rightarrow> 'd hub option" where
  "remote s = (if 0 < hb_controllers s then Some (s\<lparr>hb_remotes := hb_remotes s + 1\<rparr>) else None)"

definition clone_remote :: "'d hub \<Rightarrow> 'd hub option" where
  "clone_remote s = (if 0 < hb_remotes s then Some (s\<lparr>hb_remotes := hb_remotes s + 1\<rparr>) else None)"

definition drop_remote :: "'d hub \<Rightarrow> 'd hub option" where
  "drop_remote s = (if 0 < hb_remotes s then Some (s\<lparr>hb_remotes := hb_remotes s - 1\<rparr>) else None)"

text \<open>
  The driver gets the request from the thread; the demultiplexer is told by a future, which may be
  dropped. Where the channel of the thread is full, the caller waits.
\<close>

definition giveback_urb :: "urb_handle \<Rightarrow> 'd hub \<Rightarrow> 'd hub option" where
  "giveback_urb hnd s =
     (if 0 < hb_remotes s \<and> hb_thread s \<noteq> ThDead \<and> length (hb_tasks s) < TASKS_ROOM
      then Some (s\<lparr>hb_tasks := hb_tasks s @ [TaskGiveback hnd], hb_returns := hb_returns s @ [hnd]\<rparr>) else None)"

definition submit_transfer :: "'d hub \<Rightarrow> 'd hub option" where
  "submit_transfer s =
     (if hb_thread s \<noteq> ThDead \<and> length (hb_tasks s) < TASKS_ROOM
      then Some (s\<lparr>hb_tasks := hb_tasks s @ [TaskSubmit]\<rparr>) else None)"

definition take_nth :: "nat \<Rightarrow> 'a list \<Rightarrow> 'a list" where
  "take_nth i xs = take i xs @ drop (Suc i) xs"

definition giveback_send :: "nat \<Rightarrow> 'd hub \<Rightarrow> 'd hub option" where
  "giveback_send i s =
     (if i < length (hb_returns s) then
        (if hb_phase s \<noteq> Demuxing then Some (s\<lparr>hb_returns := take_nth i (hb_returns s)\<rparr>)
         else if length (hb_giveback s) < GIVEBACK_ROOM
         then Some (s\<lparr>hb_returns := take_nth i (hb_returns s), hb_giveback := hb_giveback s @ [hb_returns s ! i]\<rparr>)
         else None)
      else None)"

definition giveback_drop :: "nat \<Rightarrow> 'd hub \<Rightarrow> 'd hub option" where
  "giveback_drop i s =
     (if i < length (hb_returns s) then Some (s\<lparr>hb_returns := take_nth i (hb_returns s)\<rparr>) else None)"

text \<open>The device of a mailbox receives the next item.\<close>

definition receive_work :: "nat \<Rightarrow> 'd hub \<Rightarrow> 'd hub option" where
  "receive_work b s =
     (if b \<notin> set (hb_left s) \<and> hb_received s b < length (mailboxes (hb_demux s) b)
      then Some (s\<lparr>hb_received := (hb_received s)(b := hb_received s b + 1)\<rparr>) else None)"

definition leave_mailbox :: "nat \<Rightarrow> 'd hub \<Rightarrow> 'd hub option" where
  "leave_mailbox b s = Some (s\<lparr>hb_left := b # hb_left s\<rparr>)"

section \<open>Threads\<close>

text \<open>What the driver answers to a call. A device that asked for a port is told that port.\<close>

datatype driver_answer = DrvPort "io_error + port" | DrvDone "io_error + unit"

fun controller_call :: "'d controller_job \<Rightarrow> driver_answer \<Rightarrow> controller_result option" where
  "controller_call (JobConnect AnyPort _ tx) (DrvPort r) = Some (CrRegister r tx)"
| "controller_call (JobConnect (ThisPort p) _ tx) (DrvDone r) = Some (CrRegister (map_sum id (\<lambda>_. p) r) tx)"
| "controller_call (JobDisconnect _ tx) (DrvDone r) = Some (CrDisconnect r tx)"
| "controller_call _ _ = None"

definition task_starts :: "'d hub \<Rightarrow> 'd hub option" where
  "task_starts s =
     (case (hb_thread s, hb_tasks s) of
        (ThIdle, t # ts) \<Rightarrow> Some (s\<lparr>hb_thread := ThRunning t, hb_tasks := ts\<rparr>)
      | _ \<Rightarrow> None)"

definition task_returns :: "driver_answer \<Rightarrow> 'd hub \<Rightarrow> 'd hub option" where
  "task_returns a s =
     (case hb_thread s of
        ThRunning (TaskCall j) \<Rightarrow> map_option (\<lambda>r. s\<lparr>hb_thread := ThSending r\<rparr>) (controller_call j a)
      | ThRunning _ \<Rightarrow> Some (s\<lparr>hb_thread := ThIdle\<rparr>)
      | _ \<Rightarrow> None)"

text \<open>The thread waits for room for its result, and panics when there is nobody to take it.\<close>

definition result_send :: "'d hub \<Rightarrow> 'd hub option" where
  "result_send s =
     (case hb_thread s of
        ThSending r \<Rightarrow>
          (if hb_phase s \<noteq> Demuxing then Some (s\<lparr>hb_thread := ThDead, hb_tasks := []\<rparr>)
           else if length (hb_results s) < REQUEST_ROOM
           then Some (s\<lparr>hb_thread := ThIdle, hb_results := hb_results s @ [r]\<rparr>)
           else None)
      | _ \<Rightarrow> None)"

definition work_fetched :: "work \<Rightarrow> 'd hub \<Rightarrow> 'd hub option" where
  "work_fetched w s =
     (if hb_fetching s \<and> hb_phase s = Demuxing \<and> length (hb_work s) < REQUEST_ROOM
      then Some (s\<lparr>hb_work := hb_work s @ [w]\<rparr>) else None)"

text \<open>The fetching thread ends when the driver fails, or when its receiver is gone.\<close>

definition fetching_ends :: "bool \<Rightarrow> 'd hub \<Rightarrow> 'd hub option" where
  "fetching_ends failed s =
     (if hb_fetching s \<and> (failed \<or> hb_phase s \<noteq> Demuxing) then Some (s\<lparr>hb_fetching := False\<rparr>) else None)"

section \<open>The task\<close>

datatype hub_source = FromRegister | FromGiveback | FromDisconnect | FromWork | FromController

fun next_event :: "hub_source \<Rightarrow> 'd hub \<Rightarrow> ('d demux_event \<times> 'd hub) option" where
  "next_event FromRegister s =
     (case hb_register s of [] \<Rightarrow> None | (prt, rate, tx) # rs \<Rightarrow> Some (DRegister prt rate tx, s\<lparr>hb_register := rs\<rparr>))"
| "next_event FromGiveback s =
     (case hb_giveback s of [] \<Rightarrow> None | hnd # hs \<Rightarrow> Some (DGivebackUrb hnd, s\<lparr>hb_giveback := hs\<rparr>))"
| "next_event FromDisconnect s =
     (case hb_disconnect s of [] \<Rightarrow> None | (prt, tx) # ds \<Rightarrow> Some (DDisconnect prt tx, s\<lparr>hb_disconnect := ds\<rparr>))"
| "next_event FromWork s =
     (case hb_work s of [] \<Rightarrow> None | w # ws \<Rightarrow> Some (DWork w, s\<lparr>hb_work := ws\<rparr>))"
| "next_event FromController s =
     (case hb_results s of [] \<Rightarrow> None | r # rs \<Rightarrow> Some (DController r, s\<lparr>hb_results := rs\<rparr>))"

text \<open>With its receivers the task drops what they hold.\<close>

definition drop_events :: "'d hub \<Rightarrow> 'd hub" where
  "drop_events s = s\<lparr>hb_register := [], hb_giveback := [], hb_disconnect := [], hb_work := [], hb_results := []\<rparr>"

definition crash :: "'d hub \<Rightarrow> 'd hub" where
  "crash s = (drop_events s)\<lparr>hb_phase := Crashed, hb_spawning := []\<rparr>"

text \<open>A call that the step has started is handed to the thread, before the task takes another event.\<close>

text \<open>The task waits for room in the mailbox to which it sends, or until its device is gone.\<close>

definition mailbox_full :: "'d hub \<Rightarrow> nat \<Rightarrow> bool" where
  "mailbox_full s b \<longleftrightarrow> b \<notin> set (hb_left s) \<and> hb_received s b + MAILBOX_ROOM < length (mailboxes (hb_demux s) b)"

definition waits_for_device :: "'d hub \<Rightarrow> bool" where
  "waits_for_device s \<longleftrightarrow> list_ex (mailbox_full s) [0..<next_mailbox (hb_demux s)]"

definition hub_take :: "bool \<Rightarrow> vhci_ops \<Rightarrow> (nat \<Rightarrow> bool) \<Rightarrow> hub_source \<Rightarrow> 'd hub \<Rightarrow> 'd hub option" where
  "hub_take chk V listening src s =
     (if hb_phase s = Demuxing \<and> hb_spawning s = [] \<and> \<not> waits_for_device s then
        map_option (\<lambda>(ev, s1).
          case demux_step chk V listening ev (hb_demux s) of
            Ret d \<Rightarrow> s1\<lparr>hb_demux := d, hb_spawning := drop (length (jobs (hb_demux s))) (jobs d)\<rparr>
          | _ \<Rightarrow> crash s1) (next_event src s)
      else None)"

definition spawn_call :: "'d hub \<Rightarrow> 'd hub option" where
  "spawn_call s =
     (case hb_spawning s of
        [] \<Rightarrow> None
      | j # js \<Rightarrow>
          (if hb_thread s = ThDead then Some (crash s)
           else if length (hb_tasks s) < TASKS_ROOM
           then Some (s\<lparr>hb_spawning := js, hb_tasks := hb_tasks s @ [TaskCall j]\<rparr>)
           else None))"

text \<open>
  After the loop: the ports still in the map, in the order of the hash map, are disconnected, and
  the errors of the driver are only logged; then the fetching thread is waited for.
\<close>

definition loop_ends :: "port list \<Rightarrow> 'd hub \<Rightarrow> 'd hub option" where
  "loop_ends ports s =
     (if hb_phase s = Demuxing \<and> events_ended s \<and> distinct ports \<and> set ports = dom (key1_map (mailer (hb_demux s)))
      then Some ((drop_events s)\<lparr>hb_phase := Disconnecting, hb_unplugged := ports\<rparr>) else None)"

definition fetching_joined :: "'d hub \<Rightarrow> 'd hub option" where
  "fetching_joined s =
     (if hb_phase s = Disconnecting \<and> \<not> hb_fetching s then Some (s\<lparr>hb_phase := Finished\<rparr>) else None)"

datatype 'd hub_event =
    HRegister register_port 'd | HDisconnect port
  | HCloneController | HDropController | HRemote | HCloneRemote | HDropRemote
  | HGiveback urb_handle | HGivebackSend nat | HGivebackDrop nat | HSubmit
  | HReceive nat | HLeave nat
  | HTaskStarts | HTaskReturns driver_answer | HResult
  | HFetch work | HFetchEnd bool
  | HTake hub_source | HSpawn | HLoopEnd "port list" | HJoined

fun hub_step :: "bool \<Rightarrow> vhci_ops \<Rightarrow> (nat \<Rightarrow> bool) \<Rightarrow> 'd hub_event \<Rightarrow> 'd hub \<Rightarrow> 'd hub option" where
  "hub_step chk V listening (HRegister prt rate) s = register prt rate s"
| "hub_step chk V listening (HDisconnect prt) s = disconnect prt s"
| "hub_step chk V listening HCloneController s = clone_controller s"
| "hub_step chk V listening HDropController s = drop_controller s"
| "hub_step chk V listening HRemote s = remote s"
| "hub_step chk V listening HCloneRemote s = clone_remote s"
| "hub_step chk V listening HDropRemote s = drop_remote s"
| "hub_step chk V listening (HGiveback hnd) s = giveback_urb hnd s"
| "hub_step chk V listening (HGivebackSend i) s = giveback_send i s"
| "hub_step chk V listening (HGivebackDrop i) s = giveback_drop i s"
| "hub_step chk V listening HSubmit s = submit_transfer s"
| "hub_step chk V listening (HReceive b) s = receive_work b s"
| "hub_step chk V listening (HLeave b) s = leave_mailbox b s"
| "hub_step chk V listening HTaskStarts s = task_starts s"
| "hub_step chk V listening (HTaskReturns a) s = task_returns a s"
| "hub_step chk V listening HResult s = result_send s"
| "hub_step chk V listening (HFetch w) s = work_fetched w s"
| "hub_step chk V listening (HFetchEnd failed) s = fetching_ends failed s"
| "hub_step chk V listening (HTake src) s = hub_take chk V listening src s"
| "hub_step chk V listening HSpawn s = spawn_call s"
| "hub_step chk V listening (HLoopEnd ports) s = loop_ends ports s"
| "hub_step chk V listening HJoined s = fetching_joined s"

inductive hub_reach :: "bool \<Rightarrow> vhci_ops \<Rightarrow> (nat \<Rightarrow> bool) \<Rightarrow> 'd hub \<Rightarrow> bool"
  for chk :: bool and V :: vhci_ops and listening :: "nat \<Rightarrow> bool" where
  hub_start: "hub_reach chk V listening controller_start"
| hub_next: "hub_reach chk V listening s' "
    if "hub_reach chk V listening s" and "hub_step chk V listening e s = Some s'"

fun hub_run :: "bool \<Rightarrow> vhci_ops \<Rightarrow> (nat \<Rightarrow> bool) \<Rightarrow> 'd hub_event list \<Rightarrow> 'd hub \<Rightarrow> 'd hub option" where
  "hub_run chk V listening [] s = Some s"
| "hub_run chk V listening (e # es) s = Option.bind (hub_step chk V listening e s) (hub_run chk V listening es)"

inductive_cases hub_reachE: "hub_reach chk V listening s"

section \<open>Facts\<close>

lemma hub_run_append:
  "hub_run chk V listening (es @ es') s = Option.bind (hub_run chk V listening es s) (hub_run chk V listening es')"
  by (induction es arbitrary: s) (auto split: bind_splits)

lemma hub_run_inv:
  assumes "hub_run chk V listening es s = Some s'" and "I s"
    and "\<And>e s s'. I s \<Longrightarrow> hub_step chk V listening e s = Some s' \<Longrightarrow> I s'"
  shows "I s'"
  using assms(1,2)
proof (induction es arbitrary: s)
  case (Cons e es)
  then obtain s1 where s1: "hub_step chk V listening e s = Some s1" "hub_run chk V listening es s1 = Some s'"
    by (auto split: bind_splits)
  from Cons.IH [OF s1(2) assms(3) [OF Cons.prems(2) s1(1)]] show ?case .
qed simp

lemma hub_reach_run: "hub_reach chk V listening s \<Longrightarrow> hub_run chk V listening es s = Some s' \<Longrightarrow> hub_reach chk V listening s'"
  by (erule hub_run_inv) (auto intro: hub_next)

text \<open>The next event leaves all but its channel as it is.\<close>

lemma next_event_keeps:
  assumes "next_event src s = Some (ev, s1)"
  shows "hb_phase s1 = hb_phase s \<and> hb_unplugged s1 = hb_unplugged s \<and> hb_tasks s1 = hb_tasks s \<and>
    hb_thread s1 = hb_thread s \<and> hb_next_tx s1 = hb_next_tx s \<and> hb_spawning s1 = hb_spawning s \<and>
    hb_demux s1 = hb_demux s"
  using assms by (cases src) (auto split: list.splits)

lemma hub_takeE:
  assumes "hub_take chk V listening src s = Some s'"
  obtains (Done) ev s1 d where "next_event src s = Some (ev, s1)" "hb_phase s = Demuxing" "hb_spawning s = []"
      "demux_step chk V listening ev (hb_demux s) = Ret d"
      "s' = s1\<lparr>hb_demux := d, hb_spawning := drop (length (jobs (hb_demux s))) (jobs d)\<rparr>"
  | (Crash) ev s1 where "next_event src s = Some (ev, s1)" "s' = crash s1"
proof -
  from assms obtain ev s1 where n: "next_event src s = Some (ev, s1)"
    and p: "hb_phase s = Demuxing" "hb_spawning s = []"
    and s': "s' = (case demux_step chk V listening ev (hb_demux s) of
      Ret d \<Rightarrow> s1\<lparr>hb_demux := d, hb_spawning := drop (length (jobs (hb_demux s))) (jobs d)\<rparr> | _ \<Rightarrow> crash s1)"
    by (auto simp: hub_take_def split: if_splits)
  show thesis
  proof (cases "demux_step chk V listening ev (hb_demux s)")
    case (Ret d)
    with Done [OF n p Ret] s' show ?thesis by simp
  qed (use Crash [OF n] s' in simp_all)
qed

lemma crash_sel [simp]:
  "hb_phase (crash s) = Crashed" "hb_unplugged (crash s) = hb_unplugged s" "hb_demux (crash s) = hb_demux s"
  "hb_next_tx (crash s) = hb_next_tx s" "hb_spawning (crash s) = []" "hb_tasks (crash s) = hb_tasks s"
  "hb_thread (crash s) = hb_thread s"
  by (simp_all add: crash_def drop_events_def)

text \<open>The other steps are not those of the task.\<close>

lemma other_step:
  assumes "hub_step chk V listening e s = Some s'" and "\<forall>src. e \<noteq> HTake src" and "e \<noteq> HSpawn"
    and "\<forall>ports. e \<noteq> HLoopEnd ports" and "e \<noteq> HJoined"
  shows "hb_phase s' = hb_phase s \<and> hb_unplugged s' = hb_unplugged s \<and> hb_demux s' = hb_demux s \<and> hb_spawning s' = hb_spawning s"
proof (cases e)
  case HTaskStarts
  with assms(1) show ?thesis by (auto simp: task_starts_def split: list.splits thread_state.splits)
next
  case (HTaskReturns a)
  with assms(1) show ?thesis by (auto simp: task_returns_def split: task.splits thread_state.splits)
next
  case HResult
  with assms(1) show ?thesis by (auto simp: result_send_def split: if_splits thread_state.splits)
next
  case (HGivebackSend i)
  with assms(1) show ?thesis by (auto simp: giveback_send_def split: if_splits)
qed (use assms in \<open>auto simp: register_def disconnect_def clone_controller_def drop_controller_def remote_def
  clone_remote_def drop_remote_def giveback_urb_def giveback_drop_def submit_transfer_def work_fetched_def
  receive_work_def leave_mailbox_def fetching_ends_def split: if_splits\<close>)

lemma spawnE:
  assumes "spawn_call s = Some s'"
  obtains (Crash) "s' = crash s"
  | (Pushed) j js where "hb_spawning s = j # js" "length (hb_tasks s) < TASKS_ROOM" "hb_thread s \<noteq> ThDead"
      "s' = s\<lparr>hb_spawning := js, hb_tasks := hb_tasks s @ [TaskCall j]\<rparr>"
  using assms by (cases "hb_spawning s") (auto simp: spawn_call_def split: if_splits)

text \<open>The task never leaves its loop: it is itself a sender of the results that it waits for.\<close>

definition looping :: "'d hub \<Rightarrow> bool" where
  "looping s \<longleftrightarrow> hb_phase s \<in> {Demuxing, Crashed} \<and> hb_unplugged s = []"

lemma not_ended: "hb_phase s = Demuxing \<Longrightarrow> \<not> events_ended s"
  by (simp add: events_ended_def result_senders_def)

lemma no_loop_end: "looping s \<Longrightarrow> loop_ends ports s = None \<and> fetching_joined s = None"
  using not_ended by (auto simp: loop_ends_def fetching_joined_def looping_def)

lemma hub_step_looping:
  assumes "looping s" and "hub_step chk V listening e s = Some s'"
  shows "looping s'"
proof (cases e)
  case (HTake src)
  with assms(2) have "hub_take chk V listening src s = Some s'" by simp
  then show ?thesis
  proof (cases rule: hub_takeE)
    case Done
    with assms(1) next_event_keeps [OF Done(1)] show ?thesis by (simp add: looping_def)
  next
    case Crash
    with assms(1) next_event_keeps [OF Crash(1)] show ?thesis by (simp add: looping_def)
  qed
next
  case HSpawn
  with assms(2) have "spawn_call s = Some s'" by simp
  then show ?thesis by (cases rule: spawnE) (use assms(1) in \<open>simp_all add: looping_def\<close>)
qed (use assms no_loop_end [OF assms(1)] other_step [OF assms(2)] in \<open>simp_all add: looping_def\<close>)

lemma looping_start: "looping controller_start"
  by (simp add: looping_def controller_start_def)

lemma hub_reach_looping: "hub_reach chk V listening s \<Longrightarrow> looping s"
  by (induction rule: hub_reach.induct) (auto intro: looping_start hub_step_looping)

text \<open>Whatever the threads do, the task runs the demultiplexer.\<close>

lemma demux_run_append:
  "demux_run chk V listening (evs @ evs') s = rbind (demux_run chk V listening evs s) (demux_run chk V listening evs')"
proof (induction evs arbitrary: s)
  case (Cons ev evs)
  then have "(\<lambda>s. demux_run chk V listening (evs @ evs') s) =
      (\<lambda>s. rbind (demux_run chk V listening evs s) (demux_run chk V listening evs'))" by (intro ext)
  then show ?case by (simp add: rbind_assoc)
qed simp

lemma hub_step_demux:
  assumes "hub_step chk V listening e s = Some s'"
  shows "hb_demux s' = hb_demux s \<or> (\<exists>ev. demux_step chk V listening ev (hb_demux s) = Ret (hb_demux s'))"
proof (cases e)
  case (HTake src)
  with assms have "hub_take chk V listening src s = Some s'" by simp
  then show ?thesis
  proof (cases rule: hub_takeE)
    case Done
    then show ?thesis by auto
  next
    case Crash
    with next_event_keeps [OF Crash(1)] show ?thesis by simp
  qed
next
  case HSpawn
  with assms have "spawn_call s = Some s'" by simp
  then show ?thesis by (cases rule: spawnE) simp_all
next
  case (HLoopEnd ports)
  with assms show ?thesis by (auto simp: loop_ends_def drop_events_def split: if_splits)
next
  case HJoined
  with assms show ?thesis by (auto simp: fetching_joined_def split: if_splits)
qed (use other_step [OF assms] in simp_all)

lemma hub_runs_demux:
  "hub_reach chk V listening s \<Longrightarrow> \<exists>evs. demux_run chk V listening evs demux_start = Ret (hb_demux s)"
proof (induction rule: hub_reach.induct)
  case hub_start
  show ?case by (rule exI [of _ "[]"]) (simp add: controller_start_def)
next
  case (hub_next s e s')
  then obtain evs where evs: "demux_run chk V listening evs demux_start = Ret (hb_demux s)" by blast
  from hub_step_demux [OF hub_next.hyps(2)] show ?case
  proof
    assume "\<exists>ev. demux_step chk V listening ev (hb_demux s) = Ret (hb_demux s')"
    then obtain ev where "demux_step chk V listening ev (hb_demux s) = Ret (hb_demux s')" ..
    with evs show ?thesis by (intro exI [of _ "evs @ [ev]"]) (simp add: demux_run_append)
  qed (use evs in auto)
qed

section \<open>The requests under way\<close>

fun job_tx :: "'d controller_job \<Rightarrow> nat" where
  "job_tx (JobConnect _ _ tx) = tx"
| "job_tx (JobDisconnect _ tx) = tx"

fun result_tx :: "controller_result \<Rightarrow> nat" where
  "result_tx (CrRegister _ tx) = tx"
| "result_tx (CrDisconnect _ tx) = tx"

fun event_txs :: "'d demux_event \<Rightarrow> nat list" where
  "event_txs (DRegister _ _ tx) = [tx]"
| "event_txs (DDisconnect _ tx) = [tx]"
| "event_txs (DController r) = [result_tx r]"
| "event_txs _ = []"

definition task_txs :: "'d task list \<Rightarrow> nat list" where
  "task_txs ts = map job_tx (List.map_filter task_call ts)"

fun thread_txs :: "'d thread_state \<Rightarrow> nat list" where
  "thread_txs (ThRunning t) = task_txs [t]"
| "thread_txs (ThSending r) = [result_tx r]"
| "thread_txs _ = []"

definition in_flight :: "'d hub \<Rightarrow> nat list" where
  "in_flight s = map (snd \<circ> snd) (hb_register s) @ map snd (hb_disconnect s) @ map job_tx (hb_spawning s) @
     task_txs (hb_tasks s) @ thread_txs (hb_thread s) @ map result_tx (hb_results s)"

definition answered :: "'d hub \<Rightarrow> nat list" where
  "answered s = map fst (answers (hb_demux s))"

definition tokens :: "'d hub \<Rightarrow> nat multiset" where
  "tokens s = mset (in_flight s) + mset (answered s)"

lemma task_txs_simps [simp]:
  "task_txs [] = []" "task_txs (TaskCall j # ts) = job_tx j # task_txs ts"
  "task_txs (TaskGiveback h # ts) = task_txs ts" "task_txs (TaskSubmit # ts) = task_txs ts"
  "task_txs (ts @ us) = task_txs ts @ task_txs us"
  by (simp_all add: task_txs_def List.map_filter_def task_call_def)

lemma controller_call_tx: "controller_call j a = Some r \<Longrightarrow> result_tx r = job_tx j"
  by (cases "(j, a)" rule: controller_call.cases) auto

lemma demux_step_tokens:
  assumes "demux_step chk V listening ev d = Ret d'"
  shows "mset (map job_tx (drop (length (jobs d)) (jobs d'))) + mset (map fst (answers d')) =
      mset (event_txs ev) + mset (map fst (answers d)) \<or>
    (\<exists>tx. \<not> listening tx \<and> event_txs ev = [tx] \<and> jobs d' = jobs d \<and> answers d' = answers d)"
proof (cases ev)
  case (DWork w)
  with assms obtain tx q m where
    "d' = (let t = d\<lparr>register_queue := q, mailer := m\<rparr>
       in case tx of Some b \<Rightarrow> t\<lparr>mailboxes := (mailboxes d)(b := mailboxes d b @ [w])\<rparr> | None \<Rightarrow> t)"
    by (auto simp: demux_step_def rbind_eq_Ret Let_def)
  then have "jobs d' = jobs d" "answers d' = answers d" by (simp_all add: Let_def split: option.split)
  with DWork show ?thesis by simp
next
  case (DController r)
  show ?thesis
  proof (cases r)
    case (CrRegister q tx)
    show ?thesis
    proof (cases q)
      case (Inl err)
      with assms DController CrRegister show ?thesis by (auto simp: demux_step_def split: if_splits)
    next
      case (Inr prt)
      with assms DController CrRegister obtain m where
        "d' = d\<lparr>mailer := m, next_mailbox := next_mailbox d + 1, answers := answers d @ [(tx, Registered (Inr (prt, next_mailbox d)))]\<rparr>"
        by (auto simp: demux_step_def rbind_eq_Ret Let_def split: prod.splits)
      with DController CrRegister show ?thesis by simp
    qed
  next
    case (CrDisconnect q tx)
    with assms DController show ?thesis by (auto simp: demux_step_def split: if_splits)
  qed
qed (use assms in \<open>auto simp: demux_step_def rbind_eq_Ret\<close>)

lemma next_event_tokens:
  assumes "next_event src s = Some (ev, s1)"
  shows "mset (in_flight s) = mset (event_txs ev) + mset (in_flight s1)"
  using assms by (cases src) (auto simp: in_flight_def split: list.splits)

text \<open>A step of a task or thread moves a request on, a new request gets a new number, and an answer that nobody waits for is dropped.\<close>

definition tokens_move :: "(nat \<Rightarrow> bool) \<Rightarrow> 'd hub \<Rightarrow> 'd hub \<Rightarrow> bool" where
  "tokens_move listening s s' \<longleftrightarrow>
     hb_next_tx s' = hb_next_tx s \<and> tokens s' = tokens s \<or>
     hb_next_tx s' = Suc (hb_next_tx s) \<and> tokens s' = add_mset (hb_next_tx s) (tokens s) \<or>
     hb_next_tx s' = hb_next_tx s \<and> (\<exists>tx. \<not> listening tx \<and> tokens s = add_mset tx (tokens s'))"

lemmas token_defs = tokens_move_def tokens_def in_flight_def answered_def

lemma hub_take_tokens:
  assumes "hub_take chk V listening src s = Some s'" and "hb_phase s' = Demuxing"
  shows "tokens_move listening s s'"
  using assms(1)
proof (cases rule: hub_takeE)
  case (Done ev s1 d)
  let ?new = "drop (length (jobs (hb_demux s))) (jobs d)"
  note k = next_event_keeps [OF Done(1)]
  have s1: "mset (in_flight s') = mset (in_flight s1) + mset (map job_tx ?new)"
    using k Done(3) by (simp add: in_flight_def Done(5))
  note n = next_event_tokens [OF Done(1)]
  from demux_step_tokens [OF Done(4)] show ?thesis
  proof
    assume d: "mset (map job_tx ?new) + mset (map fst (answers d)) =
      mset (event_txs ev) + mset (map fst (answers (hb_demux s)))"
    have "tokens s' = mset (in_flight s1) + (mset (map job_tx ?new) + mset (map fst (answers d)))"
      unfolding tokens_def s1 by (simp add: answered_def Done(5))
    also have "\<dots> = tokens s" unfolding d tokens_def n by (simp add: answered_def)
    finally show ?thesis using k by (simp add: tokens_move_def Done(5))
  next
    assume "\<exists>tx. \<not> listening tx \<and> event_txs ev = [tx] \<and> jobs d = jobs (hb_demux s) \<and> answers d = answers (hb_demux s)"
    then obtain tx where "\<not> listening tx" "event_txs ev = [tx]" "jobs d = jobs (hb_demux s)"
      "answers d = answers (hb_demux s)" by blast
    with n s1 k show ?thesis by (auto simp: tokens_move_def tokens_def answered_def Done(5))
  qed
qed (use assms(2) in simp)

lemma hub_step_tokens:
  assumes "hub_step chk V listening e s = Some s'" and "hb_phase s' = Demuxing"
  shows "tokens_move listening s s'"
proof (cases e)
  case (HTake src)
  with assms hub_take_tokens show ?thesis by auto
next
  case HSpawn
  with assms(1) have "spawn_call s = Some s'" by simp
  then show ?thesis by (cases rule: spawnE) (use assms(2) in \<open>simp_all add: token_defs\<close>)
next
  case (HTaskReturns a)
  with assms(1) show ?thesis
    by (auto simp: task_returns_def token_defs controller_call_tx split: task.splits thread_state.splits)
next
  case HTaskStarts
  with assms(1) obtain t ts where "hb_tasks s = t # ts" "hb_thread s = ThIdle" "s' = s\<lparr>hb_thread := ThRunning t, hb_tasks := ts\<rparr>"
    by (auto simp: task_starts_def split: list.splits thread_state.splits)
  then show ?thesis by (cases t) (simp_all add: token_defs)
next
  case HResult
  with assms obtain r where "hb_thread s = ThSending r" "s' = s\<lparr>hb_thread := ThIdle, hb_results := hb_results s @ [r]\<rparr>"
    by (auto simp: result_send_def split: if_splits thread_state.splits)
  then show ?thesis by (simp add: token_defs)
next
  case (HGivebackSend i)
  with assms(1) show ?thesis by (auto simp: giveback_send_def token_defs split: if_splits)
next
  case (HLoopEnd ports)
  with assms show ?thesis by (auto simp: loop_ends_def split: if_splits)
next
  case HJoined
  with assms show ?thesis by (auto simp: fetching_joined_def split: if_splits)
qed (use assms in \<open>auto simp: token_defs register_def disconnect_def clone_controller_def drop_controller_def remote_def
  clone_remote_def drop_remote_def giveback_urb_def giveback_drop_def submit_transfer_def work_fetched_def
  receive_work_def leave_mailbox_def fetching_ends_def split: if_splits\<close>)

definition requests_ok :: "(nat \<Rightarrow> bool) \<Rightarrow> 'd hub \<Rightarrow> bool" where
  "requests_ok listening s \<longleftrightarrow> (hb_phase s = Demuxing \<longrightarrow>
     tokens s \<subseteq># mset [0..<hb_next_tx s] \<and> (\<forall>tx < hb_next_tx s. listening tx \<longrightarrow> tx \<in># tokens s))"

lemma hub_step_demuxing:
  assumes "hub_step chk V listening e s = Some s'" and "hb_phase s' = Demuxing"
  shows "hb_phase s = Demuxing"
proof (cases e)
  case (HTake src)
  with assms show ?thesis by (auto simp: hub_take_def split: if_splits)
next
  case HSpawn
  with assms(1) have "spawn_call s = Some s'" by simp
  then show ?thesis by (cases rule: spawnE) (use assms(2) in simp_all)
next
  case (HLoopEnd ports)
  with assms show ?thesis by (auto simp: loop_ends_def split: if_splits)
next
  case HJoined
  with assms show ?thesis by (auto simp: fetching_joined_def split: if_splits)
qed (use other_step [OF assms(1)] assms(2) in simp_all)

lemma subset_mset_moves:
  "add_mset tx M \<subseteq># N \<Longrightarrow> M \<subseteq># N" "M \<subseteq># N \<Longrightarrow> add_mset tx M \<subseteq># add_mset tx N"
  by (auto dest: mset_subset_eq_insertD)

lemma hub_step_requests:
  assumes "requests_ok listening s" and "hub_step chk V listening e s = Some s'"
  shows "requests_ok listening s'"
proof (cases "hb_phase s' = Demuxing")
  case True
  with assms hub_step_demuxing [OF assms(2)] have s: "tokens s \<subseteq># mset [0..<hb_next_tx s]"
    "\<forall>tx < hb_next_tx s. listening tx \<longrightarrow> tx \<in># tokens s"
    by (auto simp: requests_ok_def)
  from hub_step_tokens [OF assms(2) True] consider
      "hb_next_tx s' = hb_next_tx s" "tokens s' = tokens s"
    | "hb_next_tx s' = Suc (hb_next_tx s)" "tokens s' = add_mset (hb_next_tx s) (tokens s)"
    | tx where "hb_next_tx s' = hb_next_tx s" "\<not> listening tx" "tokens s = add_mset tx (tokens s')"
    unfolding tokens_move_def by blast
  then show ?thesis
  proof cases
    case 1
    with s show ?thesis by (simp add: requests_ok_def)
  next
    case 2
    with s show ?thesis by (auto simp: requests_ok_def less_Suc_eq)
  next
    case 3
    with s have "\<forall>u < hb_next_tx s. listening u \<longrightarrow> u \<in># tokens s'" by (metis insert_iff set_mset_add_mset_insert)
    with 3 s(1) subset_mset_moves(1) show ?thesis by (auto simp: requests_ok_def)
  qed
qed (simp add: requests_ok_def)

lemma hub_reach_requests: "hub_reach chk V listening s \<Longrightarrow> requests_ok listening s"
proof (induction rule: hub_reach.induct)
  case hub_start
  show ?case by (simp add: requests_ok_def token_defs controller_start_def demux_start_def)
qed (rule hub_step_requests)

lemma requests_okD:
  assumes "requests_ok listening s" and "hb_phase s = Demuxing"
  shows "distinct (in_flight s @ answered s)" and "set (in_flight s @ answered s) \<subseteq> {..<hb_next_tx s}"
    and "listening tx \<Longrightarrow> tx < hb_next_tx s \<Longrightarrow> tx \<in> set (in_flight s @ answered s)"
proof -
  have t: "mset (in_flight s @ answered s) = tokens s" by (simp add: tokens_def)
  have m: "mset (in_flight s @ answered s) \<subseteq># mset [0..<hb_next_tx s]"
    using assms unfolding t by (simp add: requests_ok_def)
  have one: "count (mset (in_flight s @ answered s)) tx \<le> 1" for tx
    by (rule order_trans [OF mset_subset_eq_count [OF m]]) (simp add: count_mset_set')
  have "count (mset xs) tx = (if tx \<in> set xs then 1 else 0)" if "count (mset xs) tx \<le> 1" for xs and tx :: nat
    using that by (cases "tx \<in> set xs") (auto simp: le_Suc_eq)
  from this [OF one] have "\<forall>tx. count (mset (in_flight s @ answered s)) tx =
    (if tx \<in> set (in_flight s @ answered s) then 1 else 0)" by blast
  then show "distinct (in_flight s @ answered s)" unfolding distinct_count_atmost_1 by blast
  show "set (in_flight s @ answered s) \<subseteq> {..<hb_next_tx s}"
    using set_mset_mono [OF m] by auto
  show "listening tx \<Longrightarrow> tx < hb_next_tx s \<Longrightarrow> tx \<in> set (in_flight s @ answered s)"
    using assms t by (metis requests_ok_def set_mset_mset)
qed

section \<open>Deadlock\<close>

text \<open>
  The demultiplexer waits for room among the tasks of the thread, which waits for room among the
  results, which only the demultiplexer takes.
\<close>

definition jammed :: "'d hub \<Rightarrow> bool" where
  "jammed s \<longleftrightarrow> hb_phase s = Demuxing \<and> hb_spawning s \<noteq> [] \<and> TASKS_ROOM \<le> length (hb_tasks s) \<and>
     (\<exists>r. hb_thread s = ThSending r) \<and> REQUEST_ROOM \<le> length (hb_results s)"

lemma jammed_step:
  assumes "jammed s" and "hub_step chk V listening e s = Some s'"
  shows "jammed s' \<and> hb_demux s' = hb_demux s \<and> hb_spawning s' = hb_spawning s"
proof -
  obtain r where th: "hb_thread s = ThSending r" using assms(1) by (auto simp: jammed_def)
  obtain j js where sp: "hb_spawning s = j # js" using assms(1) by (cases "hb_spawning s") (auto simp: jammed_def)
  have stuck: "hub_take chk V listening src s = None" "spawn_call s = None" "task_starts s = None" "task_returns a s = None"
    "result_send s = None" "loop_ends ports s = None" "fetching_joined s = None" "submit_transfer s = None"
    "giveback_urb hnd s = None" for src a ports hnd
    using assms(1) not_ended [of s]
    by (simp_all add: jammed_def hub_take_def spawn_call_def task_starts_def task_returns_def result_send_def
        loop_ends_def fetching_joined_def submit_transfer_def giveback_urb_def th sp)
  show ?thesis
    by (cases e) (use assms stuck in \<open>auto simp: jammed_def register_def disconnect_def clone_controller_def
      drop_controller_def remote_def clone_remote_def drop_remote_def giveback_send_def giveback_drop_def
      work_fetched_def receive_work_def leave_mailbox_def fetching_ends_def split: if_splits\<close>)
qed

text \<open>A device that does not take its work holds up all the others: then, too, no event is handled.\<close>

lemma slow_device_stops_all:
  assumes "mailbox_full s b" and "b < next_mailbox (hb_demux s)"
  shows "hub_step chk V listening (HTake src) s = None"
  using assms by (auto simp: hub_take_def waits_for_device_def list_ex_iff)

section \<open>Properties\<close>

text \<open>C28. Each request of a client, for a port or to leave one, has one answer at most, and is not lost on
  its way through channels, task and thread: as long as the demultiplexer runs, a request whose
  client waits is under way or answered.\<close>

theorem requests_answered_once:
  assumes "hub_reach chk V listening s" and "hb_phase s = Demuxing"
  shows "distinct (in_flight s @ answered s) \<and> set (in_flight s @ answered s) \<subseteq> {..<hb_next_tx s} \<and>
    (\<forall>tx < hb_next_tx s. listening tx \<longrightarrow> tx \<in> set (in_flight s @ answered s))"
  using requests_okD [OF hub_reach_requests [OF assms(1)] assms(2)] by blast

text \<open>C29. The demultiplexer never leaves its loop, so it never disconnects the devices that are left: the
  stream of events that it waits for ends when its channels have no sender, but it keeps a sender of
  one, and the fetching thread, which keeps another, waits for the demultiplexer to drop its receiver.
  This is so when the last client is gone, too.\<close>

theorem demux_never_ends:
  assumes "hub_reach chk V listening s"
  shows "hb_phase s \<in> {Demuxing, Crashed} \<and> hb_unplugged s = [] \<and>
    (hb_phase s = Demuxing \<longrightarrow> \<not> events_ended s \<and> hub_step chk V listening (HLoopEnd ports) s = None \<and>
      hub_step chk V listening (HFetchEnd False) s = None)"
  using hub_reach_looping [OF assms] no_loop_end [of s ports] not_ended [of s]
  by (auto simp: looping_def fetching_ends_def)

text \<open>C30. The demultiplexer and the thread that calls the driver can wait for each other: the first for room
  among the tasks, the second for room among the results. Then they do so forever, whatever the
  clients and the driver do, and no event is handled any more.\<close>

theorem demux_deadlocks:
  assumes "jammed s" and "hub_run chk V listening es s = Some s'"
  shows "hb_demux s' = hb_demux s \<and> hub_step chk V listening (HTake src) s' = None \<and>
    hub_step chk V listening HResult s' = None \<and> hub_step chk V listening HSpawn s' = None"
proof -
  have j: "jammed s' \<and> hb_demux s' = hb_demux s"
    by (rule hub_run_inv [OF assms(2)]) (use assms(1) in \<open>auto dest: jammed_step\<close>)
  show ?thesis
  proof (intro conjI)
    show "hb_demux s' = hb_demux s" using j ..
    show "hub_step chk V listening (HTake src) s' = None" using j by (simp add: jammed_def hub_take_def)
    show "hub_step chk V listening HResult s' = None" using j by (auto simp: jammed_def result_send_def)
    show "hub_step chk V listening HSpawn s' = None" using j by (auto simp: jammed_def spawn_call_def split: list.split)
  qed
qed

section \<open>The properties at work\<close>

text \<open>A client registers a device, and the answer is on its way.\<close>

definition one_client :: "unit hub_event list" where
  "one_client = [HRegister AnyPort (), HTake FromRegister, HSpawn, HTaskStarts, HTaskReturns (DrvPort (Inr 1)), HResult,
     HDropController]"

definition after_client :: "unit hub" where
  "after_client = controller_start\<lparr>hb_controllers := 0, hb_results := [CrRegister (Inr 1) 0], hb_next_tx := 1,
     hb_demux := demux_start\<lparr>jobs := [JobConnect AnyPort () 0]\<rparr>\<rparr>"

lemmas hub_example = controller_start_def demux_start_def register_def disconnect_def remote_def hub_take_def
  demux_step_def spawn_call_def task_starts_def task_returns_def result_send_def drop_controller_def giveback_urb_def
  REQUEST_ROOM_def TASKS_ROOM_def waits_for_device_def

lemma one_client_run: "hub_run chk V listening one_client controller_start = Some after_client"
  by (simp add: one_client_def after_client_def hub_example)

lemma one_client_reach: "hub_reach chk V listening after_client"
  by (rule hub_reach_run [OF hub_start one_client_run])

theorem requests_answered_once_witness:
  "hub_reach True stub_vhci (\<lambda>_. True) after_client \<and> distinct (in_flight after_client @ answered after_client) \<and>
    0 \<in> set (in_flight after_client @ answered after_client)"
  using requests_answered_once [OF one_client_reach [of True stub_vhci "\<lambda>_. True"]] one_client_reach
  by (simp add: after_client_def controller_start_def)

theorem demux_never_ends_witness:
  "hub_step True stub_vhci (\<lambda>_. True) (HLoopEnd []) after_client = None \<and>
    hub_step True stub_vhci (\<lambda>_. True) (HFetchEnd False) after_client = None"
  using demux_never_ends [OF one_client_reach [of True stub_vhci "\<lambda>_. True"], of "[]"]
  by (simp add: after_client_def controller_start_def)

text \<open>Two devices leave; before their answers are taken, 64 requests are given back to the driver and a third device leaves.\<close>

definition leaves :: "unit hub_event list" where
  "leaves = [HDisconnect 1, HTake FromDisconnect, HSpawn, HTaskStarts, HTaskReturns (DrvDone (Inr ()))]"

definition two_leave :: "unit hub_event list" where
  "two_leave = HRemote # leaves @ HResult # leaves"

definition after_two :: "unit hub" where
  "after_two = controller_start\<lparr>hb_remotes := 1, hb_results := [CrDisconnect (Inr ()) 0],
     hb_thread := ThSending (CrDisconnect (Inr ()) 1), hb_next_tx := 2,
     hb_demux := demux_start\<lparr>jobs := [JobDisconnect 1 0, JobDisconnect 1 1]\<rparr>\<rparr>"

lemma two_leave_run: "hub_run chk V listening two_leave controller_start = Some after_two"
  by (simp add: two_leave_def leaves_def after_two_def hub_example)

lemma givebacks_run:
  assumes "0 < hb_remotes s" and "hb_thread s \<noteq> ThDead" and "length (hb_tasks s) + n \<le> TASKS_ROOM"
  shows "hub_run chk V listening (replicate n (HGiveback hnd)) s =
    Some (s\<lparr>hb_tasks := hb_tasks s @ replicate n (TaskGiveback hnd), hb_returns := hb_returns s @ replicate n hnd\<rparr>)"
  using assms
proof (induction n arbitrary: s)
  case (Suc n)
  then have "hub_step chk V listening (HGiveback hnd) s =
    Some (s\<lparr>hb_tasks := hb_tasks s @ [TaskGiveback hnd], hb_returns := hb_returns s @ [hnd]\<rparr>)"
    by (simp add: giveback_urb_def)
  with Suc.IH [of "s\<lparr>hb_tasks := hb_tasks s @ [TaskGiveback hnd], hb_returns := hb_returns s @ [hnd]\<rparr>"] Suc.prems
  show ?case by (simp add: replicate_append_same)
qed simp

definition jam :: "unit hub" where
  "jam = after_two\<lparr>hb_tasks := replicate TASKS_ROOM (TaskGiveback 7), hb_returns := replicate TASKS_ROOM 7,
     hb_spawning := [JobDisconnect 1 2], hb_next_tx := 3,
     hb_demux := demux_start\<lparr>jobs := [JobDisconnect 1 0, JobDisconnect 1 1, JobDisconnect 1 2]\<rparr>\<rparr>"

lemma jam_reach: "hub_reach chk V listening jam" and jam_jammed: "jammed jam"
proof -
  let ?s = "after_two\<lparr>hb_tasks := replicate TASKS_ROOM (TaskGiveback 7), hb_returns := replicate TASKS_ROOM 7\<rparr>"
  have "hub_run chk V listening (replicate TASKS_ROOM (HGiveback 7)) after_two = Some ?s"
    using givebacks_run [of after_two TASKS_ROOM chk V listening 7] by (simp add: after_two_def controller_start_def)
  moreover have "hub_run chk V listening [HDisconnect 1, HTake FromDisconnect] ?s = Some jam"
    by (simp add: jam_def after_two_def controller_start_def disconnect_def hub_take_def demux_step_def demux_start_def
        REQUEST_ROOM_def waits_for_device_def)
  ultimately show "hub_reach chk V listening jam"
    using hub_reach_run [OF hub_reach_run [OF hub_reach_run [OF hub_start two_leave_run]]] by blast
  show "jammed jam" by (simp add: jammed_def jam_def after_two_def controller_start_def REQUEST_ROOM_def)
qed

theorem demux_deadlocks_witness:
  "hub_reach True stub_vhci (\<lambda>_. True) jam \<and> hub_step True stub_vhci (\<lambda>_. True) (HTake FromController) jam = None"
  using demux_deadlocks [OF jam_jammed, of True stub_vhci "\<lambda>_. True" "[]" jam FromController] jam_reach by simp

end
