(* ===== verification/Ordered_Map.thy ===== *)
theory Ordered_Map
  imports Qusb_Prelude
begin

text \<open>
  The ordered maps of the standard library, as ascending association lists: \<^verbatim>\<open>BTreeMap\<close> with
  \<^verbatim>\<open>insert\<close>, \<^verbatim>\<open>remove\<close>, \<^verbatim>\<open>range(k..)\<close> and \<^verbatim>\<open>pop_last\<close>, \<^verbatim>\<open>BTreeSet\<close> as a map to \<open>unit\<close>, and
  \<^verbatim>\<open>std::cmp::Reverse\<close>, which turns the order around.
\<close>

section \<open>Operations\<close>

fun bt_insert :: "'k :: linorder \<Rightarrow> 'v \<Rightarrow> ('k \<times> 'v) list \<Rightarrow> ('k \<times> 'v) list" where
  "bt_insert k v [] = [(k, v)]"
| "bt_insert k v ((a, b) # m) =
     (if k < a then (k, v) # (a, b) # m else if k = a then (k, v) # m else (a, b) # bt_insert k v m)"

fun bt_remove :: "'k :: linorder \<Rightarrow> ('k \<times> 'v) list \<Rightarrow> ('k \<times> 'v) list" where
  "bt_remove k [] = []"
| "bt_remove k ((a, b) # m) = (if k = a then m else (a, b) # bt_remove k m)"

definition bt_range :: "'k :: linorder \<Rightarrow> ('k \<times> 'v) list \<Rightarrow> ('k \<times> 'v) list" where
  "bt_range k m = dropWhile (\<lambda>(a, _). a < k) m"

definition bt_pop_last :: "('k \<times> 'v) list \<Rightarrow> ('k \<times> 'v) list" where
  "bt_pop_last m = butlast m"

definition bt_ok :: "('k :: linorder \<times> 'v) list \<Rightarrow> bool" where
  "bt_ok m \<longleftrightarrow> sorted_wrt (<) (map fst m)"

section \<open>Laws\<close>

lemma bt_ok_simps [simp]: "bt_ok []"
  "bt_ok ((a, b) # m) \<longleftrightarrow> (\<forall>k \<in> fst ` set m. a < k) \<and> bt_ok m"
  by (simp_all add: bt_ok_def)

lemma bt_keys_insert: "fst ` set (bt_insert k v m) = insert k (fst ` set m)"
  by (induction m rule: bt_insert.induct [where ?a0.0 = k and ?a1.0 = v]) (auto simp: image_def)

lemma bt_ok_insert [simp]: "bt_ok m \<Longrightarrow> bt_ok (bt_insert k v m)"
  by (induction k v m rule: bt_insert.induct) (auto simp: bt_keys_insert)

lemma map_of_bt_insert [simp]: "map_of (bt_insert k v m) = (map_of m)(k \<mapsto> v)"
  by (induction k v m rule: bt_insert.induct) (auto simp: fun_eq_iff)

lemma bt_keys_remove: "bt_ok m \<Longrightarrow> fst ` set (bt_remove k m) = fst ` set m - {k}"
  by (induction k m rule: bt_remove.induct) auto

lemma bt_ok_remove [simp]: "bt_ok m \<Longrightarrow> bt_ok (bt_remove k m)"
  by (induction k m rule: bt_remove.induct) (auto simp: bt_keys_remove)

lemma bt_ok_distinct: "bt_ok m \<Longrightarrow> distinct (map fst m)"
  by (simp add: bt_ok_def strict_sorted_iff)

lemma map_of_bt_remove [simp]: "bt_ok m \<Longrightarrow> map_of (bt_remove k m) = (map_of m)(k := None)"
  by (induction k m rule: bt_remove.induct)
    (auto simp: fun_eq_iff map_of_eq_None_iff)

lemma map_of_bt_ok: "bt_ok m \<Longrightarrow> map_of m k = Some v \<longleftrightarrow> (k, v) \<in> set m"
  by (simp add: bt_ok_distinct)

text \<open>The first entry of a range is the least key in it.\<close>

lemma bt_range_Nil: "bt_ok m \<Longrightarrow> bt_range k m = [] \<Longrightarrow> (a, b) \<in> set m \<Longrightarrow> a < k"
  by (auto simp: bt_range_def dropWhile_eq_Nil_conv)

lemma bt_range_Cons:
  assumes "bt_ok m" and "bt_range k m = (a, b) # r"
  shows "map_of m a = Some b" and "k \<le> a" and "k \<le> c \<Longrightarrow> c \<in> fst ` set m \<Longrightarrow> a \<le> c"
proof -
  define p where "p = takeWhile (\<lambda>(a, _). a < k) m"
  have m: "m = p @ (a, b) # r"
    using assms(2) takeWhile_dropWhile_id [of "\<lambda>(a, _). a < k" m] by (simp add: p_def bt_range_def)
  then have "(a, b) \<in> set m" by simp
  with assms(1) show "map_of m a = Some b" by (simp add: map_of_bt_ok)
  show "k \<le> a" using assms(2) hd_dropWhile [of "\<lambda>(a, _). a < k" m] by (auto simp: bt_range_def not_less)
  have "\<forall>x \<in> fst ` set p. x < k" by (auto simp: p_def dest: set_takeWhileD)
  moreover have "\<forall>x \<in> fst ` set r. a < x" using assms(1) by (auto simp: m bt_ok_def sorted_wrt_append)
  ultimately show "k \<le> c \<Longrightarrow> c \<in> fst ` set m \<Longrightarrow> a \<le> c" by (force simp: m)
qed

section \<open>The reversed order\<close>

datatype 'a reversed = Reverse (unreverse: 'a)

instantiation reversed :: (linorder) linorder
begin

definition less_eq_reversed :: "'a reversed \<Rightarrow> 'a reversed \<Rightarrow> bool" where
  "less_eq_reversed x y \<longleftrightarrow> unreverse y \<le> unreverse x"

definition less_reversed :: "'a reversed \<Rightarrow> 'a reversed \<Rightarrow> bool" where
  "less_reversed x y \<longleftrightarrow> unreverse y < unreverse x"

instance
  by standard (auto simp: less_eq_reversed_def less_reversed_def reversed.expand)

end

lemma reverse_le [simp]: "Reverse x \<le> Reverse y \<longleftrightarrow> y \<le> x" "Reverse x < Reverse y \<longleftrightarrow> y < x"
  by (simp_all add: less_eq_reversed_def less_reversed_def)

section \<open>Maps of bounded size\<close>

text \<open>Inserting, then dropping the greatest key when there are more than \<open>n\<close>.\<close>

definition bt_push :: "nat \<Rightarrow> 'k :: linorder \<Rightarrow> 'v \<Rightarrow> ('k \<times> 'v) list \<Rightarrow> ('k \<times> 'v) list" where
  "bt_push n k v m = (let m' = bt_insert k v m in if n < length m' then bt_pop_last m' else m')"

text \<open>What is left are the \<open>n\<close> least keys.\<close>

lemma bt_keys_sorted: "bt_ok m \<Longrightarrow> map fst m = sorted_list_of_set (fst ` set m)"
  unfolding bt_ok_def
  by (metis list.set_map sorted_list_of_set.idem_if_sorted_distinct strict_sorted_iff)

lemma take_insort_take:
  "sorted xs \<Longrightarrow> take n (insort x (take n xs)) = take n (insort x xs)"
proof (induction xs arbitrary: n)
  case Nil
  then show ?case by simp
next
  case (Cons y ys)
  then show ?case by (cases n) (auto simp: take_Cons' split: nat.splits)
qed

lemma bt_push_keys:
  fixes A :: "'k :: linorder set"
  assumes "finite A" and "bt_ok m" and "map fst m = take n (sorted_list_of_set A)"
  shows "map fst (bt_push n k v m) = take n (sorted_list_of_set (insert k A))"
proof -
  let ?s = "sorted_list_of_set A"
  define m' where "m' = bt_insert k v m"
  have ok: "bt_ok m'" using assms(2) by (simp add: m'_def)
  have keys: "set (take n ?s) = fst ` set m" using assms(3) by (metis list.set_map)
  have m': "map fst m' = sorted_list_of_set (insert k (set (take n ?s)))"
    using bt_keys_sorted [OF ok] by (simp add: m'_def bt_keys_insert keys)
  have push: "map fst (bt_push n k v m) = take n (map fst m')"
  proof -
    have "length m \<le> n" using assms(3) by (metis length_map length_take min.cobounded2)
    moreover have "length m' \<le> Suc (length m)"
      unfolding m'_def by (induction k v m rule: bt_insert.induct) auto
    ultimately have "length m' = Suc n \<or> length m' \<le> n" by linarith
    then show ?thesis
      by (auto simp: bt_push_def Let_def bt_pop_last_def butlast_conv_take take_map map_butlast simp flip: m'_def)
  qed
  show ?thesis
  proof (cases "k \<in> A")
    case False
    then have nin: "k \<notin> set (take n ?s)" using assms(1) by (metis in_set_takeD set_sorted_list_of_set)
    have "sorted_list_of_set (set (take n ?s)) = take n ?s"
      by (simp add: sorted_list_of_set.idem_if_sorted_distinct sorted_wrt_take)
    then have "map fst m' = insort k (take n ?s)"
      using nin by (simp add: m' sorted_list_of_set_insert_remove)
    then show ?thesis using False assms(1) by (simp add: push take_insort_take)
  next
    case True
    show ?thesis
    proof (cases "k \<in> set (take n ?s)")
      case True
      then have "sorted_list_of_set (insert k (set (take n ?s))) = take n ?s"
        by (simp add: insert_absorb sorted_list_of_set.idem_if_sorted_distinct sorted_wrt_take)
      then show ?thesis using \<open>k \<in> A\<close> by (simp add: push m' insert_absorb)
    next
      case False
      then have k: "k \<in> set (drop n ?s)" using True assms(1) by (metis Un_iff append_take_drop_id set_append set_sorted_list_of_set)
      have "\<forall>x \<in> set (take n ?s). x \<le> k"
        using k sorted_sorted_list_of_set [of A] by (metis append_take_drop_id sorted_append)
      moreover have "sorted (take n ?s)" by (simp add: sorted_wrt_take)
      ultimately have "sorted (take n ?s @ [k])" by (simp add: sorted_append)
      moreover have "distinct (take n ?s @ [k])" using False by simp
      ultimately have "sorted_list_of_set (insert k (set (take n ?s))) = take n ?s @ [k]"
        using sorted_list_of_set.idem_if_sorted_distinct [of "take n ?s @ [k]"] by simp
      moreover have "length (take n ?s) = n" using k by (cases "n < length ?s") auto
      ultimately show ?thesis using True by (simp add: push m' insert_absorb)
    qed
  qed
qed

lemma bt_ok_push: "bt_ok m \<Longrightarrow> bt_ok (bt_push n k v m)"
  using bt_ok_insert [of m k v]
  by (auto simp: bt_push_def Let_def bt_pop_last_def bt_ok_def butlast_conv_take sorted_wrt_take simp flip: take_map)

end
