(* ===== verification/Transfer_Cache.thy ===== *)
theory Transfer_Cache
  imports Ordered_Map Lend_Operator "HOL-Library.Multiset"
begin

text \<open>
  The resources the lender reuses: the libusb transfers of \<^verbatim>\<open>BigTransfers\<close> (by the number of
  isochronous packets they have room for) and \<^verbatim>\<open>SmallTransfers\<close> in \<^verbatim>\<open>crates/qusb/src/operator.rs\<close>,
  and the blocks of memory of \<^verbatim>\<open>BytesAllocator\<close> in \<^verbatim>\<open>crates/qusb/src/utils.rs\<close>.
\<close>

section \<open>Transfers\<close>

text \<open>A transfer has an identity and the number of packets it was allocated for.\<close>

datatype transfer = Transfer (t_id: nat) (max_iso_packets: nat)

datatype 't one_or_many = One 't | Many "'t list"

type_synonym big_transfers = "(u16 \<times> transfer one_or_many) list"

definition big_insert :: "transfer \<Rightarrow> big_transfers \<Rightarrow> big_transfers" where
  "big_insert t c =
     (let key = word_of_nat (max_iso_packets t)
      in bt_insert key
           (case map_of c key of
              Some (One other) \<Rightarrow> Many [t, other]
            | Some (Many ts) \<Rightarrow> Many (ts @ [t])
            | None \<Rightarrow> One t) c)"

definition big_remove :: "u16 \<Rightarrow> big_transfers \<Rightarrow> (transfer option \<times> big_transfers) run" where
  "big_remove n c =
     (case bt_range n c of
        [] \<Rightarrow> Ret (None, c)
      | (key, One t) # _ \<Rightarrow> Ret (Some t, bt_remove key c)
      | (key, Many ts) # _ \<Rightarrow>
          (if ts = [] then Panic
           else Ret (Some (last ts),
             if butlast ts = [] then bt_remove key c else bt_insert key (Many (butlast ts)) c)))"

type_synonym small_transfers = "transfer list"

definition small_remove :: "small_transfers \<Rightarrow> transfer option \<times> small_transfers" where
  "small_remove c = (if c = [] then (None, c) else (Some (last c), butlast c))"

definition small_insert :: "transfer \<Rightarrow> small_transfers \<Rightarrow> small_transfers" where
  "small_insert t c = c @ [t]"

text \<open>How the receive handler takes a transfer, and puts it back when it has completed.\<close>

record transfers =
  isos :: big_transfers
  smalls :: small_transfers
  next_transfer :: nat

definition start_transfers :: transfers where
  "start_transfers = \<lparr>isos = [], smalls = [Transfer 0 0, Transfer 1 0], next_transfer = 2\<rparr>"

definition take_iso :: "u16 \<Rightarrow> transfers \<Rightarrow> (transfer \<times> transfers) run" where
  "take_iso n p =
     rbind (big_remove n (isos p)) (\<lambda>(r, c). Ret
       (case r of
          Some t \<Rightarrow> (t, p\<lparr>isos := c\<rparr>)
        | None \<Rightarrow> (Transfer (next_transfer p) (unat n), p\<lparr>isos := c, next_transfer := next_transfer p + 1\<rparr>)))"

definition take_small :: "transfers \<Rightarrow> transfer \<times> transfers" where
  "take_small p =
     (case small_remove (smalls p) of
        (Some t, c) \<Rightarrow> (t, p\<lparr>smalls := c\<rparr>)
      | (None, c) \<Rightarrow> (Transfer (next_transfer p) 0, p\<lparr>smalls := c, next_transfer := next_transfer p + 1\<rparr>))"

definition put_iso :: "transfer \<Rightarrow> transfers \<Rightarrow> transfers" where
  "put_iso t p = p\<lparr>isos := big_insert t (isos p)\<rparr>"

definition put_small :: "transfer \<Rightarrow> transfers \<Rightarrow> transfers" where
  "put_small t p = p\<lparr>smalls := small_insert t (smalls p)\<rparr>"

section \<open>Memory blocks\<close>

text \<open>
  \<^verbatim>\<open>BytesMut\<close> of the crate \<^verbatim>\<open>bytes\<close>: a length, a capacity, the attempt to reclaim room that other
  handles on the same block have given up, and the split of a prefix.
\<close>

record 'm bytes_mut =
  bm_with_capacity :: "nat \<Rightarrow> 'm"
  bm_len :: "'m \<Rightarrow> nat"
  bm_capacity :: "'m \<Rightarrow> nat"
  bm_try_reclaim :: "nat \<Rightarrow> 'm \<Rightarrow> bool \<times> 'm"
  bm_set_len :: "nat \<Rightarrow> 'm \<Rightarrow> 'm"
  bm_split_to :: "nat \<Rightarrow> 'm \<Rightarrow> 'm \<times> 'm"

text \<open>\<^verbatim>\<open>set_len\<close> is unsafe: the new length must not exceed the capacity.\<close>

definition cut_block :: "'m bytes_mut \<Rightarrow> nat \<Rightarrow> 'm \<Rightarrow> ('m \<times> 'm) run" where
  "cut_block B n b =
     (if n \<le> bm_capacity B b then
        (let b' = bm_set_len B n b in if n \<le> bm_len B b' then Ret (bm_split_to B n b') else Panic)
      else Undef)"

definition allocator_new :: "'m bytes_mut \<Rightarrow> nat \<Rightarrow> 'm list" where
  "allocator_new B capacity = replicate capacity (bm_with_capacity B SCRATCH_LEN)"

fun reserve_loop :: "'m bytes_mut \<Rightarrow> nat \<Rightarrow> nat \<Rightarrow> 'm list \<Rightarrow> ('m option \<times> 'm list) run" where
  "reserve_loop B n 0 q = Ret (None, q)"
| "reserve_loop B n (Suc k) [] = Panic"
| "reserve_loop B n (Suc k) (b # q) =
     (case bm_try_reclaim B (n - bm_len B b) b of
        (True, b') \<Rightarrow> rbind (cut_block B n b') (\<lambda>(mem, rest). Ret (Some mem, rest # q))
      | (False, b') \<Rightarrow> reserve_loop B n k (q @ [b']))"

definition reserve :: "'m bytes_mut \<Rightarrow> nat \<Rightarrow> 'm list \<Rightarrow> ('m \<times> 'm list) run" where
  "reserve B n q =
     rbind (assert_that (n \<le> SCRATCH_LEN)) (\<lambda>_.
     rbind (reserve_loop B n (length q) q) (\<lambda>(r, q').
       case r of
         Some mem \<Rightarrow> Ret (mem, q')
       | None \<Rightarrow> rbind (cut_block B n (bm_with_capacity B SCRATCH_LEN)) (\<lambda>(mem, rest). Ret (mem, rest # q'))))"

text \<open>What the documentation of the crate promises.\<close>

definition bytes_mut_ok :: "'m bytes_mut \<Rightarrow> bool" where
  "bytes_mut_ok B \<longleftrightarrow>
     (\<forall>n. bm_len B (bm_with_capacity B n) = 0 \<and> n \<le> bm_capacity B (bm_with_capacity B n)) \<and>
     (\<forall>n m ok m'. bm_try_reclaim B n m = (ok, m') \<longrightarrow> bm_len B m' = bm_len B m \<and>
        (ok \<longrightarrow> bm_len B m + n \<le> bm_capacity B m') \<and> (\<not> ok \<longrightarrow> m' = m)) \<and>
     (\<forall>n m. n \<le> bm_capacity B m \<longrightarrow> bm_len B (bm_set_len B n m) = n) \<and>
     (\<forall>n m a b. n \<le> bm_len B m \<longrightarrow> bm_split_to B n m = (a, b) \<longrightarrow>
        bm_len B a = n \<and> bm_len B b = bm_len B m - n)"

section \<open>The interface of a cache\<close>

locale transfer_cache =
  fixes ins :: "transfer \<Rightarrow> 'c \<Rightarrow> 'c"
    and rem :: "'q \<Rightarrow> 'c \<Rightarrow> (transfer option \<times> 'c) run"
    and elems :: "'c \<Rightarrow> transfer multiset"
    and inv :: "'c \<Rightarrow> bool"
    and storable :: "transfer \<Rightarrow> bool"
    and need :: "'q \<Rightarrow> nat"
  assumes ins_inv: "inv c \<Longrightarrow> storable t \<Longrightarrow> inv (ins t c)"
    and ins_elems: "inv c \<Longrightarrow> storable t \<Longrightarrow> elems (ins t c) = add_mset t (elems c)"
    and rem_returns: "inv c \<Longrightarrow> \<exists>r c'. rem q c = Ret (r, c') \<and> inv c' \<and>
      (case r of
         None \<Rightarrow> c' = c \<and> (\<forall>t \<in># elems c. max_iso_packets t < need q)
       | Some t \<Rightarrow> need q \<le> max_iso_packets t \<and> elems c = add_mset t (elems c') \<and>
           (\<forall>t' \<in># elems c. need q \<le> max_iso_packets t' \<longrightarrow> max_iso_packets t \<le> max_iso_packets t'))"
    and elems_storable: "inv c \<Longrightarrow> t \<in># elems c \<Longrightarrow> storable t"
begin

text \<open>Taking a transfer, or a new one: what is cached and in use only grows by the new one.\<close>

lemma take_conserves:
  assumes "inv c" and "need q \<le> max_iso_packets new" and "storable new"
  obtains r c' where "rem q c = Ret (r, c')" and "inv c'"
    and "need q \<le> max_iso_packets (case r of Some t \<Rightarrow> t | None \<Rightarrow> new)"
    and "storable (case r of Some t \<Rightarrow> t | None \<Rightarrow> new)"
    and "add_mset (case r of Some t \<Rightarrow> t | None \<Rightarrow> new) (elems c') =
      (if r = None then add_mset new (elems c) else elems c)"
proof -
  from rem_returns [OF assms(1), of q] obtain r c' where
    r: "rem q c = Ret (r, c')" "inv c'" "case r of
         None \<Rightarrow> c' = c \<and> (\<forall>t \<in># elems c. max_iso_packets t < need q)
       | Some t \<Rightarrow> need q \<le> max_iso_packets t \<and> elems c = add_mset t (elems c') \<and>
           (\<forall>t' \<in># elems c. need q \<le> max_iso_packets t' \<longrightarrow> max_iso_packets t \<le> max_iso_packets t')"
    by blast
  then show ?thesis
    using assms elems_storable [OF assms(1)] by (intro that [of r c']) (auto split: option.splits)
qed

lemma put_take:
  assumes "inv c" and "storable t" and "need q \<le> max_iso_packets t"
  shows "\<exists>t' c'. rem q (ins t c) = Ret (Some t', c') \<and> max_iso_packets t' \<le> max_iso_packets t"
proof -
  from rem_returns [OF ins_inv [OF assms(1,2)], of q] ins_elems [OF assms(1,2)] assms(3) show ?thesis
    by (fastforce split: option.splits)
qed

end

section \<open>Facts: the two caches\<close>

fun entry_list :: "transfer one_or_many \<Rightarrow> transfer list" where
  "entry_list (One t) = [t]"
| "entry_list (Many ts) = ts"

definition big_elems :: "big_transfers \<Rightarrow> transfer multiset" where
  "big_elems c = sum_list (map (\<lambda>(_, e). mset (entry_list e)) c)"

definition big_ok :: "big_transfers \<Rightarrow> bool" where
  "big_ok c \<longleftrightarrow> bt_ok c \<and>
     (\<forall>(key, e) \<in> set c. entry_list e \<noteq> [] \<and> (\<forall>t \<in> set (entry_list e). max_iso_packets t = unat key))"

lemma big_elems_simps [simp]: "big_elems [] = {#}"
  "big_elems ((k, e) # c) = mset (entry_list e) + big_elems c"
  by (simp_all add: big_elems_def)

lemma big_elems_insert:
  "bt_ok c \<Longrightarrow> big_elems (bt_insert k e c) + (case map_of c k of Some e' \<Rightarrow> mset (entry_list e') | None \<Rightarrow> {#}) =
    mset (entry_list e) + big_elems c"
proof (induction k e c rule: bt_insert.induct)
  case (2 k v a b m)
  have "k < a \<Longrightarrow> map_of m k = None" using 2(2) by (auto simp: map_of_eq_None_iff)
  with 2 show ?case by (auto simp: ac_simps split: if_splits)
qed simp

lemma big_elems_remove:
  "bt_ok c \<Longrightarrow> map_of c k = Some e \<Longrightarrow> big_elems c = mset (entry_list e) + big_elems (bt_remove k c)"
  by (induction k c rule: bt_remove.induct) (auto split: if_splits)

lemma set_bt_insert: "bt_ok m \<Longrightarrow> x \<in> set (bt_insert k v m) \<longleftrightarrow> x = (k, v) \<or> x \<in> set m \<and> fst x \<noteq> k"
  by (induction k v m rule: bt_insert.induct) force+

lemma set_bt_remove: "bt_ok m \<Longrightarrow> x \<in> set (bt_remove k m) \<longleftrightarrow> x \<in> set m \<and> fst x \<noteq> k"
  by (induction k m rule: bt_remove.induct) force+

lemma big_okD:
  assumes "big_ok c" and "map_of c k = Some e"
  shows "entry_list e \<noteq> []" and "t \<in> set (entry_list e) \<Longrightarrow> max_iso_packets t = unat k"
  using assms by (auto simp: big_ok_def dest!: map_of_SomeD)

lemma big_elems_mem:
  "bt_ok c \<Longrightarrow> t \<in># big_elems c \<longleftrightarrow> (\<exists>k e. map_of c k = Some e \<and> t \<in> set (entry_list e))"
  by (simp add: map_of_bt_ok) (induction c; force)

lemma big_okI:
  assumes "bt_ok c"
    and "\<And>k e. map_of c k = Some e \<Longrightarrow> entry_list e \<noteq> [] \<and> (\<forall>t \<in> set (entry_list e). max_iso_packets t = unat k)"
  shows "big_ok c"
  using assms by (auto simp: big_ok_def map_of_bt_ok)

lemma big_insert_ok:
  assumes "big_ok c" and "max_iso_packets t < 2 ^ 16"
  shows "big_ok (big_insert t c)" and "big_elems (big_insert t c) = add_mset t (big_elems c)"
proof -
  define key where "key = (word_of_nat (max_iso_packets t) :: u16)"
  have t: "unat key = max_iso_packets t" using assms(2) by (simp add: key_def unsigned_of_nat take_bit_nat_eq_self)
  define e where "e = (case map_of c key of Some (One other) \<Rightarrow> Many [t, other]
            | Some (Many ts) \<Rightarrow> Many (ts @ [t]) | None \<Rightarrow> One t)"
  have ins: "big_insert t c = bt_insert key e c" by (simp add: big_insert_def key_def e_def Let_def)
  have ok: "bt_ok c" using assms(1) by (simp add: big_ok_def)
  have e: "mset (entry_list e) = add_mset t (case map_of c key of Some e' \<Rightarrow> mset (entry_list e') | None \<Rightarrow> {#})"
    by (auto simp: e_def split: option.splits one_or_many.splits)
  have "entry_list e \<noteq> []" using e by auto
  moreover have "\<forall>x \<in> set (entry_list e). max_iso_packets x = unat key"
    using big_okD(2) [OF assms(1)] t e by (auto simp: e_def split: option.splits one_or_many.splits)
  ultimately show "big_ok (big_insert t c)"
    using ok big_okD [OF assms(1)] by (auto intro!: big_okI simp: ins split: if_splits)
  show "big_elems (big_insert t c) = add_mset t (big_elems c)"
    using big_elems_insert [OF ok, of key e] by (simp add: ins e split: option.splits)
qed

lemma entry_last: "ts \<noteq> [] \<Longrightarrow> mset ts = add_mset (last ts) (mset (butlast ts))"
  by (metis append_butlast_last_id mset.simps(2) mset_append add_mset_add_single union_mset_add_mset_right add.right_neutral mset.simps(1))

lemma big_remove_first:
  assumes "big_ok c" and "bt_range n c = (key, e) # r"
  shows "\<exists>t c'. big_remove n c = Ret (Some t, c') \<and> big_ok c' \<and> max_iso_packets t = unat key \<and>
    big_elems c = add_mset t (big_elems c')"
proof -
  have ok: "bt_ok c" using assms(1) by (simp add: big_ok_def)
  note e = bt_range_Cons(1) [OF ok assms(2)]
  note d = big_okD [OF assms(1)]
  have rem: "big_ok (bt_remove key c)"
    using ok d by (auto intro!: big_okI split: if_splits)
  show ?thesis
  proof (cases e)
    case (One t)
    with assms(2) rem big_elems_remove [OF ok] e d show ?thesis by (auto simp: big_remove_def)
  next
    case (Many ts)
    then have ts: "ts \<noteq> []" "\<forall>x \<in> set ts. max_iso_packets x = unat key" using d [OF e] by auto
    show ?thesis
    proof (cases "butlast ts = []")
      case True
      then have "ts = [last ts]" using ts(1) by (metis append_Nil append_butlast_last_id)
      with Many have "big_elems c = add_mset (last ts) (big_elems (bt_remove key c))"
        using big_elems_remove [OF ok e] by (metis add_mset_add_single entry_list.simps(2) mset_single_iff union_mset_add_mset_left add_0)
      with assms(2) rem ts True Many show ?thesis by (auto simp: big_remove_def)
    next
      case False
      have "big_elems (bt_insert key (Many (butlast ts)) c) + mset ts = mset (butlast ts) + big_elems c"
        using big_elems_insert [OF ok, of key "Many (butlast ts)"] e Many by simp
      then have "big_elems c = add_mset (last ts) (big_elems (bt_insert key (Many (butlast ts)) c))"
        using entry_last [OF ts(1)] by (simp add: add.commute)
      moreover have "big_ok (bt_insert key (Many (butlast ts)) c)"
        using ok d ts(2) False by (auto intro!: big_okI dest!: in_set_butlastD split: if_splits)
      ultimately show ?thesis using assms(2) ts Many False by (auto simp: big_remove_def)
    qed
  qed
qed

lemma big_key_member: "big_ok c \<Longrightarrow> t \<in># big_elems c \<Longrightarrow> \<exists>k \<in> fst ` set c. max_iso_packets t = unat k"
proof -
  assume c: "big_ok c" "t \<in># big_elems c"
  then have "bt_ok c" by (simp add: big_ok_def)
  with c(2) obtain k e where k: "map_of c k = Some e" "t \<in> set (entry_list e)" by (auto simp: big_elems_mem)
  have "max_iso_packets t = unat k" by (rule big_okD(2) [OF c(1) k])
  moreover have "k \<in> fst ` set c" using map_of_SomeD [OF k(1)] by force
  ultimately show ?thesis by blast
qed

lemma big_remove_ok:
  assumes "big_ok c"
  shows "\<exists>r c'. big_remove n c = Ret (r, c') \<and> big_ok c' \<and>
      (case r of
         None \<Rightarrow> c' = c \<and> (\<forall>t \<in># big_elems c. max_iso_packets t < unat n)
       | Some t \<Rightarrow> unat n \<le> max_iso_packets t \<and> big_elems c = add_mset t (big_elems c') \<and>
           (\<forall>t' \<in># big_elems c. unat n \<le> max_iso_packets t' \<longrightarrow> max_iso_packets t \<le> max_iso_packets t'))"
proof (cases "bt_range n c")
  case Nil
  have "bt_ok c" using assms by (simp add: big_ok_def)
  have "max_iso_packets t < unat n" if "t \<in># big_elems c" for t
    using big_key_member [OF assms that] bt_range_Nil [OF \<open>bt_ok c\<close> Nil] by (auto simp: word_less_nat_alt)
  with Nil assms show ?thesis by (simp add: big_remove_def)
next
  case (Cons x r)
  obtain key e where x: "x = (key, e)" by (cases x)
  have ok: "bt_ok c" using assms by (simp add: big_ok_def)
  note least = bt_range_Cons(2,3) [OF ok Cons [unfolded x]]
  have le: "unat key \<le> max_iso_packets t'" if "t' \<in># big_elems c" "unat n \<le> max_iso_packets t'" for t'
    using big_key_member [OF assms that(1)] that(2) least(2) by (force simp: word_le_nat_alt)
  from big_remove_first [OF assms Cons [unfolded x]] least(1) le show ?thesis by (auto simp: word_le_nat_alt)
qed

interpretation iso_cache: transfer_cache big_insert big_remove big_elems big_ok
  "\<lambda>t. max_iso_packets t < 2 ^ 16" unat
proof
  fix c t
  assume c: "big_ok c"
  show "max_iso_packets t < 2 ^ 16 \<Longrightarrow> big_ok (big_insert t c)"
    and "max_iso_packets t < 2 ^ 16 \<Longrightarrow> big_elems (big_insert t c) = add_mset t (big_elems c)"
    using big_insert_ok [OF c] by simp_all
  show "max_iso_packets t < 2 ^ 16" if "t \<in># big_elems c"
    using big_key_member [OF c that] by (auto simp: unsigned_less)
qed (rule big_remove_ok)

text \<open>The small transfers are for requests without packets.\<close>

interpretation small_cache: transfer_cache small_insert "\<lambda>_ :: unit. \<lambda>c. Ret (small_remove c)" mset
  "\<lambda>c. \<forall>t \<in> set c. max_iso_packets t = 0" "\<lambda>t. max_iso_packets t = 0" "\<lambda>_. 0"
proof
  fix c :: small_transfers and q :: unit
  assume c: "\<forall>t \<in> set c. max_iso_packets t = 0"
  show "\<exists>r c'. Ret (small_remove c) = Ret (r, c') \<and> (\<forall>t \<in> set c'. max_iso_packets t = 0) \<and>
      (case r of
         None \<Rightarrow> c' = c \<and> (\<forall>t \<in># mset c. max_iso_packets t < 0)
       | Some t \<Rightarrow> 0 \<le> max_iso_packets t \<and> mset c = add_mset t (mset c') \<and>
           (\<forall>t' \<in># mset c. 0 \<le> max_iso_packets t' \<longrightarrow> max_iso_packets t \<le> max_iso_packets t'))"
    using c entry_last [of c] by (auto simp: small_remove_def dest: in_set_butlastD)
qed (simp_all add: small_insert_def)

section \<open>Facts: transfers in flight\<close>

text \<open>The transfers taken and not yet put back, isochronous and others.\<close>

inductive pool_run :: "transfers \<Rightarrow> transfer multiset \<Rightarrow> transfer multiset \<Rightarrow> bool" where
  start: "pool_run start_transfers {#} {#}"
| take_iso: "pool_run p I S \<Longrightarrow> take_iso n p = Ret (t, p') \<Longrightarrow> pool_run p' (add_mset t I) S"
| take_small: "pool_run p I S \<Longrightarrow> take_small p = (t, p') \<Longrightarrow> pool_run p' I (add_mset t S)"
| put_iso: "pool_run p (add_mset t I) S \<Longrightarrow> pool_run (put_iso t p) I S"
| put_small: "pool_run p I (add_mset t S) \<Longrightarrow> pool_run (put_small t p) I S"

definition all_transfers :: "transfers \<Rightarrow> transfer multiset \<Rightarrow> transfer multiset \<Rightarrow> nat multiset" where
  "all_transfers p I S = image_mset t_id (big_elems (isos p) + I + mset (smalls p) + S)"

definition pool_ok :: "transfers \<Rightarrow> transfer multiset \<Rightarrow> transfer multiset \<Rightarrow> bool" where
  "pool_ok p I S \<longleftrightarrow>
     big_ok (isos p) \<and> (\<forall>t \<in># I. max_iso_packets t < 2 ^ 16) \<and>
     (\<forall>t \<in> set (smalls p). max_iso_packets t = 0) \<and> (\<forall>t \<in># S. max_iso_packets t = 0) \<and>
     (\<forall>i. count (all_transfers p I S) i \<le> (if i < next_transfer p then 1 else 0))"

lemma pool_okD:
  assumes "pool_ok p I S"
  shows "big_ok (isos p)" and "\<forall>t \<in># I. max_iso_packets t < 2 ^ 16" and "\<forall>t \<in> set (smalls p). max_iso_packets t = 0"
    and "\<forall>t \<in># S. max_iso_packets t = 0" and "count (all_transfers p I S) i \<le> (if i < next_transfer p then 1 else 0)"
  using assms by (simp_all add: pool_ok_def)

lemma take_iso_ok:
  assumes "pool_ok p I S"
  shows "\<exists>t p'. take_iso n p = Ret (t, p') \<and> unat n \<le> max_iso_packets t \<and> pool_ok p' (add_mset t I) S"
proof -
  note d = pool_okD [OF assms]
  let ?new = "Transfer (next_transfer p) (unat n)"
  obtain r c' where r: "big_remove n (isos p) = Ret (r, c')" "big_ok c'"
    "unat n \<le> max_iso_packets (case r of Some t \<Rightarrow> t | None \<Rightarrow> ?new)"
    "max_iso_packets (case r of Some t \<Rightarrow> t | None \<Rightarrow> ?new) < 2 ^ 16"
    "add_mset (case r of Some t \<Rightarrow> t | None \<Rightarrow> ?new) (big_elems c') =
      (if r = None then add_mset ?new (big_elems (isos p)) else big_elems (isos p))"
    by (rule iso_cache.take_conserves [OF d(1), of n ?new]) (auto simp: unsigned_less)
  define t where "t = (case r of Some t \<Rightarrow> t | None \<Rightarrow> ?new)"
  define p' where "p' = (if r = None then p\<lparr>isos := c', next_transfer := next_transfer p + 1\<rparr> else p\<lparr>isos := c'\<rparr>)"
  have t: "take_iso n p = Ret (t, p')" using r(1) by (auto simp: take_iso_def t_def p'_def split: option.splits)
  have "image_mset t_id (big_elems c' + add_mset t I) =
      (if r = None then add_mset (next_transfer p) (image_mset t_id (big_elems (isos p) + I))
       else image_mset t_id (big_elems (isos p) + I))"
    using arg_cong [OF r(5), of "image_mset t_id"] by (auto simp: t_def split: if_splits)
  then have "all_transfers p' (add_mset t I) S =
      (if r = None then add_mset (next_transfer p) (all_transfers p I S) else all_transfers p I S)"
    by (simp add: all_transfers_def p'_def split: if_splits)
  then have "count (all_transfers p' (add_mset t I) S) i \<le> (if i < next_transfer p' then 1 else 0)" for i
    using d(5) [of i] d(5) [of "next_transfer p"] by (auto simp: p'_def split: if_splits)
  then have "pool_ok p' (add_mset t I) S"
    using d(2-4) r(2,4) by (auto simp: pool_ok_def p'_def t_def)
  with t r(3) show ?thesis by (auto simp: t_def)
qed

lemma take_small_ok:
  assumes "pool_ok p I S" and "take_small p = (t, p')"
  shows "pool_ok p' I (add_mset t S)"
proof -
  note d = pool_okD [OF assms(1)]
  let ?new = "Transfer (next_transfer p) 0"
  obtain r c' where r: "Ret (small_remove (smalls p)) = Ret (r, c')" "\<forall>t \<in> set c'. max_iso_packets t = 0"
    "max_iso_packets (case r of Some t \<Rightarrow> t | None \<Rightarrow> ?new) = 0"
    "add_mset (case r of Some t \<Rightarrow> t | None \<Rightarrow> ?new) (mset c') =
      (if r = None then add_mset ?new (mset (smalls p)) else mset (smalls p))"
    by (rule small_cache.take_conserves [OF d(3), where new = ?new]) auto
  have t: "t = (case r of Some t \<Rightarrow> t | None \<Rightarrow> ?new)"
    and p': "p' = (if r = None then p\<lparr>smalls := c', next_transfer := next_transfer p + 1\<rparr> else p\<lparr>smalls := c'\<rparr>)"
    using assms(2) r(1) by (auto simp: take_small_def split: option.splits)
  have "image_mset t_id (mset c' + add_mset t S) =
      (if r = None then add_mset (next_transfer p) (image_mset t_id (mset (smalls p) + S))
       else image_mset t_id (mset (smalls p) + S))"
    using arg_cong [OF r(4), of "image_mset t_id"] by (auto simp: t split: if_splits)
  then have "all_transfers p' I (add_mset t S) =
      (if r = None then add_mset (next_transfer p) (all_transfers p I S) else all_transfers p I S)"
    by (simp add: all_transfers_def p' add.assoc split: if_splits)
  then have "count (all_transfers p' I (add_mset t S)) i \<le> (if i < next_transfer p' then 1 else 0)" for i
    using d(5) [of i] d(5) [of "next_transfer p"] by (auto simp: p' split: if_splits)
  then show ?thesis using d(1,2,4) r(2,3) by (auto simp: pool_ok_def p' t)
qed

lemma pool_run_ok: "pool_run p I S \<Longrightarrow> pool_ok p I S"
proof (induction rule: pool_run.induct)
  case start
  then show ?case by (simp add: pool_ok_def all_transfers_def start_transfers_def big_ok_def)
next
  case (take_iso p I S n t p')
  with take_iso_ok [OF take_iso.IH, of n] show ?case by auto
next
  case (take_small p I S t p')
  from take_small_ok [OF take_small.IH take_small.hyps(2)] show ?case .
next
  case (put_iso p t I S)
  note d = pool_okD [OF put_iso.IH]
  with big_insert_ok [OF d(1), of t] have
    "all_transfers (put_iso t p) I S = all_transfers p (add_mset t I) S" "big_ok (big_insert t (isos p))"
    by (simp_all add: all_transfers_def put_iso_def)
  with d show ?case by (simp add: pool_ok_def put_iso_def)
next
  case (put_small p I t S)
  note d = pool_okD [OF put_small.IH]
  have "all_transfers (put_small t p) I S = all_transfers p I (add_mset t S)"
    by (simp add: all_transfers_def put_small_def small_insert_def)
  with d show ?case by (auto simp: pool_ok_def put_small_def small_insert_def)
qed

lemma pool_ok_exclusive:
  assumes "pool_ok p (add_mset t I) S \<or> pool_ok p I (add_mset t S)"
  shows "t_id t \<notin> t_id ` set_mset (I + S)"
proof
  assume "t_id t \<in> t_id ` set_mset (I + S)"
  then have "t_id t \<in># image_mset t_id (I + S)" by (simp only: set_image_mset)
  then have 1: "0 < count (image_mset t_id (I + S)) (t_id t)" by (simp only: count_greater_zero_iff)
  have "count (all_transfers p (add_mset t I) S) (t_id t) \<le> 1 \<or> count (all_transfers p I (add_mset t S)) (t_id t) \<le> 1"
    using assms pool_okD(5) [of p "add_mset t I" S "t_id t"] pool_okD(5) [of p I "add_mset t S" "t_id t"]
    by (auto split: if_splits)
  with 1 show False by (auto simp: all_transfers_def simp del: count_greater_zero_iff)
qed

section \<open>Facts: memory blocks\<close>

lemma bytes_mut_okD:
  assumes "bytes_mut_ok B"
  shows "bm_len B (bm_with_capacity B n) = 0" and "n \<le> bm_capacity B (bm_with_capacity B n)"
    and "bm_try_reclaim B n m = (True, m') \<Longrightarrow> bm_len B m + n \<le> bm_capacity B m' \<and> bm_len B m' = bm_len B m"
    and "bm_try_reclaim B n m = (False, m') \<Longrightarrow> m' = m"
    and "n \<le> bm_capacity B m \<Longrightarrow> bm_len B (bm_set_len B n m) = n"
    and "n \<le> bm_len B m \<Longrightarrow> bm_split_to B n m = (a, b) \<Longrightarrow> bm_len B a = n \<and> bm_len B b = bm_len B m - n"
  using assms unfolding bytes_mut_ok_def by metis+

lemma cut_block_ok:
  assumes "bytes_mut_ok B" and "n \<le> bm_capacity B b"
  obtains mem rest where "cut_block B n b = Ret (mem, rest)" and "bm_len B mem = n" and "bm_len B rest = 0"
proof -
  have len: "bm_len B (bm_set_len B n b) = n" by (rule bytes_mut_okD(5) [OF assms])
  obtain mem rest where s: "bm_split_to B n (bm_set_len B n b) = (mem, rest)" by fastforce
  from bytes_mut_okD(6) [OF assms(1) _ s] len have "bm_len B mem = n" "bm_len B rest = 0" by simp_all
  with assms(2) len s show ?thesis by (intro that [of mem rest]) (auto simp: cut_block_def Let_def)
qed

text \<open>The first block with room is used, the blocks before it go to the end of the queue.\<close>

lemma reserve_loop_ok:
  assumes "bytes_mut_ok B" and "\<forall>b \<in> set (q @ q'). bm_len B b = 0"
  shows "\<exists>r q''. reserve_loop B n (length q) (q @ q') = Ret (r, q'') \<and>
    (\<forall>b \<in> set q''. bm_len B b = 0) \<and>
    (case r of
       None \<Rightarrow> q'' = q' @ q \<and> (\<forall>b \<in> set q. \<not> fst (bm_try_reclaim B n b))
     | Some mem \<Rightarrow> bm_len B mem = n \<and> length q'' = length (q @ q') \<and> (\<exists>b \<in> set q. fst (bm_try_reclaim B n b)))"
  using assms(2)
proof (induction q arbitrary: q')
  case Nil
  then show ?case by simp
next
  case (Cons b q)
  obtain ok b' where b: "bm_try_reclaim B n b = (ok, b')" by fastforce
  have len: "bm_len B b = 0" using Cons.prems by simp
  show ?case
  proof (cases ok)
    case True
    have b1: "bm_try_reclaim B n b = (True, b')" using b True by simp
    note r = bytes_mut_okD(3) [OF assms(1) b1]
    from r len obtain mem rest where
      c: "cut_block B n b' = Ret (mem, rest)" "bm_len B mem = n" "bm_len B rest = 0"
      by (auto intro: cut_block_ok [OF assms(1), of n b'])
    then show ?thesis using b True len Cons.prems by auto
  next
    case False
    have b1: "bm_try_reclaim B n b = (False, b')" using b False by simp
    have "b' = b" by (rule bytes_mut_okD(4) [OF assms(1) b1])
    have ih: "\<forall>x \<in> set (q @ (q' @ [b])). bm_len B x = 0" using Cons.prems by simp
    have step: "reserve_loop B n (length (b # q)) ((b # q) @ q') = reserve_loop B n (length q) (q @ (q' @ [b]))"
      using b False len \<open>b' = b\<close> by simp
    from Cons.IH [OF ih] obtain r q'' where
      r: "reserve_loop B n (length q) (q @ (q' @ [b])) = Ret (r, q'')" "\<forall>b \<in> set q''. bm_len B b = 0"
      "case r of
         None \<Rightarrow> q'' = (q' @ [b]) @ q \<and> (\<forall>b \<in> set q. \<not> fst (bm_try_reclaim B n b))
       | Some mem \<Rightarrow> bm_len B mem = n \<and> length q'' = length (q @ (q' @ [b])) \<and> (\<exists>b \<in> set q. fst (bm_try_reclaim B n b))"
      by blast
    then show ?thesis unfolding step using b False by (cases r) auto
  qed
qed

section \<open>Properties\<close>

text \<open>C9. Whatever requests and completions interleave: taking a transfer never panics, the transfer has
  room for the packets of the request, and it is not in use by another request.\<close>

theorem transfers_exclusive:
  assumes "pool_run p I S"
  shows "(\<exists>t p'. take_iso n p = Ret (t, p') \<and> unat n \<le> max_iso_packets t \<and> t_id t \<notin> t_id ` set_mset (I + S)) \<and>
    t_id (fst (take_small p)) \<notin> t_id ` set_mset (I + S)"
proof
  note ok = pool_run_ok [OF assms]
  from take_iso_ok [OF ok, of n] pool_ok_exclusive show
    "\<exists>t p'. take_iso n p = Ret (t, p') \<and> unat n \<le> max_iso_packets t \<and> t_id t \<notin> t_id ` set_mset (I + S)" by blast
  from take_small_ok [OF ok] pool_ok_exclusive show "t_id (fst (take_small p)) \<notin> t_id ` set_mset (I + S)"
    by (metis prod.collapse)
qed

text \<open>C33. Given blocks whose memory has been handed out, as \<open>allocator_new\<close> and \<open>reserve\<close> leave them,
  \<open>reserve\<close> returns \<open>n\<close> bytes without setting a length beyond a capacity, and allocates a block only
  when none of the blocks can be reclaimed; a request for more than a block panics.\<close>

theorem reserve_safe:
  assumes "bytes_mut_ok B" and "\<forall>b \<in> set q. bm_len B b = 0"
  shows "if n \<le> SCRATCH_LEN then
      \<exists>mem q'. reserve B n q = Ret (mem, q') \<and> bm_len B mem = n \<and> (\<forall>b \<in> set q'. bm_len B b = 0) \<and>
        length q' = (if \<exists>b \<in> set q. fst (bm_try_reclaim B n b) then length q else length q + 1)
    else reserve B n q = Panic"
proof (cases "n \<le> SCRATCH_LEN")
  case True
  from reserve_loop_ok [OF assms(1), of q "[]" n, unfolded append_Nil append_Nil2] assms(2) obtain r q' where
    r: "reserve_loop B n (length q) q = Ret (r, q')" "\<forall>b \<in> set q'. bm_len B b = 0"
    "case r of
       None \<Rightarrow> q' = q \<and> (\<forall>b \<in> set q. \<not> fst (bm_try_reclaim B n b))
     | Some mem \<Rightarrow> bm_len B mem = n \<and> length q' = length q \<and> (\<exists>b \<in> set q. fst (bm_try_reclaim B n b))"
    by blast
  have "n \<le> bm_capacity B (bm_with_capacity B SCRATCH_LEN)"
    using bytes_mut_okD(2) [OF assms(1), of SCRATCH_LEN] True by linarith
  then obtain mem rest where
    "cut_block B n (bm_with_capacity B SCRATCH_LEN) = Ret (mem, rest)" "bm_len B mem = n" "bm_len B rest = 0"
    by (rule cut_block_ok [OF assms(1)])
  with r True show ?thesis by (cases r) (auto simp: reserve_def)
qed (simp add: reserve_def assert_that_def)

section \<open>The properties at work\<close>

lemma example_pool: "pool_run (snd (take_small (put_iso (Transfer 2 8) (start_transfers\<lparr>next_transfer := 3\<rparr>))))
    {#} {#Transfer 1 0#}"
proof -
  have 1: "pool_run (start_transfers\<lparr>next_transfer := 3\<rparr>) {#Transfer 2 8#} {#}"
    by (rule pool_run.take_iso [OF pool_run.start, of 8])
      (simp add: take_iso_def start_transfers_def big_remove_def bt_range_def)
  have "take_small (put_iso (Transfer 2 8) (start_transfers\<lparr>next_transfer := 3\<rparr>)) =
    (Transfer 1 0, snd (take_small (put_iso (Transfer 2 8) (start_transfers\<lparr>next_transfer := 3\<rparr>))))"
    by (simp add: take_small_def small_remove_def put_iso_def start_transfers_def)
  from pool_run.take_small [OF pool_run.put_iso [OF 1] this] show ?thesis .
qed

theorem transfers_exclusive_witness:
  "\<exists>t p'. take_iso 5 (snd (take_small (put_iso (Transfer 2 8) (start_transfers\<lparr>next_transfer := 3\<rparr>)))) = Ret (t, p') \<and>
    5 \<le> max_iso_packets t \<and> t_id t \<noteq> 1"
  using transfers_exclusive [OF example_pool, of 5] by auto

text \<open>Blocks as lengths and capacities; only room left over can be reclaimed.\<close>

definition plain_bytes :: "(nat \<times> nat) bytes_mut" where
  "plain_bytes = \<lparr>bm_with_capacity = (\<lambda>n. (0, n)), bm_len = fst, bm_capacity = snd,
     bm_try_reclaim = (\<lambda>n m. (fst m + n \<le> snd m, m)), bm_set_len = (\<lambda>n m. (n, snd m)),
     bm_split_to = (\<lambda>n m. ((n, n), (fst m - n, snd m - n)))\<rparr>"

theorem reserve_safe_witness:
  "\<exists>mem q'. reserve plain_bytes 40000 [(0, 30000), (0, 20000)] = Ret (mem, q') \<and> fst mem = 40000 \<and> length q' = 3"
proof -
  have "bytes_mut_ok plain_bytes" by (auto simp: bytes_mut_ok_def plain_bytes_def)
  from reserve_safe [OF this, of "[(0, 30000), (0, 20000)]" 40000] show ?thesis
    by (auto simp: plain_bytes_def SCRATCH_LEN_def numeral_3_eq_3)
qed

end
