(* ===== verification/Lend_Requests.thy ===== *)
theory Lend_Requests
  imports Transfer_Cache End_To_End
begin

text \<open>
  \<^verbatim>\<open>LendRecvHandler\<close> of \<^verbatim>\<open>crates/qusb/src/operator.rs\<close> as a whole: a request registers a
  cancellation token, gets its buffer, takes a transfer from the caches and submits it to libusb;
  when the transfer is done, it goes back to its cache and the result to the send loop.
  \<open>submitted\<close> are the transfers that libusb works on.
\<close>

section \<open>Submitting\<close>

record submission =
  sb_seqnum :: u32
  sb_kind :: transfer_kind
  sb_header :: urb_header
  sb_token :: nat
  sb_transfer :: transfer
  sb_buf :: bytes
  sb_raw_iso :: bytes

record lend_recv =
  lc_tokens :: tokens
  lc_transfers :: transfers
  submitted :: "submission list"

definition submit :: "transfer_kind \<Rightarrow> u32 \<Rightarrow> urb_header \<Rightarrow> nat \<Rightarrow> tokens \<Rightarrow> bytes \<Rightarrow> bytes \<Rightarrow>
    transfer \<times> transfers \<Rightarrow> lend_recv \<Rightarrow> lend_recv" where
  "submit k sn h token tks buf raw taken s =
     s\<lparr>lc_tokens := tks, lc_transfers := snd taken,
       submitted := submitted s @ [\<lparr>sb_seqnum = sn, sb_kind = k, sb_header = h, sb_token = token,
         sb_transfer = fst taken, sb_buf = buf, sb_raw_iso = raw\<rparr>]\<rparr>"

definition new_ctrl :: "vhci_ops \<Rightarrow> (nat \<Rightarrow> u8) \<Rightarrow> data seq \<Rightarrow> lend_recv \<Rightarrow> lend_recv run" where
  "new_ctrl V junk sq s =
     (case register_cancel_token (sq_seqnum sq) (lc_tokens s) of (token, tks) \<Rightarrow>
        rbind (urb_frame_header (sq_data sq)) (\<lambda>h.
        rbind (new_ctrl_buf V junk (sq_data sq)) (\<lambda>buf.
          Ret (submit Control (sq_seqnum sq) h token tks buf [] (take_small (lc_transfers s)) s))))"

definition new_int :: "(nat \<Rightarrow> u8) \<Rightarrow> data seq \<Rightarrow> lend_recv \<Rightarrow> lend_recv run" where
  "new_int junk sq s =
     (case register_cancel_token (sq_seqnum sq) (lc_tokens s) of (token, tks) \<Rightarrow>
        rbind (urb_frame_header (sq_data sq)) (\<lambda>h.
        rbind (new_data_buf junk (sq_data sq)) (\<lambda>buf.
          Ret (submit Interrupt (sq_seqnum sq) h token tks buf [] (take_small (lc_transfers s)) s))))"

definition new_bulk :: "(nat \<Rightarrow> u8) \<Rightarrow> data seq \<Rightarrow> lend_recv \<Rightarrow> lend_recv run" where
  "new_bulk junk sq s =
     (case register_cancel_token (sq_seqnum sq) (lc_tokens s) of (token, tks) \<Rightarrow>
        rbind (urb_frame_header (sq_data sq)) (\<lambda>h.
        rbind (new_data_buf junk (sq_data sq)) (\<lambda>buf.
          Ret (submit Bulk (sq_seqnum sq) h token tks buf [] (take_small (lc_transfers s)) s))))"

definition new_iso :: "nat \<Rightarrow> (nat \<Rightarrow> u8) \<Rightarrow> data seq \<Rightarrow> lend_recv \<Rightarrow> lend_recv run" where
  "new_iso iso_sz junk sq s =
     (case register_cancel_token (sq_seqnum sq) (lc_tokens s) of (token, tks) \<Rightarrow>
        rbind (urb_frame_header (sq_data sq)) (\<lambda>h.
        rbind (new_iso_bufs iso_sz junk (sq_data sq)) (\<lambda>(buf, raw).
        rbind (take_iso (iso_packet_count h) (lc_transfers s)) (\<lambda>taken.
          Ret (submit Isochronous (sq_seqnum sq) h token tks buf raw taken s)))))"

definition cancel_request :: "u32 \<Rightarrow> lend_recv \<Rightarrow> lend_recv" where
  "cancel_request sn s = s\<lparr>lc_tokens := lend_cancel_urb sn (lc_tokens s)\<rparr>"

text \<open>The handler that the receive loop calls. The blocking requests run elsewhere.\<close>

definition lend_recv_handler_ops :: "vhci_ops \<Rightarrow> nat \<Rightarrow> (nat \<Rightarrow> u8) \<Rightarrow> lend_recv lend_recv_handler" where
  "lend_recv_handler_ops V iso_sz junk =
     \<lparr>lr_cancel_urb = cancel_request, lr_device_reset = (\<lambda>_. Ret), lr_blocking = (\<lambda>_. Ret),
      lr_new = (\<lambda>k. case k of
         Control \<Rightarrow> new_ctrl V junk | Interrupt \<Rightarrow> new_int junk | Bulk \<Rightarrow> new_bulk junk
       | Isochronous \<Rightarrow> new_iso iso_sz junk)\<rparr>"

section \<open>Completing\<close>

text \<open>
  The layout of a packet descriptor belongs to the crate \<^verbatim>\<open>vhci\<close>: \<open>set_pkt\<close> writes the actual
  length and the status into one; \<open>to_errno_raw\<close> is the error number of a status.
\<close>

record iso_ops =
  set_pkt :: "u32 \<Rightarrow> int \<Rightarrow> bytes \<Rightarrow> bytes"
  to_errno_raw :: "vhci_status \<Rightarrow> int"

fun fill_pkts :: "iso_ops \<Rightarrow> nat \<Rightarrow> (u32 \<times> libusb_status) list \<Rightarrow> bytes \<Rightarrow> bytes" where
  "fill_pkts P iso_sz [] raw = raw"
| "fill_pkts P iso_sz ((len, st) # pkts) raw =
     (if length raw < iso_sz \<or> raw = [] then raw
      else set_pkt P len (to_errno_raw P (vhci_from_transfer_status st)) (take iso_sz raw) @
        fill_pkts P iso_sz pkts (drop iso_sz raw))"

definition count_errors :: "iso_ops \<Rightarrow> (u32 \<times> libusb_status) list \<Rightarrow> nat" where
  "count_errors P pkts = length (filter (\<lambda>(_, st). to_errno_raw P (vhci_from_transfer_status st) \<noteq> 0) pkts)"

text \<open>
  \<open>mem\<close> is the memory behind the buffer up to its capacity, \<open>pkts\<close> what libusb reports for the
  packets; \<^verbatim>\<open>zip\<close> stops at the shorter of the two lists.
\<close>

definition iso_done :: "iso_ops \<Rightarrow> nat \<Rightarrow> u32 \<Rightarrow> urb_header \<Rightarrow> libusb_status \<Rightarrow> bytes \<Rightarrow>
    (u32 \<times> libusb_status) list \<Rightarrow> bytes \<Rightarrow> iso_xfer seq run" where
  "iso_done P iso_sz sn h st mem pkts raw =
     (let n = unat (iso_packet_count h)
      in rbind (assert_that (length raw = n * iso_sz)) (\<lambda>_.
         rbind (endpoint_dir (endpoint h)) (\<lambda>dir.
           Ret \<lparr>sq_seqnum = sn, sq_data = \<lparr>x_res = result_data_new mem dir, x_endpoint = endpoint h,
             x_status = convert_libusb_to_proto (Inr st), x_interval = interval h,
             x_raw_iso_buf = fill_pkts P iso_sz pkts raw,
             x_num_errors = of_nat (count_errors P (take n pkts)), x_num_iso_packets = of_nat n\<rparr>\<rparr>)))"

text \<open>
  What libusb makes of a submission: its status, the buffer it returns, the memory up to the
  capacity of that buffer, and the results of the packets.
\<close>

record outcome =
  oc_status :: libusb_status
  oc_buf :: bytes
  oc_mem :: bytes
  oc_pkts :: "(u32 \<times> libusb_status) list"

definition completed :: "vhci_ops \<Rightarrow> iso_ops \<Rightarrow> nat \<Rightarrow> submission \<Rightarrow> outcome \<Rightarrow> completed_transfer run" where
  "completed V P iso_sz b oc =
     (case sb_kind b of
        Control \<Rightarrow> rbind (ctrl_done V (sb_seqnum b) (sb_header b) (oc_status oc) (oc_buf oc)) (Ret \<circ> CCtrl)
      | Interrupt \<Rightarrow> rbind (int_done (sb_seqnum b) (sb_header b) (oc_status oc) (oc_buf oc)) (Ret \<circ> CInt)
      | Bulk \<Rightarrow> rbind (bulk_done (sb_seqnum b) (sb_header b) (oc_status oc) (oc_buf oc)) (Ret \<circ> CBulk)
      | Isochronous \<Rightarrow> rbind (iso_done P iso_sz (sb_seqnum b) (sb_header b) (oc_status oc) (oc_mem oc)
          (oc_pkts oc) (sb_raw_iso b)) (Ret \<circ> CIso))"

definition put_back :: "submission \<Rightarrow> transfers \<Rightarrow> transfers" where
  "put_back b = (if sb_kind b = Isochronous then put_iso (sb_transfer b) else put_small (sb_transfer b))"

text \<open>The future of a request: the transfer number \<open>i\<close> is done.\<close>

definition finish :: "vhci_ops \<Rightarrow> iso_ops \<Rightarrow> nat \<Rightarrow> nat \<Rightarrow> outcome \<Rightarrow> lend_recv \<Rightarrow>
    (completed_transfer \<times> lend_recv) run" where
  "finish V P iso_sz i oc s =
     (if i < length (submitted s) then
        (let b = submitted s ! i
         in rbind (completed V P iso_sz b oc) (\<lambda>t.
              Ret (t, s\<lparr>lc_transfers := put_back b (lc_transfers s),
                submitted := take i (submitted s) @ drop (Suc i) (submitted s)\<rparr>)))
      else Panic)"

section \<open>Facts: serving requests\<close>

definition lend_recv_new :: lend_recv where
  "lend_recv_new = \<lparr>lc_tokens = no_tokens, lc_transfers = start_transfers, submitted = []\<rparr>"

text \<open>
  The lender at work: requests with sequence numbers that are not in use, cancellations,
  completions and replies in any order. \<open>rs\<close> are the requests whose results are on their way to
  the send loop (a blocking request has no transfer). The lender does not check the numbers, which
  the peer chooses; \<open>serve_any\<close> is the same without this condition.
\<close>

inductive serve :: "vhci_ops \<Rightarrow> iso_ops \<Rightarrow> nat \<Rightarrow> (nat \<Rightarrow> u8) \<Rightarrow> lend_recv \<Rightarrow> u32 list \<Rightarrow> bool"
  for V P iso_sz junk where
  start: "serve V P iso_sz junk lend_recv_new []"
| request: "serve V P iso_sz junk s rs \<Longrightarrow> sq_seqnum sq \<notin> sb_seqnum ` set (submitted s) \<union> set rs \<Longrightarrow>
    lr_new (lend_recv_handler_ops V iso_sz junk) k sq s = Ret s' \<Longrightarrow> serve V P iso_sz junk s' rs"
| blocking: "serve V P iso_sz junk s rs \<Longrightarrow> sn \<notin> sb_seqnum ` set (submitted s) \<union> set rs \<Longrightarrow>
    serve V P iso_sz junk s (sn # rs)"
| cancel: "serve V P iso_sz junk s rs \<Longrightarrow> serve V P iso_sz junk (cancel_request sn s) rs"
| finish: "serve V P iso_sz junk s rs \<Longrightarrow> finish V P iso_sz i oc s = Ret (t, s') \<Longrightarrow>
    serve V P iso_sz junk s' (completed_seq t # rs)"
| sent: "serve V P iso_sz junk s rs \<Longrightarrow> sn \<in> set rs \<Longrightarrow> deregister_token chk sn (lc_tokens s) = Ret tks \<Longrightarrow>
    serve V P iso_sz junk (s\<lparr>lc_tokens := tks\<rparr>) (remove1 sn rs)"

inductive serve_any :: "vhci_ops \<Rightarrow> iso_ops \<Rightarrow> nat \<Rightarrow> (nat \<Rightarrow> u8) \<Rightarrow> lend_recv \<Rightarrow> u32 list \<Rightarrow> bool"
  for V P iso_sz junk where
  start: "serve_any V P iso_sz junk lend_recv_new []"
| request: "serve_any V P iso_sz junk s rs \<Longrightarrow> lr_new (lend_recv_handler_ops V iso_sz junk) k sq s = Ret s' \<Longrightarrow>
    serve_any V P iso_sz junk s' rs"
| blocking: "serve_any V P iso_sz junk s rs \<Longrightarrow> serve_any V P iso_sz junk s (sn # rs)"
| cancel: "serve_any V P iso_sz junk s rs \<Longrightarrow> serve_any V P iso_sz junk (cancel_request sn s) rs"
| finish: "serve_any V P iso_sz junk s rs \<Longrightarrow> finish V P iso_sz i oc s = Ret (t, s') \<Longrightarrow>
    serve_any V P iso_sz junk s' (completed_seq t # rs)"
| sent: "serve_any V P iso_sz junk s rs \<Longrightarrow> sn \<in> set rs \<Longrightarrow> deregister_token chk sn (lc_tokens s) = Ret tks \<Longrightarrow>
    serve_any V P iso_sz junk (s\<lparr>lc_tokens := tks\<rparr>) (remove1 sn rs)"

lemma serve_serve_any: "serve V P iso_sz junk s rs \<Longrightarrow> serve_any V P iso_sz junk s rs"
  by (induction rule: serve.induct) (blast intro: serve_any.intros)+

text \<open>The transfers that libusb works on, isochronous and others.\<close>

definition isos_out :: "submission list \<Rightarrow> transfer multiset" where
  "isos_out bs = image_mset sb_transfer (filter_mset (\<lambda>b. sb_kind b = Isochronous) (mset bs))"

definition smalls_out :: "submission list \<Rightarrow> transfer multiset" where
  "smalls_out bs = image_mset sb_transfer (filter_mset (\<lambda>b. sb_kind b \<noteq> Isochronous) (mset bs))"

lemma out_simps [simp]: "isos_out [] = {#}" "smalls_out [] = {#}"
  "isos_out (b # bs) = (if sb_kind b = Isochronous then add_mset (sb_transfer b) (isos_out bs) else isos_out bs)"
  "smalls_out (b # bs) = (if sb_kind b = Isochronous then smalls_out bs else add_mset (sb_transfer b) (smalls_out bs))"
  "isos_out (bs @ cs) = isos_out bs + isos_out cs" "smalls_out (bs @ cs) = smalls_out bs + smalls_out cs"
  by (simp_all add: isos_out_def smalls_out_def)

definition token_held :: "tokens \<Rightarrow> submission \<Rightarrow> bool" where
  "token_held t b \<longleftrightarrow> active_transfers t (sb_seqnum b) = Some (sb_token b) \<or> sb_token b \<in> cancelled t"

definition serve_ok :: "lend_recv \<Rightarrow> u32 list \<Rightarrow> bool" where
  "serve_ok s rs \<longleftrightarrow>
     pool_run (lc_transfers s) (isos_out (submitted s)) (smalls_out (submitted s)) \<and>
     tokens_ok (lc_tokens s) \<and> distinct (map sb_seqnum (submitted s) @ rs) \<and>
     distinct (map sb_token (submitted s)) \<and> (\<forall>b \<in> set (submitted s). token_held (lc_tokens s) b)"

lemma serve_okD:
  assumes "serve_ok s rs"
  shows "pool_run (lc_transfers s) (isos_out (submitted s)) (smalls_out (submitted s))"
    and "tokens_ok (lc_tokens s)" and "distinct (map sb_seqnum (submitted s) @ rs)"
    and "distinct (map sb_token (submitted s))" and "b \<in> set (submitted s) \<Longrightarrow> token_held (lc_tokens s) b"
  using assms by (simp_all add: serve_ok_def)

lemma register_token_parts:
  "register_cancel_token sn t = (c, t') \<Longrightarrow>
    active_transfers t' = (active_transfers t)(sn \<mapsto> c) \<and> cancelled t' = cancelled t"
  by (auto simp: register_cancel_token_def Let_def split: if_splits)

lemma register_fresh_token:
  assumes "tokens_ok t" and "register_cancel_token sn t = (c, t')" and "token_held t b"
  shows "sb_token b \<noteq> c"
  using register_ok(2) [OF assms(1), of sn] register_ok(3) [OF assms(1), where sn = sn and sn' = "sb_seqnum b"] assms(2,3)
  by (auto simp: token_held_def)

text \<open>A request takes a transfer out of the caches.\<close>

definition submitted_run :: "transfers \<Rightarrow> submission list \<Rightarrow> bool" where
  "submitted_run p bs \<longleftrightarrow> pool_run p (isos_out bs) (smalls_out bs)"

lemma request_parts:
  assumes req: "lr_new (lend_recv_handler_ops V iso_sz junk) k sq s = Ret s'"
    and run: "submitted_run (lc_transfers s) (submitted s)"
  obtains c tks h buf raw taken where "register_cancel_token (sq_seqnum sq) (lc_tokens s) = (c, tks)"
    and "s' = submit k (sq_seqnum sq) h c tks buf raw taken s" and "submitted_run (lc_transfers s') (submitted s')"
proof -
  obtain c tks where reg: "register_cancel_token (sq_seqnum sq) (lc_tokens s) = (c, tks)" by fastforce
  obtain t p' where small: "take_small (lc_transfers s) = (t, p')" by fastforce
  note run' = run [unfolded submitted_run_def]
  note run_small = pool_run.take_small [OF run' small]
  show ?thesis
  proof (cases k)
    case Isochronous
    then obtain h buf raw t p' where t: "take_iso (iso_packet_count h) (lc_transfers s) = Ret (t, p')"
      and s': "s' = submit k (sq_seqnum sq) h c tks buf raw (t, p') s"
      using req reg by (auto simp: lend_recv_handler_ops_def new_iso_def rbind_eq_Ret)
    with that [OF reg s'] pool_run.take_iso [OF run' t] Isochronous show ?thesis
      by (simp add: submit_def submitted_run_def)
  qed (use req reg small run_small that [OF reg] in
      \<open>auto simp: lend_recv_handler_ops_def new_ctrl_def new_int_def new_bulk_def rbind_eq_Ret submit_def submitted_run_def\<close>)
qed

lemma submit_ok:
  assumes ok: "serve_ok s rs" and sn: "sn \<notin> sb_seqnum ` set (submitted s) \<union> set rs"
    and reg: "register_cancel_token sn (lc_tokens s) = (c, tks)"
    and s': "s' = submit k sn h c tks buf raw taken s" and run: "submitted_run (lc_transfers s') (submitted s')"
  shows "serve_ok s' rs"
proof -
  note d = serve_okD [OF ok]
  have tk: "tokens_ok tks" using register_ok(1) [OF d(2), of sn] reg by simp
  note p = register_token_parts [OF reg]
  have "token_held tks b" if "b \<in> set (submitted s)" for b
    using d(5) [OF that] sn that p by (auto simp: token_held_def)
  moreover have "c \<notin> sb_token ` set (submitted s)"
    using register_fresh_token [OF d(2) reg] d(5) by blast
  moreover have "active_transfers tks sn = Some c" using p by simp
  ultimately show ?thesis
    using d run tk sn by (auto simp: s' serve_ok_def submitted_run_def submit_def token_held_def)
qed

lemma request_ok:
  assumes ok: "serve_ok s rs" and sn: "sq_seqnum sq \<notin> sb_seqnum ` set (submitted s) \<union> set rs"
    and req: "lr_new (lend_recv_handler_ops V iso_sz junk) k sq s = Ret s'"
  shows "serve_ok s' rs"
proof -
  have "submitted_run (lc_transfers s) (submitted s)" using serve_okD(1) [OF ok] by (simp add: submitted_run_def)
  from request_parts [OF req this] submit_ok [OF ok sn] show ?thesis by metis
qed

lemma finish_parts:
  assumes "finish V P iso_sz i oc s = Ret (t, s')"
  obtains xs b ys where "submitted s = xs @ b # ys" and "submitted s' = xs @ ys"
    and "lc_transfers s' = put_back b (lc_transfers s)" and "lc_tokens s' = lc_tokens s"
    and "completed V P iso_sz b oc = Ret t" and "completed_seq t = sb_seqnum b"
proof -
  have i: "i < length (submitted s)" using assms by (auto simp: finish_def split: if_splits)
  let ?b = "submitted s ! i"
  have c: "completed V P iso_sz ?b oc = Ret t" and s': "s' = s\<lparr>lc_transfers := put_back ?b (lc_transfers s),
      submitted := take i (submitted s) @ drop (Suc i) (submitted s)\<rparr>"
    using assms i by (auto simp: finish_def Let_def rbind_eq_Ret)
  have "completed_seq t = sb_seqnum ?b"
    using c by (auto simp: completed_def ctrl_done_def int_done_def bulk_done_def iso_done_def rbind_eq_Ret Let_def
      split: transfer_kind.splits)
  with c s' i show ?thesis
    by (intro that [of "take i (submitted s)" ?b "drop (Suc i) (submitted s)"]) (simp_all add: id_take_nth_drop)
qed

lemma put_back_run:
  assumes "pool_run p (isos_out (xs @ b # ys)) (smalls_out (xs @ b # ys))"
  shows "pool_run (put_back b p) (isos_out (xs @ ys)) (smalls_out (xs @ ys))"
  using assms pool_run.put_iso [of p "sb_transfer b"] pool_run.put_small [of p _ "sb_transfer b"]
  by (auto simp: put_back_def)

lemma serve_inv: "serve V P iso_sz junk s rs \<Longrightarrow> serve_ok s rs"
proof (induction rule: serve.induct)
  case start
  show ?case by (simp add: serve_ok_def lend_recv_new_def pool_run.start no_tokens_ok)
next
  case (request s rs sq k s')
  from request_ok [OF request.IH request.hyps(2,3)] show ?case .
next
  case (blocking s rs sn)
  then show ?case by (auto simp: serve_ok_def)
next
  case (cancel s rs sn)
  note d = serve_okD [OF cancel.IH]
  have "token_held (lend_cancel_urb sn (lc_tokens s)) b" if "b \<in> set (submitted s)" for b
    using d(5) [OF that] by (auto simp: token_held_def lend_cancel_urb_def split: option.splits)
  with d lend_cancel_ok [OF d(2)] show ?case by (simp add: serve_ok_def cancel_request_def)
next
  case (finish s rs i oc t s')
  note d = serve_okD [OF finish.IH]
  from finish.hyps(2) obtain xs b ys where f: "submitted s = xs @ b # ys" "submitted s' = xs @ ys"
    "lc_transfers s' = put_back b (lc_transfers s)" "lc_tokens s' = lc_tokens s" "completed_seq t = sb_seqnum b"
    by (rule finish_parts)
  with d put_back_run [of "lc_transfers s" xs b ys] show ?case by (auto simp: serve_ok_def)
next
  case (sent s rs sn chk tks)
  note d = serve_okD [OF sent.IH]
  obtain t' where t': "deregister_token chk sn (lc_tokens s) = Ret t'" "tokens_ok t'"
    "active_transfers t' = (active_transfers (lc_tokens s))(sn := None)" "cancelled t' = cancelled (lc_tokens s)"
    using deregister_ok [OF d(2)] by blast
  have "token_held tks b" if "b \<in> set (submitted s)" for b
    using d(5) [OF that] d(3) that sent.hyps(2,3) t' by (auto simp: token_held_def)
  with d t' sent.hyps(3) show ?case by (auto simp: serve_ok_def dest: notin_set_remove1)
qed

lemma serve_any_run: "serve_any V P iso_sz junk s rs \<Longrightarrow> submitted_run (lc_transfers s) (submitted s)"
proof (induction rule: serve_any.induct)
  case start
  show ?case by (simp add: submitted_run_def lend_recv_new_def pool_run.start)
next
  case (request s rs k sq s')
  from request_parts [OF request.hyps(2) request.IH] show ?case by blast
next
  case (cancel s rs sn)
  then show ?case by (simp add: cancel_request_def)
next
  case (finish s rs i oc t s')
  from finish.hyps(2) obtain xs b ys where "submitted s = xs @ b # ys" "submitted s' = xs @ ys"
    "lc_transfers s' = put_back b (lc_transfers s)" by (rule finish_parts)
  with finish.IH put_back_run [of "lc_transfers s" xs b ys] show ?case by (simp add: submitted_run_def)
qed simp_all

section \<open>Properties\<close>

text \<open>C10. Whatever requests, cancellations, completions and replies interleave, as long as the peer
  uses no sequence number again that is in use: a cancellation stops the transfer with that sequence
  number, if it is still under way, and no other.\<close>

theorem cancel_exact:
  assumes "serve V P iso_sz junk s rs" and "b \<in> set (submitted s)"
  shows "sb_token b \<in> cancelled (lc_tokens (cancel_request sn s)) \<longleftrightarrow>
    sb_token b \<in> cancelled (lc_tokens s) \<or> sb_seqnum b = sn"
proof -
  note d = serve_okD [OF serve_inv [OF assms(1)]]
  note tk = tokens_okD [OF d(2)]
  from d(5) [OF assms(2)] tk(1,4) [of _ "sb_token b"] show ?thesis
    by (auto simp: cancel_request_def lend_cancel_urb_def token_held_def split: option.splits)
qed

lemma distinct_mapI:
  assumes "\<And>xs x ys. l = xs @ x # ys \<Longrightarrow> f x \<notin> f ` set (xs @ ys)"
  shows "distinct (map f l)"
  using assms
proof (induction l)
  case (Cons a l)
  have "f x \<notin> f ` set (xs @ ys)" if "l = xs @ x # ys" for xs x ys
    using Cons.prems [of "a # xs" x ys] that by simp
  then have "distinct (map f l)" by (rule Cons.IH)
  then show ?case using Cons.prems [of "[]" a l] by simp
qed simp

text \<open>C11. The transfers that libusb works on at the same time are different ones, whatever sequence numbers the
  peer chooses, even the same one again. As long as it reuses no number that is in use, they also have
  different cancellation tokens, each registered under the number of its request or cancelled.\<close>

theorem submissions_apart:
  assumes "serve_any V P iso_sz junk s rs"
  shows "distinct (map (t_id \<circ> sb_transfer) (submitted s)) \<and>
    (serve V P iso_sz junk s rs \<longrightarrow> distinct (map sb_token (submitted s)) \<and>
      (\<forall>b \<in> set (submitted s). token_held (lc_tokens s) b))"
proof (intro conjI impI)
  show "distinct (map (t_id \<circ> sb_transfer) (submitted s))"
  proof (rule distinct_mapI)
    fix xs b ys
    assume s: "submitted s = xs @ b # ys"
    let ?I = "isos_out (xs @ ys)" and ?S = "smalls_out (xs @ ys)"
    have "pool_ok (lc_transfers s) (add_mset (sb_transfer b) ?I) ?S \<or>
        pool_ok (lc_transfers s) ?I (add_mset (sb_transfer b) ?S)"
      using pool_run_ok [OF serve_any_run [OF assms, unfolded submitted_run_def]] by (auto simp: s split: if_splits)
    then have "t_id (sb_transfer b) \<notin> t_id ` set_mset (?I + ?S)" by (rule pool_ok_exclusive)
    moreover have "set_mset (?I + ?S) = sb_transfer ` set (xs @ ys)"
      by (auto simp: isos_out_def smalls_out_def simp del: out_simps)
    ultimately show "(t_id \<circ> sb_transfer) b \<notin> (t_id \<circ> sb_transfer) ` set (xs @ ys)"
      by (simp only: image_comp [symmetric] comp_apply simp_thms)
  qed
  assume "serve V P iso_sz junk s rs"
  note d = serve_okD [OF serve_inv [OF this]]
  show "distinct (map sb_token (submitted s))" by (rule d)
  show "\<forall>b \<in> set (submitted s). token_held (lc_tokens s) b" using d(5) by blast
qed

text \<open>The reply of an isochronous IN transfer announces as many bytes as the buffer has capacity, and
  the buffer was reserved with the padded length: when the length the driver asked for is no
  multiple of eight, the reply is longer than the request.\<close>

theorem iso_reply_longer:
  assumes "dir_from_u8 (endpoint h) = Ret In" and "length raw = unat (iso_packet_count h) * iso_sz"
    and "length mem = padded_transfer_len h" and "unat (actual_transfer_len h) mod 8 \<noteq> 0"
  shows "\<exists>sq. iso_done P iso_sz sn h st mem pkts raw = Ret sq \<and>
    unat (actual_transfer_len h) < res_actual_transfer_len (x_res (sq_data sq))"
proof -
  have "up8 (unat (actual_transfer_len h)) \<noteq> unat (actual_transfer_len h)"
    using assms(4) up8_mod by metis
  then have "unat (actual_transfer_len h) < padded_transfer_len h"
    using up8_ge [of "unat (actual_transfer_len h)"] unfolding padded_transfer_len_eq by linarith
  with assms show ?thesis by (simp add: iso_done_def endpoint_dir_def)
qed

text \<open>A control request whose setup packet announces another length than the data that comes with it
  panics the lender: the assertion compares two values that the peer sent.\<close>

theorem ctrl_length_panics:
  assumes "is_out h" and "up8 (unat (setup_length V (ctrl_packet h)) + SETUP_SIZE) \<noteq> SETUP_SIZE + length body"
  shows "new_ctrl V junk \<lparr>sq_seqnum = sn, sq_data = \<lparr>d_addr = a, d_bytes = urb_header_as_bytes h @ body\<rparr>\<rparr> s = Panic"
  using assms by (simp add: new_ctrl_def new_ctrl_buf_def Let_def assert_that_def URB_HEADER_SIZE_def SETUP_SIZE_def
    drop_16_urb_header split: prod.split)

section \<open>The properties at work\<close>

text \<open>Two interrupt requests are under way, the first is cancelled.\<close>

definition int_in :: "u32 \<Rightarrow> data seq" where
  "int_in sn = \<lparr>sq_seqnum = sn, sq_data = \<lparr>d_addr = 0, d_bytes = urb_header_as_bytes
     (reply_header Interrupt 0x81 8 TS_Pending 0 0 (ResOut 4)) @ []\<rparr>\<rparr>"

definition int_submission :: "u32 \<Rightarrow> nat \<Rightarrow> submission" where
  "int_submission sn i = \<lparr>sb_seqnum = sn, sb_kind = Interrupt,
     sb_header = reply_header Interrupt 0x81 8 TS_Pending 0 0 (ResOut 4), sb_token = i,
     sb_transfer = Transfer (1 - i) 0, sb_buf = [0, 0, 0, 0], sb_raw_iso = []\<rparr>"

definition two_requests :: lend_recv where
  "two_requests = \<lparr>lc_tokens = \<lparr>active_transfers = [5 \<mapsto> 0, 6 \<mapsto> 1], cached_cancel_tokens = [], cancelled = {},
     next_token = 2\<rparr>, lc_transfers = start_transfers\<lparr>smalls := []\<rparr>,
     submitted = [int_submission 5 0, int_submission 6 1]\<rparr>"

lemma int_in_header: "urb_frame_header (sq_data (int_in sn)) = Ret (reply_header Interrupt 0x81 8 TS_Pending 0 0 (ResOut 4))"
  unfolding int_in_def seq.select_convs by (rule urb_frame_header_eq)

lemma int_in_buf: "new_data_buf (\<lambda>_. 0) (sq_data (int_in sn)) = Ret [0, 0, 0, 0]"
  by (simp add: int_in_header new_data_buf_def reply_header_def is_out_eq padded_transfer_len_eq scratch_reserve_def
    up8_def SCRATCH_LEN_def take_map upt_rec)

lemma int_in_seqnum [simp]: "sq_seqnum (int_in sn) = sn"
  by (simp add: int_in_def)

lemma two_requests_serve: "serve V P iso_sz (\<lambda>_. 0) two_requests []"
proof -
  let ?S = "serve V P iso_sz (\<lambda>_. 0)"
  let ?s1 = "submit Interrupt 5 (reply_header Interrupt 0x81 8 TS_Pending 0 0 (ResOut 4)) 0
     (no_tokens\<lparr>active_transfers := [5 \<mapsto> 0], next_token := 1\<rparr>) [0, 0, 0, 0] []
     (take_small start_transfers) lend_recv_new"
  have "?S ?s1 []"
    by (rule serve.request [OF serve.start, where sq = "int_in 5" and k = Interrupt])
      (simp_all add: lend_recv_handler_ops_def new_int_def int_in_buf int_in_header lend_recv_new_def
        register_cancel_token_def no_tokens_def)
  then have "?S (submit Interrupt 6 (reply_header Interrupt 0x81 8 TS_Pending 0 0 (ResOut 4)) 1
     (no_tokens\<lparr>active_transfers := [5 \<mapsto> 0, 6 \<mapsto> 1], next_token := 2\<rparr>) [0, 0, 0, 0] []
     (take_small (snd (take_small start_transfers))) ?s1) []"
    by (rule serve.request [where sq = "int_in 6" and k = Interrupt])
      (simp_all add: lend_recv_handler_ops_def new_int_def int_in_buf int_in_header lend_recv_new_def
        register_cancel_token_def no_tokens_def submit_def)
  then show ?thesis
    by (simp add: submit_def two_requests_def int_submission_def lend_recv_new_def no_tokens_def
      start_transfers_def take_small_def small_remove_def)
qed

text \<open>What a repeated number does: the peer sends 5, then 5 again while the first is under way, and 6 when
  the first is answered. The answer releases the token of the second transfer, which the request 6
  gets as well, so that cancelling 6 stops the transfer of 5.\<close>

definition repeated :: lend_recv where
  "repeated = \<lparr>lc_tokens = \<lparr>active_transfers = [6 \<mapsto> 1], cached_cancel_tokens = [], cancelled = {}, next_token = 2\<rparr>,
     lc_transfers = start_transfers\<lparr>smalls := []\<rparr>,
     submitted = [int_submission 5 1, (int_submission 6 1)\<lparr>sb_transfer := Transfer 1 0\<rparr>]\<rparr>"

lemma repeated_serve: "serve_any V P iso_sz (\<lambda>_. 0) repeated []"
proof -
  let ?S = "serve_any V P iso_sz (\<lambda>_. 0)"
  let ?tk = "\<lambda>a c n. \<lparr>active_transfers = a, cached_cancel_tokens = c, cancelled = {}, next_token = n\<rparr>"
  let ?st = "\<lambda>a c n p bs. \<lparr>lc_tokens = ?tk a c n, lc_transfers = start_transfers\<lparr>smalls := p\<rparr>, submitted = bs\<rparr>"
  let ?b = "(int_submission 5 1)"
  have req: "lr_new (lend_recv_handler_ops V iso_sz (\<lambda>_. 0)) Interrupt (int_in sn) s =
      (case register_cancel_token sn (lc_tokens s) of (c, tks) \<Rightarrow>
        Ret (submit Interrupt sn (reply_header Interrupt 0x81 8 TS_Pending 0 0 (ResOut 4)) c tks [0, 0, 0, 0] []
          (take_small (lc_transfers s)) s))" for sn s
    by (simp add: lend_recv_handler_ops_def new_int_def int_in_buf int_in_header split: prod.split)
  note step = serve_any.request [where k = Interrupt and V = V and P = P and iso_sz = iso_sz and junk = "\<lambda>_. 0"]
  note evals = req register_cancel_token_def submit_def int_submission_def take_small_def small_remove_def
    lend_recv_new_def no_tokens_def start_transfers_def
  have "?S (?st [5 \<mapsto> 0] [] 1 [Transfer 0 0] [int_submission 5 0]) []"
    by (rule step [OF serve_any.start, where sq = "int_in 5"]) (simp add: evals)
  then have s2: "?S (?st [5 \<mapsto> 1] [] 2 [] [int_submission 5 0, ?b]) []"
    by (rule step [where sq = "int_in 5"]) (simp add: evals)
  obtain t where t: "completed V P iso_sz (int_submission 5 0)
      \<lparr>oc_status = LS_Completed, oc_buf = [], oc_mem = [], oc_pkts = []\<rparr> = Ret t" "completed_seq t = 5"
    by (simp add: completed_def int_submission_def int_done_def endpoint_dir_def dir_from_u8_eq reply_header_def)
  have "finish V P iso_sz 0 \<lparr>oc_status = LS_Completed, oc_buf = [], oc_mem = [], oc_pkts = []\<rparr>
      (?st [5 \<mapsto> 1] [] 2 [] [int_submission 5 0, ?b]) = Ret (t, ?st [5 \<mapsto> 1] [] 2 [Transfer 1 0] [?b])"
    using t(1) by (simp add: finish_def put_back_def put_small_def small_insert_def int_submission_def start_transfers_def)
  from serve_any.finish [OF s2 this] t(2) have s3: "?S (?st [5 \<mapsto> 1] [] 2 [Transfer 1 0] [?b]) [5]" by simp
  have "deregister_token True 5 (?tk [5 \<mapsto> 1] [] 2) = Ret (?tk Map.empty [1] 2)" by (simp add: deregister_token_def)
  with serve_any.sent [OF s3, of 5 True "?tk Map.empty [1] 2"] have "?S (?st Map.empty [1] 2 [Transfer 1 0] [?b]) []" by simp
  from step [OF this, where sq = "int_in 6" and s' = repeated] show ?thesis by (simp add: evals repeated_def)
qed

theorem repeated_number_shares_token:
  "\<exists>s b b'. serve_any V P iso_sz (\<lambda>_. 0) s [] \<and> b \<in> set (submitted s) \<and> b' \<in> set (submitted s) \<and>
    sb_seqnum b \<noteq> sb_seqnum b' \<and> sb_token b \<notin> cancelled (lc_tokens s) \<and>
    sb_token b \<in> cancelled (lc_tokens (cancel_request (sb_seqnum b') s))"
proof (intro exI conjI)
  show "serve_any V P iso_sz (\<lambda>_. 0) repeated []" by (rule repeated_serve)
  show "int_submission 5 1 \<in> set (submitted repeated)"
    "(int_submission 6 1)\<lparr>sb_transfer := Transfer 1 0\<rparr> \<in> set (submitted repeated)" by (simp_all add: repeated_def)
qed (simp_all add: repeated_def int_submission_def cancel_request_def lend_cancel_urb_def)

theorem cancel_exact_witness:
  "sb_token (int_submission 5 0) \<in> cancelled (lc_tokens (cancel_request 5 two_requests)) \<and>
   sb_token (int_submission 6 1) \<notin> cancelled (lc_tokens (cancel_request 5 two_requests))"
  using cancel_exact [OF two_requests_serve [of undefined undefined 8], of "int_submission 5 0" 5]
    cancel_exact [OF two_requests_serve [of undefined undefined 8], of "int_submission 6 1" 5]
  by (simp add: two_requests_def int_submission_def)

theorem submissions_apart_witness:
  "distinct (map (t_id \<circ> sb_transfer) (submitted two_requests)) \<and> distinct (map sb_token (submitted two_requests)) \<and>
   length (submitted two_requests) = 2"
  using submissions_apart [OF serve_serve_any [OF two_requests_serve [of undefined undefined 8]]]
    two_requests_serve [of undefined undefined 8] by (simp add: two_requests_def)

theorem iso_reply_longer_witness:
  "\<exists>sq. iso_done P 8 3 (reply_header Isochronous 0x81 1 TS_Pending 0 0 (ResOut 4)) LS_Completed
     (replicate 8 0) [] [] = Ret sq \<and> 4 < res_actual_transfer_len (x_res (sq_data sq))"
  using iso_reply_longer [of "reply_header Isochronous 0x81 1 TS_Pending 0 0 (ResOut 4)" "[]" 8 "replicate 8 0" P 3 LS_Completed "[]"]
  by (simp add: reply_header_def dir_from_u8_eq padded_transfer_len_eq up8_def)

text \<open>A setup packet whose length field says 16.\<close>

definition stub_setup :: vhci_ops where
  "stub_setup = \<lparr>setup_req = (\<lambda>_. OtherRequest), setup_value = (\<lambda>_. 0), setup_index = (\<lambda>_. 0),
     setup_length = (\<lambda>_. 16), is_for_unassigned = (\<lambda>_. False), is_anycast = (\<lambda>_. False), address_new = Some\<rparr>"

theorem ctrl_length_panics_witness:
  "new_ctrl stub_setup (\<lambda>_. 0) \<lparr>sq_seqnum = 1, sq_data = \<lparr>d_addr = 0, d_bytes = urb_header_as_bytes
     (reply_header Control 0 0 TS_Pending 0 0 (ResOut 0)) @ []\<rparr>\<rparr> lend_recv_new = Panic"
  by (rule ctrl_length_panics) (simp_all add: reply_header_def is_out_eq stub_setup_def SETUP_SIZE_def up8_def)

end
