(* ===== verification/Stats.thy ===== *)
theory Stats
  imports Ordered_Map Lend_Requests
begin

text \<open>
  The statistics of a lender: the containers of \<^verbatim>\<open>crates/qusb/src/utils/metrics.rs\<close> and the
  wrappers \<^verbatim>\<open>StatLendRecvHandler\<close> and \<^verbatim>\<open>StatLendSendHandler\<close> of \<^verbatim>\<open>crates/qusb/src/operator.rs\<close>
  that sit between the loops and the handlers. A duration is its number of nanoseconds.
\<close>

section \<open>Containers\<close>

type_synonym duration = nat

definition DURATION_END :: nat where "DURATION_END = 2 ^ 64 * 10 ^ 9"

type_synonym 'v max_map = "(duration reversed \<times> 'v) list"

definition max_push :: "nat \<Rightarrow> duration \<Rightarrow> 'v \<Rightarrow> 'v max_map \<Rightarrow> 'v max_map" where
  "max_push n item dat m = bt_push n (Reverse item) dat m"

type_synonym min_set = "(duration \<times> unit) list"

definition min_push :: "nat \<Rightarrow> duration \<Rightarrow> min_set \<Rightarrow> min_set" where
  "min_push n item m = bt_push n item () m"

definition rolling_push :: "nat \<Rightarrow> 'a \<Rightarrow> 'a list \<Rightarrow> 'a list" where
  "rolling_push n item q = (if n \<le> length q then tl q else q) @ [item]"

fun duration_sum :: "duration list \<Rightarrow> duration run" where
  "duration_sum [] = Ret 0"
| "duration_sum (d # ds) = rbind (duration_sum ds) (\<lambda>s. if d + s < DURATION_END then Ret (d + s) else Panic)"

definition duration_div :: "duration \<Rightarrow> nat \<Rightarrow> duration run" where
  "duration_div d n = (if n < 2 ^ 32 \<and> n \<noteq> 0 then Ret (d div n) else Panic)"

definition rolling_mean :: "duration list \<Rightarrow> duration option run" where
  "rolling_mean q =
     (if q = [] then Ret None
      else rbind (duration_sum q) (\<lambda>s. rbind (duration_div s (length q)) (\<lambda>d. Ret (Some d))))"

section \<open>Counting requests\<close>

definition THRESHOLD :: nat where "THRESHOLD = 64"

record lend_recv_stats =
  last_few_setup_times :: "duration list"
  max_setup_times :: "urb_type max_map"
  min_setup_times :: min_set
  max_active_transfers :: u32

definition lend_recv_stats_new :: lend_recv_stats where
  "lend_recv_stats_new = \<lparr>last_few_setup_times = [], max_setup_times = [], min_setup_times = [],
     max_active_transfers = 0\<rparr>"

text \<open>
  The number of active transfers is an atomic that both handlers share: \<^verbatim>\<open>fetch_add\<close> and
  \<^verbatim>\<open>fetch_sub\<close> wrap around, the addition to the value it returned is checked.
\<close>

definition mark_start :: "bool \<Rightarrow> u32 \<Rightarrow> lend_recv_stats \<Rightarrow> (u32 \<times> lend_recv_stats) run" where
  "mark_start chk num_active st =
     (if chk \<and> num_active = -1 then Panic
      else Ret (num_active + 1,
        st\<lparr>max_active_transfers := max (max_active_transfers st) (num_active + 1)\<rparr>))"

definition mark_end :: "duration \<Rightarrow> urb_type \<Rightarrow> lend_recv_stats \<Rightarrow> lend_recv_stats" where
  "mark_end elapsed typ st =
     st\<lparr>last_few_setup_times := rolling_push THRESHOLD elapsed (last_few_setup_times st),
       max_setup_times := max_push THRESHOLD elapsed typ (max_setup_times st),
       min_setup_times := min_push THRESHOLD elapsed (min_setup_times st)\<rparr>"

record lend_send_stats =
  num_transfers_completed :: u32
  max_completed_transfers_before_flush :: u32
  num_iso_transfers :: u64

definition lend_send_stats_new :: lend_send_stats where
  "lend_send_stats_new = \<lparr>num_transfers_completed = 0, max_completed_transfers_before_flush = 0,
     num_iso_transfers = 0\<rparr>"

definition mark_flush :: "lend_send_stats \<Rightarrow> lend_send_stats" where
  "mark_flush st =
     st\<lparr>max_completed_transfers_before_flush :=
         max (max_completed_transfers_before_flush st) (num_transfers_completed st),
       num_transfers_completed := 0\<rparr>"

definition mark_complete :: "bool \<Rightarrow> u32 \<Rightarrow> lend_send_stats \<Rightarrow> (u32 \<times> lend_send_stats) run" where
  "mark_complete chk num_active st =
     (if chk \<and> num_transfers_completed st = -1 then Panic
      else Ret (num_active - 1, st\<lparr>num_transfers_completed := num_transfers_completed st + 1\<rparr>))"

definition mark_iso :: "bool \<Rightarrow> lend_send_stats \<Rightarrow> lend_send_stats run" where
  "mark_iso chk st =
     (if chk \<and> num_iso_transfers st = -1 then Panic
      else Ret (st\<lparr>num_iso_transfers := num_iso_transfers st + 1\<rparr>))"

section \<open>The wrapped receive handler\<close>

text \<open>
  The state is the counter, the statistics and the inner handler. \<open>elapsed\<close> is what the clock
  measures for a request.
\<close>

record 'h stat_recv =
  sr_active :: u32
  sr_stats :: lend_recv_stats
  sr_inner :: 'h

definition stat_request :: "bool \<Rightarrow> duration \<Rightarrow> urb_type \<Rightarrow> ('h \<Rightarrow> 'h run) \<Rightarrow> 'h stat_recv \<Rightarrow> 'h stat_recv run" where
  "stat_request chk elapsed typ inner s =
     rbind (mark_start chk (sr_active s) (sr_stats s)) (\<lambda>(n, st).
     rbind (inner (sr_inner s)) (\<lambda>h.
       Ret \<lparr>sr_active = n, sr_stats = mark_end elapsed typ st, sr_inner = h\<rparr>))"

definition stat_recv_ops :: "bool \<Rightarrow> (data seq \<Rightarrow> duration) \<Rightarrow> (ctrl_req seq \<Rightarrow> duration) \<Rightarrow>
    'h lend_recv_handler \<Rightarrow> 'h stat_recv lend_recv_handler" where
  "stat_recv_ops chk elapsed elapsed_ctrl H =
     \<lparr>lr_cancel_urb = (\<lambda>sn s. s\<lparr>sr_inner := lr_cancel_urb H sn (sr_inner s)\<rparr>),
      lr_device_reset = (\<lambda>sn s. rbind (lr_device_reset H sn (sr_inner s)) (\<lambda>h. Ret (s\<lparr>sr_inner := h\<rparr>))),
      lr_blocking = (\<lambda>req. stat_request chk (elapsed_ctrl req) UrbCtrl (lr_blocking H req)),
      lr_new = (\<lambda>k sq. stat_request chk (elapsed sq)
        (case k of Control \<Rightarrow> UrbCtrl | Interrupt \<Rightarrow> UrbInt | Isochronous \<Rightarrow> UrbIso | Bulk \<Rightarrow> UrbBulk)
        (lr_new H k sq))\<rparr>"

section \<open>The wrapped send handler\<close>

record 'h stat_send =
  ss_active :: u32
  ss_stats :: lend_send_stats
  ss_inner :: 'h

type_synonym 'h reply_op = "'h \<Rightarrow> ((usb_error + unit) \<times> 'h) run"

definition stat_reply :: "bool \<Rightarrow> bool \<Rightarrow> 'h reply_op \<Rightarrow> 'h stat_send reply_op" where
  "stat_reply chk is_iso inner s =
     rbind (mark_complete chk (ss_active s) (ss_stats s)) (\<lambda>(n, st).
     rbind (if is_iso then mark_iso chk st else Ret st) (\<lambda>st'.
     rbind (inner (ss_inner s)) (\<lambda>(r, h).
       Ret (r, \<lparr>ss_active = n, ss_stats = st', ss_inner = h\<rparr>))))"

definition stat_send_ops :: "bool \<Rightarrow> 'h lend_send_handler \<Rightarrow> 'h stat_send lend_send_handler" where
  "stat_send_ops chk H =
     \<lparr>lh_is_buf_empty = (\<lambda>s. lh_is_buf_empty H (ss_inner s)),
      lh_flush_buf = (\<lambda>s. case lh_flush_buf H (ss_inner s) of (bs, h) \<Rightarrow>
        (bs, s\<lparr>ss_stats := mark_flush (ss_stats s), ss_inner := h\<rparr>)),
      lh_iso_completed = (\<lambda>t. stat_reply chk True (lh_iso_completed H t)),
      lh_int_completed = (\<lambda>t. stat_reply chk False (lh_int_completed H t)),
      lh_ctrl_completed = (\<lambda>t. stat_reply chk False (lh_ctrl_completed H t)),
      lh_bulk_completed = (\<lambda>t. stat_reply chk False (lh_bulk_completed H t)),
      lh_device_resetted = (\<lambda>t s. rbind (lh_device_resetted H t (ss_inner s)) (\<lambda>(r, h).
        Ret (r, s\<lparr>ss_inner := h\<rparr>)))\<rparr>"

section \<open>Facts: containers\<close>

lemma bt_push_run:
  fixes items :: "('k :: linorder \<times> 'v) list"
  shows "bt_ok (fold (\<lambda>(k, v). bt_push n k v) items []) \<and>
    map fst (fold (\<lambda>(k, v). bt_push n k v) items []) = take n (sorted_list_of_set (fst ` set items))"
proof (induction items rule: rev_induct)
  case (snoc x items)
  obtain k v where x: "x = (k, v)" by (cases x)
  from snoc bt_push_keys [of "fst ` set items" "fold (\<lambda>(k, v). bt_push n k v) items []" n k v] show ?case
    by (simp add: x bt_ok_push)
qed simp

lemma sorted_list_reversed:
  "finite A \<Longrightarrow> map unreverse (sorted_list_of_set (Reverse ` A)) = rev (sorted_list_of_set A)"
proof -
  assume A: "finite A"
  let ?xs = "map Reverse (rev (sorted_list_of_set A))"
  have "sorted_wrt (\<ge>) (rev (sorted_list_of_set A))"
    using sorted_sorted_list_of_set [of A] by (simp add: sorted_wrt_rev)
  then have "sorted ?xs" by (simp add: sorted_wrt_map)
  moreover have "distinct ?xs" by (simp add: distinct_map inj_on_def)
  moreover have "set ?xs = Reverse ` A" using A by simp
  ultimately have "sorted_list_of_set (Reverse ` A) = ?xs"
    by (metis sorted_list_of_set.idem_if_sorted_distinct)
  then show ?thesis by (simp add: comp_def)
qed

lemma rolling_run: "0 < n \<Longrightarrow> fold (rolling_push n) xs [] = drop (length xs - n) xs"
proof (induction xs rule: rev_induct)
  case (snoc x xs)
  then show ?case
  proof (cases "n \<le> length xs")
    case True
    then have "Suc (length xs) - n = Suc (length xs - n)" by simp
    with snoc True show ?thesis by (simp add: rolling_push_def tl_drop drop_Suc)
  qed (simp add: rolling_push_def)
qed simp

lemma duration_sum_eq: "duration_sum ds = (if sum_list ds < DURATION_END then Ret (sum_list ds) else Panic)"
  by (induction ds) (auto simp: DURATION_END_def)

section \<open>Facts: counters\<close>

text \<open>
  The two wrappers as the session uses them, around handlers that do nothing by themselves: requests,
  results, cancellations, resets and flushes in any order. The counter of active transfers is shared.
\<close>

definition quiet_recv :: "unit lend_recv_handler" where
  "quiet_recv = \<lparr>lr_cancel_urb = (\<lambda>_ h. h), lr_device_reset = (\<lambda>_. Ret), lr_blocking = (\<lambda>_. Ret), lr_new = (\<lambda>_ _. Ret)\<rparr>"

definition quiet_send :: "unit lend_send_handler" where
  "quiet_send = \<lparr>lh_is_buf_empty = (\<lambda>_. True), lh_flush_buf = (\<lambda>h. ([], h)),
     lh_iso_completed = (\<lambda>_ h. Ret (Inr (), h)), lh_int_completed = (\<lambda>_ h. Ret (Inr (), h)),
     lh_ctrl_completed = (\<lambda>_ h. Ret (Inr (), h)), lh_bulk_completed = (\<lambda>_ h. Ret (Inr (), h)),
     lh_device_resetted = (\<lambda>_ h. Ret (Inr (), h))\<rparr>"

type_synonym stat_sys = "unit stat_recv \<times> unit stat_send"

datatype stat_event =
    SRequest transfer_kind "data seq"
  | SBlocking "ctrl_req seq"
  | SResetRequest u32
  | SCancel u32
  | SReply completed_transfer
  | SFlush

definition recv_side :: "unit stat_recv run \<Rightarrow> unit stat_send \<Rightarrow> stat_sys run" where
  "recv_side m s = rbind m (\<lambda>r. Ret (r, s\<lparr>ss_active := sr_active r\<rparr>))"

fun stat_step :: "bool \<Rightarrow> (data seq \<Rightarrow> duration) \<Rightarrow> (ctrl_req seq \<Rightarrow> duration) \<Rightarrow> stat_event \<Rightarrow> stat_sys \<Rightarrow> stat_sys run" where
  "stat_step chk el elc (SRequest k sq) (r, s) = recv_side (lr_new (stat_recv_ops chk el elc quiet_recv) k sq r) s"
| "stat_step chk el elc (SBlocking req) (r, s) = recv_side (lr_blocking (stat_recv_ops chk el elc quiet_recv) req r) s"
| "stat_step chk el elc (SResetRequest sn) (r, s) = recv_side (lr_device_reset (stat_recv_ops chk el elc quiet_recv) sn r) s"
| "stat_step chk el elc (SCancel sn) (r, s) = recv_side (Ret (lr_cancel_urb (stat_recv_ops chk el elc quiet_recv) sn r)) s"
| "stat_step chk el elc (SReply t) (r, s) =
     rbind (handle_event (stat_send_ops chk quiet_send) t s) (\<lambda>(_, s'). Ret (r\<lparr>sr_active := ss_active s'\<rparr>, s'))"
| "stat_step chk el elc SFlush (r, s) = Ret (r, snd (lh_flush_buf (stat_send_ops chk quiet_send) s))"

fun stat_run :: "bool \<Rightarrow> (data seq \<Rightarrow> duration) \<Rightarrow> (ctrl_req seq \<Rightarrow> duration) \<Rightarrow> stat_event list \<Rightarrow> stat_sys \<Rightarrow> stat_sys run" where
  "stat_run chk el elc [] x = Ret x"
| "stat_run chk el elc (e # es) x = rbind (stat_step chk el elc e x) (stat_run chk el elc es)"

definition stat_start :: stat_sys where
  "stat_start = (\<lparr>sr_active = 0, sr_stats = lend_recv_stats_new, sr_inner = ()\<rparr>,
     \<lparr>ss_active = 0, ss_stats = lend_send_stats_new, ss_inner = ()\<rparr>)"

lemma stat_run_snoc: "stat_run chk el elc (es @ [e]) x = rbind (stat_run chk el elc es x) (stat_step chk el elc e)"
proof (induction es arbitrary: x)
  case Nil
  have "stat_run chk el elc [] = Ret" by (rule ext) simp
  then show ?case by simp
next
  case (Cons a es)
  then show ?case by (cases "stat_step chk el elc a x") simp_all
qed

text \<open>What there is to count. A reset of the port is not counted.\<close>

fun is_start :: "stat_event \<Rightarrow> bool" where
  "is_start (SRequest _ _) = True"
| "is_start (SBlocking _) = True"
| "is_start _ = False"

fun is_complete :: "stat_event \<Rightarrow> bool" where
  "is_complete (SReply t) = (case t of CReset _ \<Rightarrow> False | _ \<Rightarrow> True)"
| "is_complete _ = False"

fun is_iso_complete :: "stat_event \<Rightarrow> bool" where
  "is_iso_complete (SReply (CIso _)) = True"
| "is_iso_complete _ = False"

definition starts :: "stat_event list \<Rightarrow> nat" where "starts es = length (filter is_start es)"
definition completes :: "stat_event list \<Rightarrow> nat" where "completes es = length (filter is_complete es)"
definition iso_completes :: "stat_event list \<Rightarrow> nat" where "iso_completes es = length (filter is_iso_complete es)"
definition in_flight :: "stat_event list \<Rightarrow> nat" where "in_flight es = starts es - completes es"

text \<open>The results since the last flush.\<close>

definition since_flush :: "stat_event list \<Rightarrow> nat" where
  "since_flush es = completes (takeWhile (\<lambda>e. e \<noteq> SFlush) (rev es))"

text \<open>The greatest number of requests in flight at any time, and of results between two flushes.\<close>

definition peak :: "stat_event list \<Rightarrow> nat" where
  "peak es = Max ((\<lambda>k. in_flight (take k es)) ` {0 .. length es})"

definition flush_peak :: "stat_event list \<Rightarrow> nat" where
  "flush_peak es = Max (insert 0 ((\<lambda>k. since_flush (take k es)) ` {k. k < length es \<and> es ! k = SFlush}))"

lemma peak_snoc: "peak (es @ [e]) = max (peak es) (in_flight (es @ [e]))"
proof -
  have "(\<lambda>k. in_flight (take k (es @ [e]))) ` {0 .. length (es @ [e])} =
    insert (in_flight (es @ [e])) ((\<lambda>k. in_flight (take k es)) ` {0 .. length es})"
    by (auto simp: atLeast0_atMost_Suc image_def)
  then show ?thesis by (simp add: peak_def max.commute)
qed

lemma flush_peak_snoc: "flush_peak (es @ [e]) = (if e = SFlush then max (flush_peak es) (since_flush es) else flush_peak es)"
proof -
  let ?f = "\<lambda>es. (\<lambda>k. since_flush (take k es)) ` {k. k < length es \<and> es ! k = SFlush}"
  have fin: "finite (?f es)" by simp
  have "{k. k < length (es @ [e]) \<and> (es @ [e]) ! k = SFlush} =
      {k. k < length es \<and> es ! k = SFlush} \<union> (if e = SFlush then {length es} else {})"
    by (auto simp: nth_append less_Suc_eq)
  moreover have "(\<lambda>k. since_flush (take k (es @ [e]))) ` {k. k < length es \<and> es ! k = SFlush} = ?f es"
    by (rule image_cong) auto
  ultimately have "?f (es @ [e]) = ?f es \<union> (if e = SFlush then {since_flush es} else {})"
    by (simp only: image_Un) simp
  then have "insert 0 (?f (es @ [e])) = (if e = SFlush then insert (since_flush es) (insert 0 (?f es)) else insert 0 (?f es))"
    by (simp only:) auto
  then show ?thesis using fin unfolding flush_peak_def by (simp add: max.commute)
qed

lemma count_snoc:
  "starts (es @ [e]) = starts es + of_bool (is_start e)"
  "completes (es @ [e]) = completes es + of_bool (is_complete e)"
  "iso_completes (es @ [e]) = iso_completes es + of_bool (is_iso_complete e)"
  "since_flush (es @ [e]) = (if e = SFlush then 0 else since_flush es + of_bool (is_complete e))"
  by (simp_all add: starts_def completes_def iso_completes_def since_flush_def)

lemma count_Nil [simp]: "in_flight [] = 0" "since_flush [] = 0" "iso_completes [] = 0" "peak [] = 0" "flush_peak [] = 0"
  by (simp_all add: in_flight_def starts_def completes_def since_flush_def iso_completes_def peak_def flush_peak_def)

text \<open>The counters of 32 and 64 bits can hold the numbers, at every moment.\<close>

definition fits_now :: "stat_event list \<Rightarrow> bool" where
  "fits_now es \<longleftrightarrow> in_flight es < 2 ^ 32 \<and> since_flush es < 2 ^ 32 \<and> iso_completes es < 2 ^ 64"

definition counters_fit :: "stat_event list \<Rightarrow> bool" where
  "counters_fit es \<longleftrightarrow> (\<forall>k \<le> length es. fits_now (take k es))"

lemma counters_fit_short:
  assumes "length es < 2 ^ 32"
  shows "counters_fit es"
proof -
  have c: "completes xs \<le> length xs" "starts xs \<le> length xs" "iso_completes xs \<le> length xs" for xs
    by (simp_all add: completes_def starts_def iso_completes_def)
  have d: "since_flush xs \<le> length xs" for xs
    unfolding since_flush_def by (rule order_trans [OF c(1)]) (use length_takeWhile_le [of _ "rev xs"] in simp)
  have "fits_now (take k es)" for k
  proof -
    have "length (take k es) < 2 ^ 32" using assms by simp
    moreover from this have "length (take k es) < 2 ^ 64" by simp
    ultimately show ?thesis
      using c [of "take k es"] d [of "take k es"]
      unfolding fits_now_def in_flight_def by (intro conjI) linarith+
  qed
  then show ?thesis by (simp add: counters_fit_def)
qed

lemma up_to_snoc: "(\<forall>k \<le> length (es @ [e]). Q (take k (es @ [e]))) \<longleftrightarrow> (\<forall>k \<le> length es. Q (take k es)) \<and> Q (es @ [e])"
  by (auto simp: le_Suc_eq)

lemma counters_fit_peaks:
  assumes "counters_fit es"
  shows "peak es < 2 ^ 32" and "flush_peak es < 2 ^ 32"
proof -
  have f: "fits_now (take k es)" if "k \<le> length es" for k using assms that by (simp add: counters_fit_def)
  show "peak es < 2 ^ 32" unfolding peak_def
    by (subst Max_less_iff) (use f in \<open>auto simp: fits_now_def\<close>)
  show "flush_peak es < 2 ^ 32" unfolding flush_peak_def
    by (subst Max_less_iff) (use f in \<open>auto simp: fits_now_def\<close>)
qed

text \<open>The counters hold the numbers modulo their width; as long as the numbers fit, so do the maxima.\<close>

definition counted :: "stat_event list \<Rightarrow> stat_sys \<Rightarrow> bool" where
  "counted es x \<longleftrightarrow>
     (case x of (r, s) \<Rightarrow>
        sr_active r = of_nat (in_flight es) \<and> ss_active s = sr_active r \<and>
        num_transfers_completed (ss_stats s) = of_nat (since_flush es) \<and>
        num_iso_transfers (ss_stats s) = of_nat (iso_completes es) \<and>
        (counters_fit es \<longrightarrow> max_active_transfers (sr_stats r) = of_nat (peak es) \<and>
          max_completed_transfers_before_flush (ss_stats s) = of_nat (flush_peak es)))"

lemma unat_fits: "n < 2 ^ LENGTH('a) \<Longrightarrow> unat (of_nat n :: 'a :: len word) = n"
  by (simp add: unat_of_nat take_bit_nat_eq_self)

lemma max_of_nat: "a < 2 ^ 32 \<Longrightarrow> b < 2 ^ 32 \<Longrightarrow> max (of_nat a :: u32) (of_nat b) = of_nat (max a b)"
  by (simp add: max_def word_le_nat_alt unat_fits)

lemma of_nat_last: "m < 2 ^ LENGTH('a) \<Longrightarrow> of_nat m = (-1 :: 'a :: len word) \<longleftrightarrow> m + 1 = 2 ^ LENGTH('a)"
proof -
  assume m: "m < 2 ^ LENGTH('a)"
  have "of_nat m = (-1 :: 'a word) \<longleftrightarrow> unat (of_nat m :: 'a word) = unat (-1 :: 'a word)" by (rule word_unat_eq_iff)
  also have "\<dots> \<longleftrightarrow> m = 2 ^ LENGTH('a) - 1"
    using m by (simp add: unat_fits unsigned_minus_1_eq_mask mask_eq_exp_minus_1)
  also have "\<dots> \<longleftrightarrow> m + 1 = 2 ^ LENGTH('a)" by auto
  finally show ?thesis .
qed

text \<open>One event: it panics in a build that checks, when a number does not fit any more.\<close>

definition start_sys :: "duration \<Rightarrow> urb_type \<Rightarrow> stat_sys \<Rightarrow> stat_sys" where
  "start_sys el ty x = (case x of (r, s) \<Rightarrow>
     (r\<lparr>sr_active := sr_active r + 1, sr_stats := mark_end el ty ((sr_stats r)\<lparr>max_active_transfers :=
        max (max_active_transfers (sr_stats r)) (sr_active r + 1)\<rparr>)\<rparr>, s\<lparr>ss_active := sr_active r + 1\<rparr>))"

fun event_cost :: "(data seq \<Rightarrow> duration) \<Rightarrow> (ctrl_req seq \<Rightarrow> duration) \<Rightarrow> stat_event \<Rightarrow> duration \<times> urb_type" where
  "event_cost el elc (SRequest k sq) =
     (el sq, case k of Control \<Rightarrow> UrbCtrl | Interrupt \<Rightarrow> UrbInt | Isochronous \<Rightarrow> UrbIso | Bulk \<Rightarrow> UrbBulk)"
| "event_cost el elc (SBlocking req) = (elc req, UrbCtrl)"
| "event_cost _ _ _ = (0, UrbCtrl)"

lemma start_step:
  assumes "is_start e"
  shows "stat_step chk el elc e (r, s) =
    (if chk \<and> sr_active r = -1 then Panic
     else Ret (start_sys (fst (event_cost el elc e)) (snd (event_cost el elc e)) (r, s)))"
  using assms
  by (cases e) (simp_all add: stat_recv_ops_def stat_request_def mark_start_def quiet_recv_def recv_side_def start_sys_def)

definition complete_sys :: "bool \<Rightarrow> stat_sys \<Rightarrow> stat_sys" where
  "complete_sys is_iso x = (case x of (r, s) \<Rightarrow>
     (r\<lparr>sr_active := ss_active s - 1\<rparr>, s\<lparr>ss_active := ss_active s - 1,
        ss_stats := (ss_stats s)\<lparr>num_transfers_completed := num_transfers_completed (ss_stats s) + 1,
          num_iso_transfers := num_iso_transfers (ss_stats s) + of_bool is_iso\<rparr>\<rparr>))"

lemma complete_step:
  assumes "is_complete e"
  shows "stat_step chk el elc e (r, s) =
    (if chk \<and> (num_transfers_completed (ss_stats s) = -1 \<or> is_iso_complete e \<and> num_iso_transfers (ss_stats s) = -1)
     then Panic else Ret (complete_sys (is_iso_complete e) (r, s)))"
proof -
  obtain t where e: "e = SReply t" using assms by (cases e) auto
  show ?thesis
    using assms
    by (cases t) (auto simp: e stat_send_ops_def stat_reply_def mark_complete_def mark_iso_def quiet_send_def complete_sys_def)
qed

lemma uncounted_step:
  assumes "\<not> is_start e" and "\<not> is_complete e" and "ss_active s = sr_active r"
  shows "stat_step chk el elc e (r, s) = Ret (r, if e = SFlush then s\<lparr>ss_stats := mark_flush (ss_stats s)\<rparr> else s)"
  using assms
  by (cases e) (auto simp: stat_recv_ops_def stat_send_ops_def quiet_recv_def quiet_send_def recv_side_def
    split: completed_transfer.splits)

definition balanced :: "stat_event list \<Rightarrow> bool" where
  "balanced es \<longleftrightarrow> (\<forall>k \<le> length es. completes (take k es) \<le> starts (take k es))"

lemma counters_fit_snoc: "counters_fit (es @ [e]) \<longleftrightarrow> counters_fit es \<and> fits_now (es @ [e])"
  unfolding counters_fit_def by (rule up_to_snoc)

lemma balanced_snoc: "balanced (es @ [e]) \<longleftrightarrow> balanced es \<and> completes (es @ [e]) \<le> starts (es @ [e])"
  unfolding balanced_def by (rule up_to_snoc)

lemma balanced_le: "balanced es \<Longrightarrow> completes es \<le> starts es"
  unfolding balanced_def by (drule spec [of _ "length es"]) simp

lemma fits_last: "counters_fit es \<Longrightarrow> fits_now es"
  unfolding counters_fit_def by (drule spec [of _ "length es"]) simp

lemma in_flight_snoc:
  assumes "balanced (es @ [e])"
  shows "in_flight (es @ [e]) = in_flight es + of_bool (is_start e) - of_bool (is_complete e)"
    and "is_complete e \<Longrightarrow> 0 < in_flight es"
  using assms balanced_le [of es] by (cases e; auto simp: balanced_snoc in_flight_def count_snoc)+

lemma peak_ge: "in_flight es \<le> peak es"
  unfolding peak_def by (rule Max_ge) (auto intro: image_eqI [of _ _ "length es"])

lemma start_counted:
  assumes "counted es (r, s)" and "balanced (es @ [e])" and "is_start e"
  shows "counted (es @ [e]) (start_sys d ty (r, s))"
    and "counters_fit es \<Longrightarrow> sr_active r = -1 \<longleftrightarrow> \<not> counters_fit (es @ [e])"
proof -
  have e: "\<not> is_complete e" "\<not> is_iso_complete e" "e \<noteq> SFlush" using assms(3) by (cases e; simp)+
  note n = in_flight_snoc(1) [OF assms(2)] count_snoc(3,4) [of es e] peak_snoc [of es e] flush_peak_snoc [of es e]
  show "counted (es @ [e]) (start_sys d ty (r, s))"
    using assms(1,3) e counters_fit_peaks [of "es @ [e]"]
    by (auto simp: counted_def start_sys_def mark_end_def n counters_fit_snoc fits_now_def max_of_nat [symmetric] add.commute)
  assume f: "counters_fit es"
  from fits_last [OF f] assms(1,3) e show "sr_active r = -1 \<longleftrightarrow> \<not> counters_fit (es @ [e])"
    by (auto simp: counters_fit_snoc f fits_now_def n counted_def of_nat_last)
qed

lemma complete_counted:
  assumes "counted es (r, s)" and "balanced (es @ [e])" and "is_complete e"
  shows "counted (es @ [e]) (complete_sys (is_iso_complete e) (r, s))"
    and "counters_fit es \<Longrightarrow> num_transfers_completed (ss_stats s) = -1 \<or> is_iso_complete e \<and> num_iso_transfers (ss_stats s) = -1 \<longleftrightarrow>
      \<not> counters_fit (es @ [e])"
proof -
  have e: "\<not> is_start e" "e \<noteq> SFlush" using assms(3) by (cases e; simp)+
  note n = in_flight_snoc(1) [OF assms(2)] count_snoc(3,4) [of es e] peak_snoc [of es e] flush_peak_snoc [of es e]
  have pos: "0 < in_flight es" by (rule in_flight_snoc(2) [OF assms(2,3)])
  then have minus: "of_nat (in_flight es - Suc 0) = (of_nat (in_flight es) :: u32) - 1" by (simp add: of_nat_diff)
  have top: "max (peak es) (in_flight es - Suc 0) = peak es" using peak_ge [of es] by simp
  show "counted (es @ [e]) (complete_sys (is_iso_complete e) (r, s))"
    using assms(1,3) e minus top by (auto simp: counted_def complete_sys_def n counters_fit_snoc add.commute)
  assume f: "counters_fit es"
  from fits_last [OF f] assms(1,3) e
  show "num_transfers_completed (ss_stats s) = -1 \<or> is_iso_complete e \<and> num_iso_transfers (ss_stats s) = -1 \<longleftrightarrow>
      \<not> counters_fit (es @ [e])"
    by (auto simp: counters_fit_snoc f fits_now_def n counted_def of_nat_last)
qed

lemma other_counted:
  assumes "counted es (r, s)" and "balanced (es @ [e])" and "\<not> is_start e" and "\<not> is_complete e"
  shows "counted (es @ [e]) (r, if e = SFlush then s\<lparr>ss_stats := mark_flush (ss_stats s)\<rparr> else s)"
    and "counters_fit es \<Longrightarrow> counters_fit (es @ [e])"
proof -
  have i: "\<not> is_iso_complete e" using assms(4) by (cases e rule: is_iso_complete.cases) auto
  note n = in_flight_snoc(1) [OF assms(2)] count_snoc(3,4) [of es e] peak_snoc [of es e] flush_peak_snoc [of es e]
  have top: "max (peak es) (in_flight es) = peak es" using peak_ge [of es] by simp
  show "counted (es @ [e]) (r, if e = SFlush then s\<lparr>ss_stats := mark_flush (ss_stats s)\<rparr> else s)"
    using assms(1,3,4) i top counters_fit_peaks [of es] fits_last [of es]
    by (auto simp: counted_def mark_flush_def n counters_fit_snoc fits_now_def max_of_nat)
  show "counters_fit es \<Longrightarrow> counters_fit (es @ [e])"
    using fits_last [of es] assms(3,4) i by (auto simp: counters_fit_snoc fits_now_def n)
qed

lemma stat_run_counted:
  "balanced es \<Longrightarrow> \<exists>x. counted es x \<and> stat_run False el elc es stat_start = Ret x \<and>
    stat_run True el elc es stat_start = (if counters_fit es then Ret x else Panic)"
proof (induction es rule: rev_induct)
  case Nil
  show ?case
    by (intro exI [of _ stat_start])
      (simp add: counted_def stat_start_def lend_recv_stats_new_def lend_send_stats_new_def counters_fit_def fits_now_def)
next
  case (snoc e es)
  then obtain x where x: "counted es x" "stat_run False el elc es stat_start = Ret x"
    "stat_run True el elc es stat_start = (if counters_fit es then Ret x else Panic)"
    by (auto simp: balanced_snoc)
  obtain r s where rs: "x = (r, s)" by (cases x)
  have sh: "ss_active s = sr_active r" using x(1) by (simp add: counted_def rs)
  have step: "\<exists>y. counted (es @ [e]) y \<and> stat_step False el elc e (r, s) = Ret y \<and>
      (counters_fit es \<longrightarrow> stat_step True el elc e (r, s) = (if counters_fit (es @ [e]) then Ret y else Panic))"
  proof (cases "is_start e")
    case True
    from start_counted [OF x(1) [unfolded rs] snoc.prems True] start_step [OF True] show ?thesis
      by (intro exI [of _ "start_sys (fst (event_cost el elc e)) (snd (event_cost el elc e)) (r, s)"]) simp
  next
    case False
    show ?thesis
    proof (cases "is_complete e")
      case True
      from complete_counted [OF x(1) [unfolded rs] snoc.prems True] complete_step [OF True] show ?thesis
        by (intro exI [of _ "complete_sys (is_iso_complete e) (r, s)"]) simp
    next
      case notc: False
      from other_counted [OF x(1) [unfolded rs] snoc.prems False notc] uncounted_step [OF False notc sh] show ?thesis
        by (intro exI [of _ "(r, if e = SFlush then s\<lparr>ss_stats := mark_flush (ss_stats s)\<rparr> else s)"]) simp
    qed
  qed
  then obtain y where "counted (es @ [e]) y" "stat_step False el elc e x = Ret y"
    "counters_fit es \<longrightarrow> stat_step True el elc e x = (if counters_fit (es @ [e]) then Ret y else Panic)"
    unfolding rs by blast
  with x show ?case by (intro exI [of _ y]) (simp add: stat_run_snoc counters_fit_snoc)
qed

section \<open>Facts: the wrappers are transparent\<close>

definition bare_sender :: "'h stat_send sender \<Rightarrow> 'h sender" where
  "bare_sender s = \<lparr>s_state = s_state s, tx_holder = tx_holder s, sleeper = sleeper s, flusher = flusher s,
     s_handler = ss_inner (s_handler s)\<rparr>"

definition bare_receiver :: "'h stat_recv lend_receiver \<Rightarrow> 'h lend_receiver" where
  "bare_receiver s = \<lparr>lrs_handler = sr_inner (lrs_handler s), reset_inprogress = reset_inprogress s,
     ctrl_inprogress = ctrl_inprogress s, int_inprogress = int_inprogress s,
     iso_inprogress = iso_inprogress s, bulk_inprogress = bulk_inprogress s, results = results s\<rparr>"

text \<open>Counters that do not overflow.\<close>

definition counters_ok :: "bool \<Rightarrow> 'h stat_send \<Rightarrow> bool" where
  "counters_ok chk h \<longleftrightarrow> chk \<longrightarrow> num_transfers_completed (ss_stats h) \<noteq> -1 \<and> num_iso_transfers (ss_stats h) \<noteq> -1"

lemma stat_reply_bare:
  "counters_ok chk h \<Longrightarrow>
    rbind (stat_reply chk is_iso inner h) (\<lambda>(r, h'). Ret (r, ss_inner h')) = inner (ss_inner h)"
  by (cases "inner (ss_inner h)")
    (auto simp: stat_reply_def mark_complete_def mark_iso_def counters_ok_def)

lemma stat_handle_event:
  assumes "counters_ok chk h"
  shows "rbind (handle_event (stat_send_ops chk H) t h) (\<lambda>(r, h'). Ret (r, ss_inner h')) =
    handle_event H t (ss_inner h)"
proof (cases t)
  case (CReset sq)
  then show ?thesis by (cases "lh_device_resetted H sq (ss_inner h)") (auto simp: stat_send_ops_def)
qed (use stat_reply_bare [OF assms] in \<open>simp_all add: stat_send_ops_def\<close>)

lemma bare_sender_simps [simp]:
  "s_state (bare_sender s) = s_state s" "tx_holder (bare_sender s) = tx_holder s"
  "flusher (bare_sender s) = flusher s" "s_handler (bare_sender s) = ss_inner (s_handler s)"
  "bare_sender (s\<lparr>s_handler := h\<rparr>) = (bare_sender s)\<lparr>s_handler := ss_inner h\<rparr>"
  "bare_sender (s\<lparr>sleeper := b\<rparr>) = (bare_sender s)\<lparr>sleeper := b\<rparr>"
  "bare_sender (s\<lparr>s_state := st\<rparr>) = (bare_sender s)\<lparr>s_state := st\<rparr>"
  "bare_sender (s\<lparr>tx_holder := tx\<rparr>) = (bare_sender s)\<lparr>tx_holder := tx\<rparr>"
  "bare_sender (s\<lparr>flusher := f\<rparr>) = (bare_sender s)\<lparr>flusher := f\<rparr>"
  by (simp_all add: bare_sender_def)

lemma send_event_bare:
  assumes "counters_ok chk (s_handler s)"
  shows "rbind (lend_send_step (stat_send_ops chk H) (LendEv t) s) (\<lambda>x. Ret (map_sum id bare_sender x)) =
    lend_send_step H (LendEv t) (bare_sender s)"
proof -
  have e: "handle_event H t (ss_inner (s_handler s)) =
      rbind (handle_event (stat_send_ops chk H) t (s_handler s)) (\<lambda>(r, h'). Ret (r, ss_inner h'))"
    using stat_handle_event [OF assms] by simp
  show ?thesis
    by (cases "handle_event (stat_send_ops chk H) t (s_handler s)")
      (auto simp: lend_send_step_def e split: sum.split loop_state.split)
qed

lemma recv_request_bare:
  assumes "chk \<longrightarrow> sr_active s \<noteq> -1"
  shows "rbind (stat_request chk elapsed typ inner s) f = rbind (inner (sr_inner s)) (\<lambda>h. f \<lparr>sr_active = sr_active s + 1,
    sr_stats = mark_end elapsed typ ((sr_stats s)\<lparr>max_active_transfers :=
      max (max_active_transfers (sr_stats s)) (sr_active s + 1)\<rparr>), sr_inner = h\<rparr>)"
  using assms by (cases "inner (sr_inner s)") (auto simp: stat_request_def mark_start_def)

lemma bare_receiver_simps [simp]:
  "lrs_handler (bare_receiver s) = sr_inner (lrs_handler s)" "reset_inprogress (bare_receiver s) = reset_inprogress s"
  "ctrl_inprogress (bare_receiver s) = ctrl_inprogress s" "int_inprogress (bare_receiver s) = int_inprogress s"
  "iso_inprogress (bare_receiver s) = iso_inprogress s" "bulk_inprogress (bare_receiver s) = bulk_inprogress s"
  "results (bare_receiver s) = results s"
  "bare_receiver (s\<lparr>lrs_handler := h\<rparr>) = (bare_receiver s)\<lparr>lrs_handler := sr_inner h\<rparr>"
  "bare_receiver (s\<lparr>reset_inprogress := m\<rparr>) = (bare_receiver s)\<lparr>reset_inprogress := m\<rparr>"
  "bare_receiver (s\<lparr>ctrl_inprogress := m\<rparr>) = (bare_receiver s)\<lparr>ctrl_inprogress := m\<rparr>"
  "bare_receiver (s\<lparr>int_inprogress := m\<rparr>) = (bare_receiver s)\<lparr>int_inprogress := m\<rparr>"
  "bare_receiver (s\<lparr>iso_inprogress := m\<rparr>) = (bare_receiver s)\<lparr>iso_inprogress := m\<rparr>"
  "bare_receiver (s\<lparr>bulk_inprogress := m\<rparr>) = (bare_receiver s)\<lparr>bulk_inprogress := m\<rparr>"
  "bare_receiver (s\<lparr>results := ts\<rparr>) = (bare_receiver s)\<lparr>results := ts\<rparr>"
  by (simp_all add: bare_receiver_def)

lemma stat_recv_sel:
  "lr_cancel_urb (stat_recv_ops chk el elc H) = (\<lambda>sn s. s\<lparr>sr_inner := lr_cancel_urb H sn (sr_inner s)\<rparr>)"
  "lr_device_reset (stat_recv_ops chk el elc H) =
     (\<lambda>sn s. rbind (lr_device_reset H sn (sr_inner s)) (\<lambda>h. Ret (s\<lparr>sr_inner := h\<rparr>)))"
  "lr_blocking (stat_recv_ops chk el elc H) = (\<lambda>req. stat_request chk (elc req) UrbCtrl (lr_blocking H req))"
  "lr_new (stat_recv_ops chk el elc H) = (\<lambda>k sq. stat_request chk (el sq)
     (case k of Control \<Rightarrow> UrbCtrl | Interrupt \<Rightarrow> UrbInt | Isochronous \<Rightarrow> UrbIso | Bulk \<Rightarrow> UrbBulk) (lr_new H k sq))"
  by (simp_all add: stat_recv_ops_def)

lemma recv_urb_bare:
  assumes "chk \<longrightarrow> sr_active (lrs_handler s) \<noteq> -1"
  shows "rbind (lend_recv_urb V (stat_recv_ops chk el elc H) sq s) (\<lambda>x. Ret (bare_receiver x)) =
    lend_recv_urb V H sq (bare_receiver s)"
  by (auto simp: lend_recv_urb_def stat_recv_sel rbind_assoc recv_request_bare [OF assms]
    split: option.split transfer_kind.split ctrl_kind.split)

lemma send_step_bare:
  assumes "counters_ok chk (s_handler s)"
  shows "rbind (lend_send_step (stat_send_ops chk HS) ev s) (\<lambda>x. Ret (map_sum id bare_sender x)) =
      lend_send_step HS ev (bare_sender s)"
proof (cases ev)
  case (LendEv t)
  with send_event_bare [OF assms] show ?thesis by simp
next
  case LFlushBuf
  then show ?thesis
    by (cases "tx_holder s") (auto simp: lend_send_step_def on_flush_buf_def stat_send_ops_def split: prod.split)
next
  case (LFlushComplete x)
  then show ?thesis
    by (cases x) (auto simp: lend_send_step_def on_flush_complete_def stat_send_ops_def Let_def)
qed (simp add: lend_send_step_def)

lemma recv_step_bare:
  assumes "chk \<longrightarrow> sr_active (lrs_handler r) \<noteq> -1"
  shows "rbind (lend_recv_step V (stat_recv_ops chk el elc HR) ev2 r) (\<lambda>x. Ret (map_sum id bare_receiver x)) =
      lend_recv_step V HR ev2 (bare_receiver r)"
proof (cases ev2)
  case (LFrame f)
  show ?thesis
  proof (cases f)
    case (Inr g)
    then show ?thesis
    proof (cases g)
      case (FUrb sq)
      have e: "lend_recv_urb V HR sq (bare_receiver r) =
          rbind (lend_recv_urb V (stat_recv_ops chk el elc HR) sq r) (\<lambda>x. Ret (bare_receiver x))"
        by (rule recv_urb_bare [OF assms, symmetric])
      show ?thesis
        by (cases "lend_recv_urb V (stat_recv_ops chk el elc HR) sq r")
          (simp_all add: LFrame Inr FUrb lend_recv_step_def e)
    qed (use LFrame Inr in \<open>auto simp: lend_recv_step_def stat_recv_sel rbind_assoc\<close>)
  qed (use LFrame in \<open>simp add: lend_recv_step_def\<close>)
next
  case (LCompleted t)
  then show ?thesis by (cases t) (simp_all add: lend_recv_step_def)
qed (simp add: lend_recv_step_def)

section \<open>Properties\<close>

text \<open>C32. The statistics do not change the session: with them, every step of the send loop and of the
  receive loop does what it does with the bare handler, as long as no counter overflows.\<close>

theorem stats_transparent:
  assumes "counters_ok chk (s_handler s)" and "chk \<longrightarrow> sr_active (lrs_handler r) \<noteq> -1"
  shows "(rbind (lend_send_step (stat_send_ops chk HS) ev s) (\<lambda>x. Ret (map_sum id bare_sender x)) =
      lend_send_step HS ev (bare_sender s)) \<and>
    (rbind (lend_recv_step V (stat_recv_ops chk el elc HR) ev2 r) (\<lambda>x. Ret (map_sum id bare_receiver x)) =
      lend_recv_step V HR ev2 (bare_receiver r))"
  using send_step_bare [OF assms(1)] recv_step_bare [OF assms(2)] by blast

text \<open>C34. The counters of the statistics are exact. For any order of requests, results, cancellations, resets and
  flushes in which no more requests are answered than were made: a build that checks for overflow
  panics exactly when, at some moment, the requests in flight or the results since the last flush do
  not fit 32 bits (or the isochronous results 64), however long the session lasts; as long as they
  fit, the counters and the two recorded maxima are the true numbers, and a build that does not check
  goes on with the counters modulo their width.\<close>

theorem active_transfers_exact:
  assumes "\<forall>k \<le> length es. completes (take k es) \<le> starts (take k es)"
  shows "(stat_run True el elc es stat_start = Panic \<longleftrightarrow> \<not> counters_fit es) \<and>
    (counters_fit es \<longrightarrow> (\<exists>r s. stat_run chk el elc es stat_start = Ret (r, s) \<and>
      unat (sr_active r) = in_flight es \<and> unat (max_active_transfers (sr_stats r)) = peak es \<and>
      unat (num_transfers_completed (ss_stats s)) = since_flush es \<and>
      unat (max_completed_transfers_before_flush (ss_stats s)) = flush_peak es \<and>
      unat (num_iso_transfers (ss_stats s)) = iso_completes es)) \<and>
    (\<exists>r s. stat_run False el elc es stat_start = Ret (r, s) \<and> sr_active r = of_nat (in_flight es) \<and>
      num_transfers_completed (ss_stats s) = of_nat (since_flush es) \<and> num_iso_transfers (ss_stats s) = of_nat (iso_completes es))"
proof -
  have "balanced es" using assms by (simp add: balanced_def)
  from stat_run_counted [OF this, of el elc] obtain r s where x: "counted es (r, s)"
    "stat_run False el elc es stat_start = Ret (r, s)"
    "stat_run True el elc es stat_start = (if counters_fit es then Ret (r, s) else Panic)" by fast
  have "stat_run chk el elc es stat_start = Ret (r, s)" if "counters_fit es" using x that by (cases chk) simp_all
  moreover have "unat (sr_active r) = in_flight es \<and> unat (max_active_transfers (sr_stats r)) = peak es \<and>
      unat (num_transfers_completed (ss_stats s)) = since_flush es \<and>
      unat (max_completed_transfers_before_flush (ss_stats s)) = flush_peak es \<and>
      unat (num_iso_transfers (ss_stats s)) = iso_completes es" if "counters_fit es"
    using x(1) that fits_last [OF that] counters_fit_peaks [OF that] by (simp add: counted_def fits_now_def unat_fits)
  ultimately show ?thesis using x by (auto simp: counted_def)
qed

text \<open>The containers keep what they promise: the greatest and the least durations seen, at most the
  given number of them, and the mean of the most recent ones.\<close>

theorem metrics_keep:
  assumes "0 < n" and "n < 2 ^ 32"
  shows "map (unreverse \<circ> fst) (fold (\<lambda>(d, v). max_push n d v) items []) =
      take n (rev (sorted_list_of_set (fst ` set items)))"
    and "map fst (fold (min_push n) ds []) = take n (sorted_list_of_set (set ds))"
    and "rolling_mean (fold (rolling_push n) ds []) =
      (let q = drop (length ds - n) ds
       in if q = [] then Ret None
          else if sum_list q < DURATION_END then Ret (Some (sum_list q div length q)) else Panic)"
proof -
  have "fold (\<lambda>(d, v). max_push n d v) items [] = fold (\<lambda>(k, v). bt_push n k v) (map (\<lambda>(d, v). (Reverse d, v)) items) []"
    by (rule sym) (simp add: fold_map comp_def max_push_def [abs_def] case_prod_unfold)
  moreover have "fst ` set (map (\<lambda>(d, v). (Reverse d, v)) items) = Reverse ` fst ` set items"
    by (force simp: image_def)
  ultimately have "map fst (fold (\<lambda>(d, v). max_push n d v) items []) = take n (sorted_list_of_set (Reverse ` fst ` set items))"
    using bt_push_run [of n "map (\<lambda>(d, v). (Reverse d, v)) items"] by simp
  then have "map unreverse (map fst (fold (\<lambda>(d, v). max_push n d v) items [])) =
      take n (map unreverse (sorted_list_of_set (Reverse ` fst ` set items)))"
    by (simp only: take_map)
  then show "map (unreverse \<circ> fst) (fold (\<lambda>(d, v). max_push n d v) items []) =
      take n (rev (sorted_list_of_set (fst ` set items)))"
    by (simp add: sorted_list_reversed)
  have "fold (min_push n) ds [] = fold (\<lambda>(k, v). bt_push n k v) (map (\<lambda>d. (d, ())) ds) []"
    by (simp add: fold_map comp_def min_push_def [abs_def])
  then show "map fst (fold (min_push n) ds []) = take n (sorted_list_of_set (set ds))"
    using bt_push_run [of n "map (\<lambda>d. (d, ())) ds"] by (simp add: image_image)
  have "length (drop (length ds - n) ds) < 2 ^ 32" using assms(2) by simp
  then show "rolling_mean (fold (rolling_push n) ds []) =
      (let q = drop (length ds - n) ds
       in if q = [] then Ret None
          else if sum_list q < DURATION_END then Ret (Some (sum_list q div length q)) else Panic)"
    by (simp add: rolling_run [OF assms(1)] rolling_mean_def duration_sum_eq duration_div_def Let_def)
qed

section \<open>The properties at work\<close>

theorem stats_transparent_witness:
  "rbind (lend_send_step (stat_send_ops True (lend_send_handler_ops True)) (LendEv (CReset (lend_device_reset 7)))
      (start_sender [] \<lparr>ss_active = 0, ss_stats = lend_send_stats_new, ss_inner = lend_send_new\<rparr>))
     (\<lambda>x. Ret (map_sum id bare_sender x)) =
   lend_send_step (lend_send_handler_ops True) (LendEv (CReset (lend_device_reset 7))) (start_sender [] lend_send_new)"
  using stats_transparent [THEN conjunct1, of True "start_sender [] \<lparr>ss_active = 0, ss_stats = lend_send_stats_new, ss_inner = lend_send_new\<rparr>"
    "\<lparr>lrs_handler = \<lparr>sr_active = 0, sr_stats = lend_recv_stats_new, sr_inner = ()\<rparr>, reset_inprogress = {#},
      ctrl_inprogress = {#}, int_inprogress = {#}, iso_inprogress = {#}, bulk_inprogress = {#}, results = []\<rparr>"
    "lend_send_handler_ops True" "LendEv (CReset (lend_device_reset 7))"]
  by (simp add: counters_ok_def start_sender_def lend_send_stats_new_def bare_sender_def)

text \<open>Two requests, an isochronous result, a flush, a reset and another result.\<close>

definition few_events :: "stat_event list" where
  "few_events = [SRequest Bulk (int_in 5), SRequest Isochronous (int_in 6),
     SReply (CIso \<lparr>sq_seqnum = 6, sq_data = \<lparr>x_res = ResOut 0, x_endpoint = 1, x_status = Inr (), x_interval = 1,
       x_raw_iso_buf = [], x_num_errors = 0, x_num_iso_packets = 0\<rparr>\<rparr>), SFlush, SReply (CReset (lend_device_reset 7)),
     SReply (CBulk (blocking_done 5 (Inr ())))]"

lemma few_events_take: "k \<le> length few_events \<Longrightarrow> k \<in> {0, 1, 2, 3, 4, 5, 6}"
  by (auto simp: few_events_def)

lemmas few_counts = few_events_def take_Cons numeral_eq_Suc starts_def completes_def iso_completes_def since_flush_def
  in_flight_def

theorem active_transfers_exact_witness:
  "\<exists>r s. stat_run True (\<lambda>_. 3) (\<lambda>_. 3) few_events stat_start = Ret (r, s) \<and> unat (sr_active r) = 0 \<and>
    unat (num_transfers_completed (ss_stats s)) = 1 \<and> unat (num_iso_transfers (ss_stats s)) = 1"
proof -
  have "completes (take k few_events) \<le> starts (take k few_events)" if "k \<le> length few_events" for k
    using few_events_take [OF that] by (auto simp: few_counts)
  then have b: "\<forall>k \<le> length few_events. completes (take k few_events) \<le> starts (take k few_events)" by blast
  have "counters_fit few_events" by (rule counters_fit_short) (simp add: few_events_def)
  moreover have "in_flight few_events = 0" "since_flush few_events = 1" "iso_completes few_events = 1"
    by (simp_all add: few_counts)
  ultimately show ?thesis using active_transfers_exact [OF b, of "\<lambda>_. 3" "\<lambda>_. 3" True] by auto
qed

theorem metrics_keep_witness:
  "map fst (fold (min_push 2) [7, 3, 9, 3] []) = [3, 7] \<and>
   rolling_mean (fold (rolling_push 2) [7, 3, 9] []) = Ret (Some 6)"
proof -
  have "set [7, 3, 9, 3 :: nat] = set [3, 7, 9]" by auto
  then have "sorted_list_of_set (set [7, 3, 9, 3 :: nat]) = [3, 7, 9]"
    using sorted_list_of_set.idem_if_sorted_distinct [of "[3, 7, 9 :: nat]"] by (simp only:) simp
  moreover have "map fst (fold (min_push 2) [7, 3, 9, 3] []) = take 2 (sorted_list_of_set (set [7, 3, 9, 3 :: nat]))"
    by (rule metrics_keep(2)) simp_all
  ultimately have "map fst (fold (min_push 2) [7, 3, 9, 3] []) = [3, 7]" by (simp only:) simp
  moreover have "rolling_mean (fold (rolling_push 2) [7, 3, 9] []) = Ret (Some 6)"
    by (subst metrics_keep(3)) (simp_all add: DURATION_END_def Let_def flip: numeral_2_eq_2)
  ultimately show ?thesis ..
qed

end
