(* ===== verification/Session.thy ===== *)
theory Session
  imports Lend_Operator Borrow_Loop
begin

text \<open>
  How a session starts, \<^verbatim>\<open>crates/qusb/src/lib.rs\<close>: the request that one peer sends on a new
  stream, and the response of the other. Opening a device, writing to the stream and the
  layout of \<^verbatim>\<open>ReqFrame\<close> are parameters: \<open>open_dev\<close> gives the speed of the device, \<open>wr\<close> the outcome
  of writing some bytes. A result comes with the bytes that were written.
\<close>

section \<open>Errors\<close>

datatype qusb_error =
    Network io_error
  | VersionErr version
  | DevNotFound usb_device_id
  | ReqFailed
  | UnknownErr
  | UsbErr usb_error
  | VhciErr vhci_error

fun from_lend_error :: "lend_error \<Rightarrow> qusb_error" where
  "from_lend_error (LUsb err) = UsbErr err"
| "from_lend_error (LRecv (Io err)) = Network err"
| "from_lend_error (LSend err) = Network err"
| "from_lend_error (LRecv RecvCorruptedData) = UnknownErr"

fun from_borrow_error :: "borrow_error \<Rightarrow> qusb_error" where
  "from_borrow_error (BVhci err) = VhciErr err"
| "from_borrow_error (BRecv (Io err)) = Network err"
| "from_borrow_error (BSend err) = Network err"
| "from_borrow_error (BRecv RecvCorruptedData) = UnknownErr"

fun from_rusb_error :: "rusb_error \<Rightarrow> usb_device_id \<Rightarrow> qusb_error run" where
  "from_rusb_error RE_Io _ = Panic"
| "from_rusb_error RE_InvalidParam _ = Ret (Network InvalidInput)"
| "from_rusb_error RE_Access _ = Ret (Network PermissionDenied)"
| "from_rusb_error RE_NoDevice dev_id = Ret (DevNotFound dev_id)"
| "from_rusb_error RE_NotFound dev_id = Ret (DevNotFound dev_id)"
| "from_rusb_error RE_Busy _ = Ret (Network ResourceBusy)"
| "from_rusb_error RE_Timeout _ = Ret (Network IoTimedOut)"
| "from_rusb_error RE_Overflow _ = Panic"
| "from_rusb_error RE_Pipe _ = Ret (Network BrokenPipe)"
| "from_rusb_error RE_Interrupted _ = Ret (Network Interrupted)"
| "from_rusb_error RE_NoMem _ = Ret (Network OutOfMemory)"
| "from_rusb_error RE_NotSupported _ = Ret (Network Unsupported)"
| "from_rusb_error RE_BadDescriptor _ = Panic"
| "from_rusb_error RE_Other _ = Ret (Network IoOther)"

fun status_from_rusb :: "rusb_error \<Rightarrow> status" where
  "status_from_rusb RE_Io = Failed"
| "status_from_rusb RE_InvalidParam = Unexpected"
| "status_from_rusb RE_Access = Failed"
| "status_from_rusb RE_NoDevice = NoDev"
| "status_from_rusb RE_NotFound = NoDev"
| "status_from_rusb RE_Busy = DevBusy"
| "status_from_rusb RE_Timeout = Timeout"
| "status_from_rusb RE_BadDescriptor = DevErr"
| "status_from_rusb _ = Unexpected"

text \<open>The speeds of \<^verbatim>\<open>rusb\<close>, whose type may grow.\<close>

datatype rusb_speed =
  RS_Unknown | RS_Low | RS_Full | RS_High | RS_Super | RS_SuperPlus | RS_Other

fun data_rate_of_speed :: "rusb_speed \<Rightarrow> data_rate run" where
  "data_rate_of_speed RS_Unknown = Ret RateLow"
| "data_rate_of_speed RS_Low = Ret RateLow"
| "data_rate_of_speed RS_Full = Ret RateFull"
| "data_rate_of_speed RS_High = Ret RateHigh"
| "data_rate_of_speed RS_Super = Ret RateHigh"
| "data_rate_of_speed RS_SuperPlus = Ret RateHigh"
| "data_rate_of_speed RS_Other = Panic"

section \<open>The side that answers\<close>

datatype server_resp =
    SrvListDevices
  | SrvBorrowDevice usb_device_id
  | SrvLendDevice data_rate usb_device_id

type_synonym 'a answer = "(qusb_error + 'a) \<times> bytes"

type_synonym write_op = "bytes \<Rightarrow> io_error + unit"

definition REQ_FRAME_SIZE :: nat where "REQ_FRAME_SIZE = 8"
definition RESP_SIZE :: nat where "RESP_SIZE = 8"

definition send_resp :: "write_op \<Rightarrow> resp \<Rightarrow> (qusb_error + 'a) \<Rightarrow> 'a answer" where
  "send_resp wr response res =
     (case wr (resp_as_bytes response) of
        Inl err \<Rightarrow> (Inl (Network err), [])
      | Inr _ \<Rightarrow> (res, resp_as_bytes response))"

definition accept_req :: "write_op \<Rightarrow> (usb_device_id \<Rightarrow> rusb_error + rusb_speed) \<Rightarrow> req_frame \<Rightarrow>
    server_resp answer run" where
  "accept_req wr open_dev f =
     (if \<not> is_compat (rf_version f) QUSB_VER then
        Ret (send_resp wr (RespFailure VersionMismatch (SomeVersion QUSB_VER)) (Inl (VersionErr (rf_version f))))
      else case rf_req f of
        ReqListDevices _ \<Rightarrow> Ret (Inr SrvListDevices, [])
      | ReqBorrowDevice _ dev_id \<Rightarrow>
          (case open_dev dev_id of
             Inr speed \<Rightarrow> rbind (data_rate_of_speed speed) (\<lambda>rate.
               Ret (send_resp wr (RespBorrowDevice rate (replicate 6 0)) (Inr (SrvBorrowDevice dev_id))))
           | Inl err \<Rightarrow> rbind (from_rusb_error err dev_id) (\<lambda>ret_err.
               Ret (send_resp wr (RespFailure (status_from_rusb err) (NoVersion (replicate 4 0))) (Inl ret_err))))
      | ReqLendDevice rate dev_id \<Rightarrow>
          Ret (send_resp wr (RespLendDevice (replicate 7 0)) (Inr (SrvLendDevice rate dev_id))))"

definition accept_stream :: "bool \<Rightarrow> alloc \<Rightarrow> 'r reader \<Rightarrow> write_op \<Rightarrow> (usb_device_id \<Rightarrow> rusb_error + rusb_speed) \<Rightarrow>
    ring \<Rightarrow> 'r \<Rightarrow> (server_resp answer \<times> ring \<times> 'r) run" where
  "accept_stream rf al rd wr open_dev buf rx =
     (case fill_until al rd REQ_FRAME_SIZE buf rx of
        (Inl err, buf', rx') \<Rightarrow> Ret ((Inl (Network err), []), buf', rx')
      | (Inr _, buf', rx') \<Rightarrow>
          (case ring_read REQ_FRAME_SIZE (req_frame_from_bytes rf) buf' of
             (Inl CorruptedData, buf'') \<Rightarrow>
               Ret (send_resp wr (RespFailure Proto (SomeVersion QUSB_VER)) (Inl UnknownErr), buf'', rx')
           | (Inl (BufferShort _), buf'') \<Rightarrow> Panic
           | (Inr f, buf'') \<Rightarrow> rbind (accept_req wr open_dev f) (\<lambda>a. Ret (a, buf'', rx'))))"

section \<open>The side that asks\<close>

definition send_req :: "bool \<Rightarrow> write_op \<Rightarrow> req \<Rightarrow> io_error + bytes" where
  "send_req rf wr r =
     (let bs = req_frame_as_bytes rf \<lparr>rf_version = QUSB_VER, rf_req = r\<rparr>
      in case wr bs of Inl err \<Rightarrow> Inl err | Inr _ \<Rightarrow> Inr bs)"

text \<open>Waiting for the response; anything that is no response panics.\<close>

definition await_resp :: "alloc \<Rightarrow> 'r reader \<Rightarrow> ring \<Rightarrow> 'r \<Rightarrow> ((io_error + resp) \<times> ring \<times> 'r) run" where
  "await_resp al rd buf rx =
     (case fill_until al rd RESP_SIZE buf rx of
        (Inl err, buf', rx') \<Rightarrow> Ret (Inl err, buf', rx')
      | (Inr _, buf', rx') \<Rightarrow>
          (case ring_read RESP_SIZE resp_from_bytes buf' of
             (Inl _, _) \<Rightarrow> Panic
           | (Inr response, buf'') \<Rightarrow> Ret (Inr response, buf'', rx')))"

text \<open>The refusals that both requests know; any other response panics.\<close>

fun refusal :: "usb_device_id \<Rightarrow> resp \<Rightarrow> qusb_error run" where
  "refusal dev_id (RespFailure VersionMismatch (SomeVersion theirs)) = Ret (VersionErr theirs)"
| "refusal dev_id (RespFailure Proto (SomeVersion theirs)) = Ret (VersionErr theirs)"
| "refusal dev_id (RespFailure DevBusy _) = Ret (Network ResourceBusy)"
| "refusal dev_id (RespFailure NoDev _) = Ret (DevNotFound dev_id)"
| "refusal dev_id _ = Panic"

definition req_borrow :: "bool \<Rightarrow> alloc \<Rightarrow> 'r reader \<Rightarrow> write_op \<Rightarrow> usb_device_id \<Rightarrow> ring \<Rightarrow> 'r \<Rightarrow>
    (data_rate answer \<times> ring \<times> 'r) run" where
  "req_borrow rf al rd wr dev_id buf rx =
     (case send_req rf wr (ReqBorrowDevice [0] dev_id) of
        Inl err \<Rightarrow> Ret ((Inl (Network err), []), buf, rx)
      | Inr bs \<Rightarrow>
          rbind (await_resp al rd buf rx) (\<lambda>(response, buf', rx').
            case response of
              Inl err \<Rightarrow> Ret ((Inl (Network err), bs), buf', rx')
            | Inr (RespBorrowDevice rate _) \<Rightarrow> Ret ((Inr rate, bs), buf', rx')
            | Inr r \<Rightarrow> rbind (refusal dev_id r) (\<lambda>err. Ret ((Inl err, bs), buf', rx'))))"

definition req_lend :: "bool \<Rightarrow> alloc \<Rightarrow> 'r reader \<Rightarrow> write_op \<Rightarrow> (usb_device_id \<Rightarrow> rusb_error + rusb_speed) \<Rightarrow>
    usb_device_id \<Rightarrow> ring \<Rightarrow> 'r \<Rightarrow> (unit answer \<times> ring \<times> 'r) run" where
  "req_lend rf al rd wr open_dev dev_id buf rx =
     (case open_dev dev_id of
        Inl err \<Rightarrow> rbind (from_rusb_error err dev_id) (\<lambda>e. Ret ((Inl e, []), buf, rx))
      | Inr speed \<Rightarrow>
          rbind (data_rate_of_speed speed) (\<lambda>rate.
            case send_req rf wr (ReqLendDevice rate dev_id) of
              Inl err \<Rightarrow> Ret ((Inl (Network err), []), buf, rx)
            | Inr bs \<Rightarrow>
                rbind (await_resp al rd buf rx) (\<lambda>(response, buf', rx').
                  case response of
                    Inl err \<Rightarrow> Ret ((Inl (Network err), bs), buf', rx')
                  | Inr (RespLendDevice _) \<Rightarrow> Ret ((Inr (), bs), buf', rx')
                  | Inr r \<Rightarrow> rbind (refusal dev_id r) (\<lambda>err. Ret ((Inl err, bs), buf', rx')))))"

section \<open>Listing devices\<close>

definition LIST_LEN :: nat where "LIST_LEN = 8192"

text \<open>
  \<^verbatim>\<open>send_device_list\<close>: \<open>devices\<close> is the outcome of listing the devices, each already as bytes. The
  devices are written with one call, after the response.
\<close>

definition send_device_list :: "write_op \<Rightarrow> io_error + bytes list \<Rightarrow> unit answer" where
  "send_device_list wr devices =
     (case devices of
        Inl err \<Rightarrow> send_resp wr (RespFailure Failed (NoVersion (replicate 4 0))) (Inl (Network err))
      | Inr ds \<Rightarrow>
          (case send_resp wr (RespListDevices (replicate 7 0)) (Inr ()) of
             (Inl err, sent) \<Rightarrow> (Inl err, sent)
           | (Inr _, sent) \<Rightarrow>
               (case wr (concat ds) of
                  Inl err \<Rightarrow> (Inl (Network err), sent)
                | Inr _ \<Rightarrow> (Inr (), sent @ concat ds))))"

text \<open>The asking side keeps what it has read after the response.\<close>

definition req_list_devices :: "bool \<Rightarrow> alloc \<Rightarrow> 'r reader \<Rightarrow> write_op \<Rightarrow> ring \<Rightarrow> 'r \<Rightarrow>
    (ring answer \<times> 'r) run" where
  "req_list_devices rf al rd wr buf rx =
     (case send_req rf wr (ReqListDevices (replicate 3 0)) of
        Inl err \<Rightarrow> Ret ((Inl (Network err), []), rx)
      | Inr bs \<Rightarrow>
          (case fill_until al rd LIST_LEN buf rx of
             (Inl err, buf', rx') \<Rightarrow> Ret ((Inl (Network err), bs), rx')
           | (Inr _, buf', rx') \<Rightarrow>
               (case ring_read RESP_SIZE resp_from_bytes buf' of
                  (Inl CorruptedData, _) \<Rightarrow> Panic
                | (Inl (BufferShort _), _) \<Rightarrow> Ret ((Inl UnknownErr, bs), rx')
                | (Inr (RespListDevices _), buf'') \<Rightarrow> Ret ((Inr buf'', bs), rx')
                | (Inr (RespFailure VersionMismatch (SomeVersion theirs)), _) \<Rightarrow>
                    Ret ((Inl (VersionErr theirs), bs), rx')
                | (Inr _, _) \<Rightarrow> Panic)))"

section \<open>Facts\<close>

text \<open>Reading a value that the stream starts with, in whatever pieces it arrives.\<close>

context layout
begin

lemma fill_read:
  assumes "alloc_ok al" and "stream_reader rd strm" and "ring_ok r" and "wf x"
    and "r_buf r @ strm rx = enc x @ rest"
  obtains res r' rx' where "fill_until al rd sz r rx = (Inr res, r', rx')"
    and "ring_read sz dec r' = (Inr x, ring_advance sz r')"
    and "r_buf (ring_advance sz r') @ strm rx' = rest"
proof -
  from fill_until_spec [OF assms(1-3), of sz rx] obtain res r' rx' where
    f: "fill_until al rd sz r rx = (Inr res, r', rx')" "r_buf r' @ strm rx' = r_buf r @ strm rx"
      "res = Some () \<longleftrightarrow> sz \<le> length (r_buf r @ strm rx)" "res = Some () \<longrightarrow> sz \<le> ring_len r'"
    by blast
  have "sz \<le> length (r_buf r @ strm rx)" using assms(5) length_enc [OF assms(4)] by simp
  then have "sz \<le> length (r_buf r')" using f(3,4) by (simp add: ring_len_def)
  with f(2) assms(5) length_enc [OF assms(4)] obtain rest' where
    m: "r_buf r' = enc x @ rest'" "rest' @ strm rx' = rest"
    by (metis append_prefixE)
  from ring_read_enc [OF assms(4) m(1)] m(2) f(1) show ?thesis by (intro that) auto
qed

end

lemma sizes [simp]: "REQ_FRAME_SIZE = 8" "RESP_SIZE = 8"
  by (simp_all add: REQ_FRAME_SIZE_def RESP_SIZE_def)

lemma accept_stream_req:
  assumes "alloc_ok al" and "stream_reader rd strm" and "ring_ok r" and "wf_req (rf_req f)"
    and "r_buf r @ strm rx = req_frame_as_bytes rf f @ rest"
  shows "\<exists>r' rx'. accept_stream rf al rd wr open_dev r rx = rbind (accept_req wr open_dev f) (\<lambda>a. Ret (a, r', rx')) \<and>
    r_buf r' @ strm rx' = rest"
proof -
  obtain res r' rx' where "fill_until al rd 8 r rx = (Inr res, r', rx')"
    "ring_read 8 (req_frame_from_bytes rf) r' = (Inr f, ring_advance 8 r')"
    "r_buf (ring_advance 8 r') @ strm rx' = rest"
    by (rule req_frame_layout.fill_read [OF assms])
  then show ?thesis
    by (intro exI [of _ "ring_advance 8 r'"] exI [of _ rx'] conjI) (simp_all add: accept_stream_def)
qed

lemma await_resp_eq:
  assumes "alloc_ok al" and "stream_reader rd strm" and "ring_ok r" and "wf_resp response"
    and "r_buf r @ strm rx = resp_as_bytes response @ rest"
  shows "\<exists>r' rx'. await_resp al rd r rx = Ret (Inr response, r', rx') \<and> r_buf r' @ strm rx' = rest"
proof -
  obtain res r' rx' where "fill_until al rd 8 r rx = (Inr res, r', rx')"
    "ring_read 8 resp_from_bytes r' = (Inr response, ring_advance 8 r')"
    "r_buf (ring_advance 8 r') @ strm rx' = rest"
    by (rule resp_layout.fill_read [OF assms])
  then show ?thesis
    by (intro exI [of _ "ring_advance 8 r'"] exI [of _ rx'] conjI) (simp_all add: await_resp_def)
qed

definition writes :: write_op where
  "writes bs = Inr ()"

lemma send_resp_writes [simp]: "send_resp writes response res = (res, resp_as_bytes response)"
  by (simp add: send_resp_def writes_def)

lemma send_req_writes [simp]:
  "send_req rf writes r = Inr (req_frame_as_bytes rf \<lparr>rf_version = QUSB_VER, rf_req = r\<rparr>)"
  by (simp add: send_req_def writes_def)

lemma is_compat_refl [simp]: "is_compat v v"
  by (simp add: is_compat_def)

lemma open_errors:
  "rbind (from_rusb_error err dev_id) f = Panic \<or>
   (\<exists>e. from_rusb_error err dev_id = Ret e)"
  by (cases err) simp_all

text \<open>What the asking side makes of the refusals that the answering side sends.\<close>

lemma refusal_of_open:
  "refusal dev_id (RespFailure (status_from_rusb err) (NoVersion pad)) =
     (if err \<in> {RE_NoDevice, RE_NotFound} then Ret (DevNotFound dev_id)
      else if err = RE_Busy then Ret (Network ResourceBusy) else Panic)"
  by (cases err) simp_all

lemma req_borrow_resp:
  assumes "alloc_ok al" and "stream_reader rd strm" and "ring_ok r" and "wf_resp response"
    and "r_buf r @ strm rx = resp_as_bytes response @ rest"
  shows "\<exists>r' rx'. r_buf r' @ strm rx' = rest \<and>
    req_borrow rf al rd writes dev_id r rx =
      (case response of
         RespBorrowDevice rate _ \<Rightarrow>
           Ret ((Inr rate, req_frame_as_bytes rf \<lparr>rf_version = QUSB_VER, rf_req = ReqBorrowDevice [0] dev_id\<rparr>), r', rx')
       | _ \<Rightarrow> rbind (refusal dev_id response) (\<lambda>err.
           Ret ((Inl err, req_frame_as_bytes rf \<lparr>rf_version = QUSB_VER, rf_req = ReqBorrowDevice [0] dev_id\<rparr>), r', rx')))"
proof -
  obtain r' rx' where "await_resp al rd r rx = Ret (Inr response, r', rx')" "r_buf r' @ strm rx' = rest"
    using await_resp_eq [OF assms] by blast
  then show ?thesis
    by (intro exI [of _ r'] exI [of _ rx']) (simp add: req_borrow_def split: resp.split)
qed

lemma req_lend_resp:
  assumes "alloc_ok al" and "stream_reader rd strm" and "ring_ok r" and "wf_resp response"
    and "r_buf r @ strm rx = resp_as_bytes response @ rest"
    and "open_dev dev_id = Inr spd" and "data_rate_of_speed spd = Ret rate"
  shows "\<exists>r' rx'. r_buf r' @ strm rx' = rest \<and>
    req_lend rf al rd writes open_dev dev_id r rx =
      (case response of
         RespLendDevice _ \<Rightarrow>
           Ret ((Inr (), req_frame_as_bytes rf \<lparr>rf_version = QUSB_VER, rf_req = ReqLendDevice rate dev_id\<rparr>), r', rx')
       | _ \<Rightarrow> rbind (refusal dev_id response) (\<lambda>err.
           Ret ((Inl err, req_frame_as_bytes rf \<lparr>rf_version = QUSB_VER, rf_req = ReqLendDevice rate dev_id\<rparr>), r', rx')))"
proof -
  obtain r' rx' where "await_resp al rd r rx = Ret (Inr response, r', rx')" "r_buf r' @ strm rx' = rest"
    using await_resp_eq [OF assms(1-5)] by blast
  with assms(6,7) show ?thesis
    by (intro exI [of _ r'] exI [of _ rx']) (simp add: req_lend_def split: resp.split)
qed

section \<open>Properties\<close>

text \<open>C12. The two sides of a session agree. When the asking side borrows a device that can be opened,
  the answering side reads the request and opens exactly that device; the asking side reads the
  answer and learns the rate of the device's speed. Neither reads a byte too many or too few: what
  follows on each stream, in whatever pieces it arrives, is what the loops of the session start
  with.\<close>

theorem borrow_handshake:
  assumes "alloc_ok al" and "stream_reader rd strm" and "ring_ok rs" and "ring_ok rc"
    and "open_dev dev_id = Inr spd" and "data_rate_of_speed spd = Ret rate"
    and "request = req_frame_as_bytes rf \<lparr>rf_version = QUSB_VER, rf_req = ReqBorrowDevice [0] dev_id\<rparr>"
    and "response = resp_as_bytes (RespBorrowDevice rate (replicate 6 0))"
    and "r_buf rs @ strm sx = request @ up" and "r_buf rc @ strm cx = response @ down"
  shows "(\<exists>rs' sx'. accept_stream rf al rd writes open_dev rs sx =
        Ret ((Inr (SrvBorrowDevice dev_id), response), rs', sx') \<and> r_buf rs' @ strm sx' = up) \<and>
      (\<exists>rc' cx'. req_borrow rf al rd writes dev_id rc cx =
        Ret ((Inr rate, request), rc', cx') \<and> r_buf rc' @ strm cx' = down)"
proof
  let ?f = "\<lparr>rf_version = QUSB_VER, rf_req = ReqBorrowDevice [0] dev_id\<rparr>"
  show "\<exists>rs' sx'. accept_stream rf al rd writes open_dev rs sx =
      Ret ((Inr (SrvBorrowDevice dev_id), response), rs', sx') \<and> r_buf rs' @ strm sx' = up"
    using accept_stream_req [OF assms(1-3), of ?f sx rf up writes open_dev] assms
    by (simp add: accept_req_def)
  show "\<exists>rc' cx'. req_borrow rf al rd writes dev_id rc cx =
      Ret ((Inr rate, request), rc', cx') \<and> r_buf rc' @ strm cx' = down"
    using req_borrow_resp [of al rd strm rc "RespBorrowDevice rate (replicate 6 0)" cx down rf dev_id] assms
    by auto
qed

definition dev_3_7 :: usb_device_id where
  "dev_3_7 = \<lparr>bus_number = 3, device_addr = 7\<rparr>"

lemma replicate_4: "replicate 4 x = [x, x, x, x]"
  by (simp add: numeral_eq_Suc)

lemma request_bytes:
  "req_frame_as_bytes False \<lparr>rf_version = QUSB_VER, rf_req = ReqBorrowDevice [0] dev_3_7\<rparr> = [0, 4, 0, 0, 1, 0, 3, 7]"
  "req_frame_as_bytes True \<lparr>rf_version = QUSB_VER, rf_req = ReqLendDevice RateFull dev_3_7\<rparr> = [2, 1, 3, 7, 0, 4, 0, 0]"
  "replicate 6 x = [x, x, x, x, x, x]" "replicate 7 x = [x, x, x, x, x, x, x]"
  by (simp_all add: req_frame_as_bytes_def version_as_bytes_def QUSB_VER_def dev_id_as_bytes_def le16_def
      dev_3_7_def numeral_eq_Suc)

theorem borrow_handshake_witness:
  "\<exists>rc' cx'. req_borrow False exact_alloc (chunk_reader 3) writes dev_3_7 (ring_with_capacity 0 0)
      [1, 2, 0, 0, 0, 0, 0, 0, 42] =
    Ret ((Inr RateHigh, [0, 4, 0, 0, 1, 0, 3, 7]), rc', cx') \<and> r_buf rc' @ cx' = [42]"
  by (rule borrow_handshake [where strm = id and rs = "ring_with_capacity 0 0" and open_dev = "\<lambda>_. Inr RS_Super" and spd = RS_Super
        and response = "[1, 2, 0, 0, 0, 0, 0, 0]" and sx = "[0, 4, 0, 0, 1, 0, 3, 7]" and up = "[]",
        THEN conjunct2, unfolded id_apply])
    (simp_all add: request_bytes chunk_reader_ok [unfolded id_def])

text \<open>Lending agrees as well: the answering side learns the device and the rate that the asking
  side found when it opened the device, and the asking side sees the request accepted. Again both
  streams are read up to the first byte of the session.\<close>

theorem lend_handshake:
  assumes "alloc_ok al" and "stream_reader rd strm" and "ring_ok rs" and "ring_ok rc"
    and "open_dev dev_id = Inr spd" and "data_rate_of_speed spd = Ret rate"
    and "request = req_frame_as_bytes rf \<lparr>rf_version = QUSB_VER, rf_req = ReqLendDevice rate dev_id\<rparr>"
    and "response = resp_as_bytes (RespLendDevice (replicate 7 0))"
    and "r_buf rs @ strm sx = request @ up" and "r_buf rc @ strm cx = response @ down"
  shows "(\<exists>rs' sx'. accept_stream rf al rd writes other rs sx =
        Ret ((Inr (SrvLendDevice rate dev_id), response), rs', sx') \<and> r_buf rs' @ strm sx' = up) \<and>
      (\<exists>rc' cx'. req_lend rf al rd writes open_dev dev_id rc cx =
        Ret ((Inr (), request), rc', cx') \<and> r_buf rc' @ strm cx' = down)"
proof
  let ?f = "\<lparr>rf_version = QUSB_VER, rf_req = ReqLendDevice rate dev_id\<rparr>"
  show "\<exists>rs' sx'. accept_stream rf al rd writes other rs sx =
      Ret ((Inr (SrvLendDevice rate dev_id), response), rs', sx') \<and> r_buf rs' @ strm sx' = up"
    using accept_stream_req [OF assms(1-3), of ?f sx rf up writes other] assms
    by (simp add: accept_req_def)
  show "\<exists>rc' cx'. req_lend rf al rd writes open_dev dev_id rc cx =
      Ret ((Inr (), request), rc', cx') \<and> r_buf rc' @ strm cx' = down"
    using req_lend_resp [of al rd strm rc "RespLendDevice (replicate 7 0)" cx down open_dev dev_id spd rate rf] assms
    by auto
qed

theorem lend_handshake_witness:
  "\<exists>rs' sx'. accept_stream True exact_alloc (chunk_reader 5) writes (\<lambda>_. Inl RE_Io) (ring_with_capacity 0 0)
      [2, 1, 3, 7, 0, 4, 0, 0, 42] =
    Ret ((Inr (SrvLendDevice RateFull dev_3_7), [2, 0, 0, 0, 0, 0, 0, 0]), rs', sx') \<and> r_buf rs' @ sx' = [42]"
  by (rule lend_handshake [where strm = id and rc = "ring_with_capacity 0 0" and open_dev = "\<lambda>_. Inr RS_Full" and spd = RS_Full
        and request = "[2, 1, 3, 7, 0, 4, 0, 0]" and cx = "[2, 0, 0, 0, 0, 0, 0, 0]" and down = "[]",
        THEN conjunct1, unfolded id_apply])
    (simp_all add: request_bytes chunk_reader_ok [unfolded id_def])

text \<open>A device that is gone or busy is refused, and both sides end with the same error: the device
  was not found, or the resource is busy. Neither side panics.\<close>

theorem borrow_refused:
  assumes "alloc_ok al" and "stream_reader rd strm" and "ring_ok rs" and "ring_ok rc"
    and "open_dev dev_id = Inl err" and "err \<in> {RE_NoDevice, RE_NotFound, RE_Busy}"
    and "request = req_frame_as_bytes rf \<lparr>rf_version = QUSB_VER, rf_req = ReqBorrowDevice [0] dev_id\<rparr>"
    and "response = resp_as_bytes (RespFailure (status_from_rusb err) (NoVersion (replicate 4 0)))"
    and "r_buf rs @ strm sx = request @ up" and "r_buf rc @ strm cx = response @ down"
  shows "\<exists>e rs' sx' rc' cx'. e \<in> {DevNotFound dev_id, Network ResourceBusy} \<and>
      accept_stream rf al rd writes open_dev rs sx = Ret ((Inl e, response), rs', sx') \<and>
      req_borrow rf al rd writes dev_id rc cx = Ret ((Inl e, request), rc', cx')"
proof -
  let ?f = "\<lparr>rf_version = QUSB_VER, rf_req = ReqBorrowDevice [0] dev_id\<rparr>"
  let ?r = "RespFailure (status_from_rusb err) (NoVersion (replicate 4 0))"
  obtain e where e: "e \<in> {DevNotFound dev_id, Network ResourceBusy}" "from_rusb_error err dev_id = Ret e"
    "refusal dev_id ?r = Ret e"
    using assms(6) unfolding refusal_of_open by auto
  have "\<exists>rs' sx'. accept_stream rf al rd writes open_dev rs sx = Ret ((Inl e, response), rs', sx')"
    using accept_stream_req [OF assms(1-3), of ?f sx rf up writes open_dev] assms(5,7-9) e(2)
    by (auto simp: accept_req_def)
  moreover have "\<exists>rc' cx'. req_borrow rf al rd writes dev_id rc cx = Ret ((Inl e, request), rc', cx')"
    using req_borrow_resp [of al rd strm rc ?r cx down rf dev_id] assms(1,2,4,7,8,10) e(3) by auto
  ultimately show ?thesis using e(1) by blast
qed

theorem borrow_refused_witness:
  "\<exists>e rs' sx' rc' cx'. e \<in> {DevNotFound dev_3_7, Network ResourceBusy} \<and>
    accept_stream False exact_alloc (chunk_reader 3) writes (\<lambda>_. Inl RE_Busy) (ring_with_capacity 0 0)
      [0, 4, 0, 0, 1, 0, 3, 7] = Ret ((Inl e, [3, 2, 1, 0, 0, 0, 0, 0]), rs', sx') \<and>
    req_borrow False exact_alloc (chunk_reader 3) writes dev_3_7 (ring_with_capacity 0 0)
      [3, 2, 1, 0, 0, 0, 0, 0] = Ret ((Inl e, [0, 4, 0, 0, 1, 0, 3, 7]), rc', cx')"
  by (rule borrow_refused [where strm = id and err = RE_Busy and up = "[]" and down = "[]"])
    (simp_all add: request_bytes replicate_4 le16_def chunk_reader_ok [unfolded id_def])

text \<open>C35. Every other failure to open the device panics a side: the one that answers, for an I/O
  error, an overflow or a bad descriptor, or else the one that asks, which is sent a status that it
  does not expect. A peer that may not access its device thus panics the peer that asks for it.\<close>

theorem refusal_panics:
  assumes "alloc_ok al" and "stream_reader rd strm" and "ring_ok rs" and "ring_ok rc"
    and "open_dev dev_id = Inl err" and "err \<notin> {RE_NoDevice, RE_NotFound, RE_Busy}"
    and "request = req_frame_as_bytes rf \<lparr>rf_version = QUSB_VER, rf_req = ReqBorrowDevice [0] dev_id\<rparr>"
    and "response = resp_as_bytes (RespFailure (status_from_rusb err) (NoVersion (replicate 4 0)))"
    and "r_buf rs @ strm sx = request @ up" and "r_buf rc @ strm cx = response @ down"
  shows "if err \<in> {RE_Io, RE_Overflow, RE_BadDescriptor}
     then accept_stream rf al rd writes open_dev rs sx = Panic
     else (\<exists>e rs' sx'. accept_stream rf al rd writes open_dev rs sx = Ret ((Inl e, response), rs', sx')) \<and>
       req_borrow rf al rd writes dev_id rc cx = Panic"
proof -
  let ?f = "\<lparr>rf_version = QUSB_VER, rf_req = ReqBorrowDevice [0] dev_id\<rparr>"
  let ?r = "RespFailure (status_from_rusb err) (NoVersion (replicate 4 0))"
  obtain rs' sx' where s: "accept_stream rf al rd writes open_dev rs sx =
      rbind (accept_req writes open_dev ?f) (\<lambda>a. Ret (a, rs', sx'))"
    using accept_stream_req [OF assms(1-3), of ?f sx rf up writes open_dev] assms(7,9) by auto
  have "req_borrow rf al rd writes dev_id rc cx = Panic"
    using req_borrow_resp [of al rd strm rc ?r cx down rf dev_id] assms(1,2,4,6,8,10)
    by (auto simp: refusal_of_open)
  moreover have "err \<in> {RE_Io, RE_Overflow, RE_BadDescriptor} \<Longrightarrow> from_rusb_error err dev_id = Panic"
    by auto
  moreover have "err \<notin> {RE_Io, RE_Overflow, RE_BadDescriptor} \<Longrightarrow> \<exists>e. from_rusb_error err dev_id = Ret e"
    by (cases err) simp_all
  ultimately show ?thesis
    using s assms(5,8) by (auto simp: accept_req_def)
qed

theorem refusal_panics_witness:
  "req_borrow False exact_alloc (chunk_reader 3) writes dev_3_7 (ring_with_capacity 0 0)
     [3, 1, 1, 0, 0, 0, 0, 0] = Panic"
  using refusal_panics [of exact_alloc "chunk_reader 3" id "ring_with_capacity 0 0" "ring_with_capacity 0 0"
      "\<lambda>_. Inl RE_Access" dev_3_7 RE_Access "[0, 4, 0, 0, 1, 0, 3, 7]" False "[3, 1, 1, 0, 0, 0, 0, 0]"
      "[0, 4, 0, 0, 1, 0, 3, 7]" "[]" "[3, 1, 1, 0, 0, 0, 0, 0]" "[]"]
  by (simp add: request_bytes le16_def replicate_4)

text \<open>When the protocol versions of the peers are not compatible, each learns the version of the
  other: the answering side from the request, whatever is requested, and the asking side from the
  response, for borrowing and for lending.\<close>

theorem versions_told:
  assumes "alloc_ok al" and "stream_reader rd strm" and "ring_ok rs" and "ring_ok rc"
    and "\<not> is_compat (rf_version f) QUSB_VER" and "wf_req (rf_req f)"
    and "open_dev dev_id = Inr spd" and "data_rate_of_speed spd = Ret rate"
    and "response = resp_as_bytes (RespFailure VersionMismatch (SomeVersion theirs))"
    and "r_buf rs @ strm sx = req_frame_as_bytes rf f @ up" and "r_buf rc @ strm cx = response @ down"
  shows "(\<exists>rs' sx'. accept_stream rf al rd writes open_dev rs sx =
        Ret ((Inl (VersionErr (rf_version f)),
          resp_as_bytes (RespFailure VersionMismatch (SomeVersion QUSB_VER))), rs', sx')) \<and>
      (\<exists>sent rc' cx'. req_borrow rf al rd writes dev_id rc cx = Ret ((Inl (VersionErr theirs), sent), rc', cx')) \<and>
      (\<exists>sent rc' cx'. req_lend rf al rd writes open_dev dev_id rc cx = Ret ((Inl (VersionErr theirs), sent), rc', cx'))"
  using accept_stream_req [OF assms(1-3,6,10), of writes open_dev]
    req_borrow_resp [of al rd strm rc "RespFailure VersionMismatch (SomeVersion theirs)" cx down rf dev_id]
    req_lend_resp [of al rd strm rc "RespFailure VersionMismatch (SomeVersion theirs)" cx down open_dev dev_id spd rate rf]
    assms(1,2,4,5,7-9,11)
  by (auto simp: accept_req_def)

theorem versions_told_witness:
  "\<exists>sent rc' cx'. req_borrow False exact_alloc (chunk_reader 3) writes dev_3_7 (ring_with_capacity 0 0)
     [3, 6, 0, 0, 0, 3, 0, 0] = Ret ((Inl (VersionErr \<lparr>major = 0, minor = 3, patch = 0\<rparr>), sent), rc', cx')"
  by (rule versions_told [where strm = id and rs = "ring_with_capacity 0 0" and spd = RS_Low and rate = RateLow
        and f = "\<lparr>rf_version = \<lparr>major = 1, minor = 0, patch = 0\<rparr>, rf_req = ReqListDevices [0, 0, 0]\<rparr>"
        and open_dev = "\<lambda>_. Inr RS_Low" and up = "[]" and down = "[]"
        and sx = "req_frame_as_bytes False \<lparr>rf_version = \<lparr>major = 1, minor = 0, patch = 0\<rparr>, rf_req = ReqListDevices [0, 0, 0]\<rparr>",
        THEN conjunct2, THEN conjunct1])
    (simp_all add: is_compat_def QUSB_VER_def version_as_bytes_def le16_def)

text \<open>A stream that ends within the eight bytes of the request panics the side that answers, and
  one that ends within those of the response panics the side that asks.\<close>

theorem short_stream_panics:
  assumes "alloc_ok al" and "stream_reader rd strm" and "ring_ok r" and "length (r_buf r @ strm rx) < 8"
  shows "accept_stream rf al rd wr open_dev r rx = Panic \<and>
    req_borrow rf al rd writes dev_id r rx = Panic"
proof -
  obtain res r' rx' where f: "fill_until al rd 8 r rx = (Inr res, r', rx')"
    and b: "r_buf r' @ strm rx' = r_buf r @ strm rx"
    using fill_until_spec [OF assms(1-3), of 8 rx] by blast
  from b assms(4) have "length (r_buf r') < 8" by (metis length_append le_add1 le_less_trans)
  then show ?thesis
    by (simp add: accept_stream_def req_borrow_def await_resp_def f ring_read_def ring_len_def)
qed

theorem short_stream_panics_witness:
  "req_borrow False exact_alloc (chunk_reader 3) writes dev_3_7 (ring_with_capacity 0 0) [1, 2, 0] = Panic"
  using short_stream_panics [of exact_alloc "chunk_reader 3" id "ring_with_capacity 0 0" "[1, 2, 0]" False] by simp

end
