(* ===== verification/Device_List.thy ===== *)
theory Device_List
  imports Session
begin

text \<open>
  The list of devices: how \<^verbatim>\<open>get_usb_devices\<close> of \<^verbatim>\<open>crates/qusb/src/lib.rs\<close> describes a device,
  the layout of \<^verbatim>\<open>UsbDeviceInfo\<close> in \<^verbatim>\<open>qusb-proto/src/msg.rs\<close>, and how the asking side walks
  through the list that it received. What the crate \<^verbatim>\<open>nusb\<close> reports of a device is the record
  \<open>nusb_device\<close>.
\<close>

section \<open>Layout\<close>

definition PATH_MAX_LEN :: nat where "PATH_MAX_LEN = 256"
definition BUS_ID_MAX_LEN :: nat where "BUS_ID_MAX_LEN = 32"

record iface_info =
  b_interface_number :: u8
  b_interface_class :: u8
  b_interface_subclass :: u8
  b_interface_protocol :: u8

definition iface_as_bytes :: "iface_info \<Rightarrow> bytes" where
  "iface_as_bytes i = [b_interface_number i, b_interface_class i, b_interface_subclass i, b_interface_protocol i]"

fun iface_from_bytes :: "bytes \<Rightarrow> iface_info option" where
  "iface_from_bytes [n, c, s, p] = Some \<lparr>b_interface_number = n, b_interface_class = c,
     b_interface_subclass = s, b_interface_protocol = p\<rparr>"
| "iface_from_bytes _ = None"

record device_header =
  dh_path :: bytes
  dh_bus_id :: bytes
  path_len :: u16
  id_vendor :: u16
  id_product :: u16
  bcd_device :: u16
  bus_id_len :: u8
  busnum :: u8
  devnum :: u8
  dh_speed :: speed
  b_device_class :: u8
  b_device_subclass :: u8
  b_device_protocol :: u8
  b_configuration_value :: u8
  b_num_configurations :: u8
  b_num_interfaces :: u8
  padded_num_interfaces :: u8
  dh_padding :: bytes

definition device_header_as_bytes :: "device_header \<Rightarrow> bytes" where
  "device_header_as_bytes h =
     dh_path h @ dh_bus_id h @ le16 (path_len h) @ le16 (id_vendor h) @ le16 (id_product h) @
     le16 (bcd_device h) @ [bus_id_len h, busnum h, devnum h, speed_to_u8 (dh_speed h),
       b_device_class h, b_device_subclass h, b_device_protocol h, b_configuration_value h,
       b_num_configurations h, b_num_interfaces h, padded_num_interfaces h] @ dh_padding h"

text \<open>The fields behind the two arrays.\<close>

fun device_fields :: "bytes \<Rightarrow> bytes \<Rightarrow> bytes \<Rightarrow> device_header option" where
  "device_fields p b (l0 # l1 # v0 # v1 # p0 # p1 # d0 # d1 # bl # bn # dn # sp # cl # sc # pr # cv # nc # ni # pn # pad) =
     (case speed_of_u8 sp of
        None \<Rightarrow> None
      | Some speed \<Rightarrow>
          if length pad = 5 then
            Some \<lparr>dh_path = p, dh_bus_id = b, path_len = un16 l0 l1, id_vendor = un16 v0 v1,
              id_product = un16 p0 p1, bcd_device = un16 d0 d1, bus_id_len = bl, busnum = bn, devnum = dn,
              dh_speed = speed, b_device_class = cl, b_device_subclass = sc, b_device_protocol = pr,
              b_configuration_value = cv, b_num_configurations = nc, b_num_interfaces = ni,
              padded_num_interfaces = pn, dh_padding = pad\<rparr>
          else None)"
| "device_fields _ _ _ = None"

definition device_header_from_bytes :: "bytes \<Rightarrow> device_header option" where
  "device_header_from_bytes bs =
     (if length bs < 288 then None
      else device_fields (take PATH_MAX_LEN bs) (take BUS_ID_MAX_LEN (drop PATH_MAX_LEN bs)) (drop 288 bs))"

definition DEVICE_HEADER_SIZE :: nat where "DEVICE_HEADER_SIZE = 312"

text \<open>The position of \<^verbatim>\<open>padded_num_interfaces\<close>.\<close>

definition LEN_OFFSET :: nat where "LEN_OFFSET = 306"

definition device_get_slice_len :: "bytes \<Rightarrow> slice_len_err + nat" where
  "device_get_slice_len bs =
     (if length bs < DEVICE_HEADER_SIZE then Inl (SliceBufferShort (DEVICE_HEADER_SIZE - length bs))
      else
        let padded_len = unat (bs ! LEN_OFFSET); size_of_t = padded_len * 4 + DEVICE_HEADER_SIZE
        in if length bs < size_of_t then Inl (SliceBufferShort (size_of_t - length bs)) else Inr padded_len)"

definition usb_device_info :: trait_dst where
  "usb_device_info = \<lparr>size_of_header = DEVICE_HEADER_SIZE, align_of = 2, size_of_data = 4,
     header_valid = (\<lambda>bs. device_header_from_bytes bs \<noteq> None),
     get_slice_len = (\<lambda>_ _ bs. Ret (device_get_slice_len bs))\<rparr>"

text \<open>A received device: its header and its interfaces, with the one that only pads.\<close>

definition device_info_of :: "bytes \<Rightarrow> (device_header \<times> iface_info list) option" where
  "device_info_of bs =
     map_option (\<lambda>h. (h, ring_iter 4 iface_from_bytes (drop DEVICE_HEADER_SIZE bs)))
       (device_header_from_bytes (take DEVICE_HEADER_SIZE bs))"

definition device_path :: "device_header \<Rightarrow> bytes option" where
  "device_path h = (if unat (path_len h) \<le> length (dh_path h) then Some (take (unat (path_len h)) (dh_path h)) else None)"

definition device_bus_id :: "device_header \<Rightarrow> bytes option" where
  "device_bus_id h =
     (if unat (bus_id_len h) \<le> length (dh_bus_id h) then Some (take (unat (bus_id_len h)) (dh_bus_id h)) else None)"

section \<open>Describing a device\<close>

record nusb_device =
  nd_opened :: "(u8 option \<times> nat) option"
  nd_interfaces :: "iface_info list"
  nd_path :: bytes
  nd_file_name :: "bytes option"
  nd_bus_number :: u8
  nd_address :: u8
  nd_speed :: "u8 option"
  nd_vendor_id :: u16
  nd_product_id :: u16
  nd_version :: u16
  nd_class :: u8
  nd_subclass :: u8
  nd_protocol :: u8

type_synonym device_wrapper = "device_header \<times> iface_info list"

definition no_iface :: iface_info where
  "no_iface = \<lparr>b_interface_number = 0, b_interface_class = 0, b_interface_subclass = 0, b_interface_protocol = 0\<rparr>"

definition u8_try_from :: "nat \<Rightarrow> u8 run" where
  "u8_try_from n = (if n < 256 then Ret (word_of_nat n) else Panic)"

text \<open>\<^verbatim>\<open>try_from(len).unwrap_or_default().clamp(0, max)\<close>, and an array filled from a slice.\<close>

definition clamped_len :: "nat \<Rightarrow> nat \<Rightarrow> nat \<Rightarrow> 'w :: len word" where
  "clamped_len bound most len = word_of_nat (min (if len < bound then len else 0) most)"

definition array_from :: "nat \<Rightarrow> bytes \<Rightarrow> bytes" where
  "array_from n bs = take n bs @ replicate (n - length bs) 0"

definition pad_ifaces :: "iface_info list \<Rightarrow> iface_info list" where
  "pad_ifaces is = is @ (if length is mod 2 = 1 then [no_iface] else [])"

text \<open>\<open>None\<close>: the device is skipped. \<open>nd_opened\<close> has the active configuration and their number.\<close>

definition wrap_device :: "nusb_device \<Rightarrow> device_wrapper option run" where
  "wrap_device nd =
     (case nd_opened nd of
        None \<Rightarrow> Ret None
      | Some (active, num_configs) \<Rightarrow>
          rbind (u8_try_from (length (nd_interfaces nd))) (\<lambda>n.
            let ifaces = pad_ifaces (nd_interfaces nd)
            in case nd_file_name nd of
              None \<Rightarrow> Ret None
            | Some name \<Rightarrow>
                rbind (u8_try_from (length ifaces)) (\<lambda>padded.
                  Ret (Some (\<lparr>dh_path = array_from PATH_MAX_LEN (nd_path nd),
                    dh_bus_id = array_from BUS_ID_MAX_LEN name,
                    path_len = clamped_len 65536 PATH_MAX_LEN (length (nd_path nd)),
                    id_vendor = nd_vendor_id nd, id_product = nd_product_id nd, bcd_device = nd_version nd,
                    bus_id_len = clamped_len 256 BUS_ID_MAX_LEN (length name),
                    busnum = nd_bus_number nd, devnum = nd_address nd,
                    dh_speed = (case nd_speed nd of None \<Rightarrow> SpUnknown | Some s \<Rightarrow> speed_from_u8 s),
                    b_device_class = nd_class nd, b_device_subclass = nd_subclass nd,
                    b_device_protocol = nd_protocol nd,
                    b_configuration_value = (case active of None \<Rightarrow> 0 | Some c \<Rightarrow> c),
                    b_num_configurations = word_of_nat num_configs, b_num_interfaces = n,
                    padded_num_interfaces = padded, dh_padding = replicate 5 0\<rparr>, ifaces)))))"

definition wrapper_interfaces :: "device_wrapper \<Rightarrow> iface_info list" where
  "wrapper_interfaces w = take (unat (b_num_interfaces (fst w))) (snd w)"

fun wrap_devices :: "nusb_device list \<Rightarrow> device_wrapper list run" where
  "wrap_devices [] = Ret []"
| "wrap_devices (nd # nds) =
     rbind (wrap_device nd) (\<lambda>w. rbind (wrap_devices nds) (\<lambda>ws.
       Ret (case w of None \<Rightarrow> ws | Some x \<Rightarrow> x # ws)))"

definition wrapper_as_bytes :: "device_wrapper \<Rightarrow> bytes" where
  "wrapper_as_bytes w = device_header_as_bytes (fst w) @ concat (map iface_as_bytes (snd w))"

text \<open>Answering the request: the devices are described while the list is sent.\<close>

definition serve_device_list :: "write_op \<Rightarrow> io_error + nusb_device list \<Rightarrow> unit answer run" where
  "serve_device_list wr devices =
     (case devices of
        Inl err \<Rightarrow> Ret (send_device_list wr (Inl err))
      | Inr nds \<Rightarrow> rbind (wrap_devices nds) (\<lambda>ws. Ret (send_device_list wr (Inr (map wrapper_as_bytes ws)))))"

section \<open>Facts: layouts\<close>

definition wf_header :: "device_header \<Rightarrow> bool" where
  "wf_header h \<longleftrightarrow> length (dh_path h) = PATH_MAX_LEN \<and> length (dh_bus_id h) = BUS_ID_MAX_LEN \<and> length (dh_padding h) = 5"

text \<open>A description that fits on the wire: the padded number of interfaces is the number sent.\<close>

definition wf_device :: "device_wrapper \<Rightarrow> bool" where
  "wf_device w \<longleftrightarrow> wf_header (fst w) \<and> unat (padded_num_interfaces (fst w)) = length (snd w)"

lemma speed_from_to [simp]: "speed_of_u8 (speed_to_u8 s) = Some s"
  by (rule speed_enum.of_to)

interpretation iface_layout: layout iface_as_bytes iface_from_bytes 4 "\<lambda>_. True"
proof unfold_locales
  fix bs i
  assume "iface_from_bytes bs = Some i"
  then show "True \<and> iface_as_bytes i = bs"
    by (cases bs rule: iface_from_bytes.cases) (auto simp: iface_as_bytes_def)
qed (simp_all add: iface_as_bytes_def)

interpretation device_header_layout:
  layout device_header_as_bytes device_header_from_bytes DEVICE_HEADER_SIZE wf_header
proof unfold_locales
  fix h
  assume wf: "wf_header h"
  then show "length (device_header_as_bytes h) = DEVICE_HEADER_SIZE"
    by (simp add: wf_header_def device_header_as_bytes_def DEVICE_HEADER_SIZE_def PATH_MAX_LEN_def BUS_ID_MAX_LEN_def le16_def)
  from wf show "device_header_from_bytes (device_header_as_bytes h) = Some h"
    by (simp add: wf_header_def device_header_as_bytes_def device_header_from_bytes_def PATH_MAX_LEN_def
        BUS_ID_MAX_LEN_def le16_def)
next
  fix bs h
  assume a: "device_header_from_bytes bs = Some h"
  then have len: "288 \<le> length bs" by (auto simp: device_header_from_bytes_def split: if_splits)
  let ?p = "take 256 bs" and ?b = "take 32 (drop 256 bs)" and ?t = "drop 288 bs"
  have "?b @ ?t = drop 256 bs" using append_take_drop_id [of 32 "drop 256 bs"] by simp
  then have bs: "bs = ?p @ ?b @ ?t" by simp
  from a have f: "device_fields ?p ?b ?t = Some h"
    using len by (simp add: device_header_from_bytes_def PATH_MAX_LEN_def BUS_ID_MAX_LEN_def)
  have "wf_header h \<and> device_header_as_bytes h = ?p @ ?b @ ?t"
    using f len
    by (cases "(?p, ?b, ?t)" rule: device_fields.cases)
      (auto simp: wf_header_def device_header_as_bytes_def PATH_MAX_LEN_def BUS_ID_MAX_LEN_def
        dest: enum_to_of split: option.splits if_splits)
  then show "wf_header h \<and> device_header_as_bytes h = bs" using bs by simp
qed

section \<open>Facts: walking through the list\<close>

lemma length_wrapper: "wf_device w \<Longrightarrow> length (wrapper_as_bytes w) = DEVICE_HEADER_SIZE + 4 * length (snd w)"
  using iface_layout.length_enc device_header_layout.length_enc
  by (simp add: wf_device_def wrapper_as_bytes_def length_concat comp_def sum_list_triv)

lemma wrapper_len_field:
  assumes "wf_device w"
  shows "(wrapper_as_bytes w @ rest) ! LEN_OFFSET = padded_num_interfaces (fst w)"
  using assms by (simp add: wf_device_def wf_header_def wrapper_as_bytes_def device_header_as_bytes_def nth_append
      LEN_OFFSET_def PATH_MAX_LEN_def BUS_ID_MAX_LEN_def le16_def)

lemma device_slice_len:
  assumes "wf_device w"
  shows "device_get_slice_len (wrapper_as_bytes w @ rest) = Inr (length (snd w))"
  using assms length_wrapper [OF assms] wrapper_len_field [OF assms, of rest]
  by (simp add: device_get_slice_len_def Let_def wf_device_def)

lemma device_slice_short:
  assumes "wf_device w" and "wrapper_as_bytes w @ rest = bs @ tail" and "length bs < length (wrapper_as_bytes w)"
  shows "\<exists>err. device_get_slice_len bs = Inl err"
proof (cases "length bs < DEVICE_HEADER_SIZE")
  case False
  then have "bs ! LEN_OFFSET = (bs @ tail) ! LEN_OFFSET"
    by (simp add: nth_append DEVICE_HEADER_SIZE_def LEN_OFFSET_def)
  with assms wrapper_len_field [OF assms(1), of rest] length_wrapper [OF assms(1)] False show ?thesis
    by (simp add: device_get_slice_len_def Let_def wf_device_def)
qed (simp add: device_get_slice_len_def)

lemma iter_device:
  assumes "wf_device w" and "a mod 2 = 0"
  shows "iter_dst_next chk usb_device_info \<lparr>d_addr = a, d_bytes = wrapper_as_bytes w @ rest\<rparr> =
    Ret (Some (wrapper_as_bytes w), \<lparr>d_addr = a + length (wrapper_as_bytes w), d_bytes = rest\<rparr>)"
proof -
  have size: "dst_size usb_device_info (length (snd w)) = length (wrapper_as_bytes w)"
    using length_wrapper [OF assms(1)] by (simp add: dst_size_def usb_device_info_def DEVICE_HEADER_SIZE_def) presburger
  have "take DEVICE_HEADER_SIZE (wrapper_as_bytes w @ rest) = device_header_as_bytes (fst w)"
    using assms(1) device_header_layout.length_enc [of "fst w"] by (simp add: wf_device_def wrapper_as_bytes_def)
  then have "header_valid usb_device_info (take (size_of_header usb_device_info) (wrapper_as_bytes w @ rest))"
    using assms(1) by (simp add: usb_device_info_def wf_device_def device_header_layout.dec_enc)
  moreover have "align_of usb_device_info = 2" "get_slice_len usb_device_info = (\<lambda>_ _ bs. Ret (device_get_slice_len bs))"
    by (simp_all add: usb_device_info_def)
  ultimately show ?thesis
    using assms device_slice_len [OF assms(1), of rest] size
    by (simp add: iter_dst_next_def try_ref_from_prefix_with_elems_def)
qed

lemma iter_devices:
  assumes "\<forall>w \<in> set ws. wf_device w" and "a mod 2 = 0"
    and "bs @ tail = concat (map wrapper_as_bytes ws)" and "length ws \<le> n"
  shows "\<exists>k. iter_dst_take n chk usb_device_info \<lparr>d_addr = a, d_bytes = bs\<rparr> = Ret (map wrapper_as_bytes (take k ws)) \<and>
    (k = length ws \<or> k < length ws \<and> length bs < length (concat (map wrapper_as_bytes (take (Suc k) ws))))"
  using assms
proof (induction ws arbitrary: a bs n)
  case Nil
  then show ?case by (cases n) (simp_all add: iter_dst_next_def usb_device_info_def device_get_slice_len_def DEVICE_HEADER_SIZE_def)
next
  case (Cons w ws)
  then obtain m where n: "n = Suc m" by (cases n) auto
  let ?e = "wrapper_as_bytes w"
  show ?case
  proof (cases "length bs < length ?e")
    case True
    have "?e @ concat (map wrapper_as_bytes ws) = bs @ tail" using Cons.prems(3) by simp
    then obtain err where "device_get_slice_len bs = Inl err"
      using device_slice_short [of w _ bs tail] Cons.prems(1) True by auto
    then have "iter_dst_take n chk usb_device_info \<lparr>d_addr = a, d_bytes = bs\<rparr> = Ret []"
      by (simp add: n iter_dst_next_def usb_device_info_def)
    with True show ?thesis by (intro exI [of _ 0]) simp
  next
    case False
    with Cons.prems(3) obtain bs' where bs: "bs = ?e @ bs'" and t: "bs' @ tail = concat (map wrapper_as_bytes ws)"
      by (auto elim: append_prefixE [of bs tail "?e" "concat (map wrapper_as_bytes ws)"])
    have "wf_device w" using Cons.prems(1) by simp
    from iter_device [OF this Cons.prems(2), of chk bs'] length_wrapper [OF this]
    have it: "iter_dst_next chk usb_device_info \<lparr>d_addr = a, d_bytes = bs\<rparr> =
        Ret (Some ?e, \<lparr>d_addr = a + length ?e, d_bytes = bs'\<rparr>)" and even: "(a + length ?e) mod 2 = 0"
      using bs Cons.prems(2) by (simp_all add: DEVICE_HEADER_SIZE_def) presburger
    from Cons.IH [OF _ even t, of m] Cons.prems(1,4) n obtain k where
      "iter_dst_take m chk usb_device_info \<lparr>d_addr = a + length ?e, d_bytes = bs'\<rparr> = Ret (map wrapper_as_bytes (take k ws))"
      "k = length ws \<or> k < length ws \<and> length bs' < length (concat (map wrapper_as_bytes (take (Suc k) ws)))"
      by auto
    with it n bs show ?thesis by (intro exI [of _ "Suc k"]) auto
  qed
qed

text \<open>When filling finds the end of the stream, it has read all of it.\<close>

lemma fill_until_closed:
  assumes "alloc_ok al" and "stream_reader rd strm" and "ring_ok r"
    and "fill_until al rd n r rx = (Inr None, r', rx')"
  shows "strm rx' = []"
  using assms(3,4)
proof (induction "n - ring_len r" arbitrary: r rx rule: less_induct)
  case less
  show ?case
  proof (cases "ring_len r < n")
    case False
    with less.prems show ?thesis by (subst (asm) fill_until_step) simp
  next
    case True
    let ?r = "fill_room al n r"
    note room = fill_room_facts [OF assms(1) less.prems(1) True]
    obtain bs rx2 where bs: "rd rx (r_cap ?r - ring_len r) = (Inr bs, rx2)" "strm rx = bs @ strm rx2"
      "length bs \<le> r_cap ?r - ring_len r" "bs = [] \<Longrightarrow> strm rx = []"
      by (rule stream_readerD [OF assms(2), of "r_cap ?r - ring_len r" rx]) (use room(3) in auto)
    let ?r2 = "?r\<lparr>r_buf := r_buf r @ bs\<rparr>"
    have ok2: "ring_ok ?r2" and len2: "ring_len ?r2 = ring_len r + length bs"
      using room bs(3) by (auto simp: ring_ok_def ring_len_def)
    have step: "fill_until al rd n r rx = (if bs = [] then (Inr None, ?r2, rx2) else fill_until al rd n ?r2 rx2)"
      using True bs(1) by (subst fill_until_step) (simp add: Let_def)
    show ?thesis
    proof (cases "bs = []")
      case True
      with step less.prems(2) bs show ?thesis by simp
    next
      case False
      then have "n - ring_len ?r2 < n - ring_len r" using True len2 by (simp add: diff_less_mono2)
      from less.hyps [OF this ok2, of rx2] step less.prems(2) False show ?thesis by simp
    qed
  qed
qed

lemma device_info_of_wrapper: "wf_device w \<Longrightarrow> device_info_of (wrapper_as_bytes w) = Some w"
  using device_header_layout.length_enc [of "fst w"] iface_layout.ring_iter_enc [of "snd w"]
  by (simp add: device_info_of_def wf_device_def wrapper_as_bytes_def device_header_layout.dec_enc)

section \<open>Facts: describing devices\<close>

lemma unat_clamped: "most < bound \<Longrightarrow> bound \<le> 2 ^ LENGTH('w) \<Longrightarrow>
    unat (clamped_len bound most len :: 'w :: len word) = min (if len < bound then len else 0) most"
  by (simp add: clamped_len_def unat_of_nat take_bit_nat_eq_self)

lemma length_array_from [simp]: "length (array_from n bs) = n"
  by (simp add: array_from_def)

lemma even_pad_ifaces: "even (length (pad_ifaces is))"
proof (cases "even (length is)")
  case False
  then show ?thesis by (simp add: pad_ifaces_def odd_iff_mod_2_eq_one)
qed (simp add: pad_ifaces_def even_iff_mod_2_eq_zero)

lemma u8_try_from_Ret: "u8_try_from n = Ret x \<longleftrightarrow> n < 256 \<and> x = word_of_nat n"
  by (auto simp: u8_try_from_def)

lemma take_array_from: "n \<le> most \<Longrightarrow> n \<le> length bs \<Longrightarrow> take n (array_from most bs) = take n bs"
  by (simp add: array_from_def)

lemma wrap_device_Some:
  assumes "wrap_device nd = Ret (Some w)"
  obtains name where "nd_file_name nd = Some name"
    and "snd w = pad_ifaces (nd_interfaces nd)" and "length (snd w) < 256" and "unat (b_num_interfaces (fst w)) = length (nd_interfaces nd)"
    and "unat (padded_num_interfaces (fst w)) = length (snd w)" and "wf_header (fst w)"
    and "path_len (fst w) = clamped_len 65536 PATH_MAX_LEN (length (nd_path nd))"
    and "dh_path (fst w) = array_from PATH_MAX_LEN (nd_path nd)"
    and "bus_id_len (fst w) = clamped_len 256 BUS_ID_MAX_LEN (length name)"
    and "dh_bus_id (fst w) = array_from BUS_ID_MAX_LEN name"
  using assms
  by (auto simp: wrap_device_def rbind_eq_Ret u8_try_from_Ret Let_def wf_header_def unat_of_nat take_bit_nat_eq_self
      split: option.splits prod.splits)

lemma wrap_device_wf:
  assumes "wrap_device nd = Ret (Some w)"
  shows "wf_device w" and "even (length (snd w))" and "length (snd w) \<le> 255"
  by (rule wrap_device_Some [OF assms]; force simp: wf_device_def even_pad_ifaces)+

section \<open>Properties\<close>

text \<open>C19. What is sent for a device has the type that the receiver expects: the header has the size of its
  fields, the number of interfaces that it announces is the number that follows, an even one so that
  the next device is aligned, and the interfaces without the padding are those of the device. The
  path and the bus id can be read back; they are cut at the size of their arrays.\<close>

theorem device_wrapper_wf:
  assumes "wrap_device nd = Ret (Some w)"
  shows "wf_device w \<and> even (length (snd w)) \<and> wrapper_interfaces w = nd_interfaces nd \<and>
    (length (nd_path nd) < 65536 \<longrightarrow> device_path (fst w) = Some (take PATH_MAX_LEN (nd_path nd))) \<and>
    (\<forall>name. nd_file_name nd = Some name \<and> length name < 256 \<longrightarrow>
      device_bus_id (fst w) = Some (take BUS_ID_MAX_LEN name))"
proof -
  from assms obtain name where w: "nd_file_name nd = Some name"
    "snd w = pad_ifaces (nd_interfaces nd)"
    "unat (b_num_interfaces (fst w)) = length (nd_interfaces nd)"
    "unat (padded_num_interfaces (fst w)) = length (snd w)" "wf_header (fst w)"
    "path_len (fst w) = clamped_len 65536 PATH_MAX_LEN (length (nd_path nd))"
    "dh_path (fst w) = array_from PATH_MAX_LEN (nd_path nd)"
    "bus_id_len (fst w) = clamped_len 256 BUS_ID_MAX_LEN (length name)"
    "dh_bus_id (fst w) = array_from BUS_ID_MAX_LEN name"
    by (rule wrap_device_Some)
  have "device_path (fst w) = Some (take PATH_MAX_LEN (nd_path nd))" if "length (nd_path nd) < 65536"
    using that w by (simp add: device_path_def unat_clamped take_array_from PATH_MAX_LEN_def min_def)
  moreover have "device_bus_id (fst w) = Some (take BUS_ID_MAX_LEN name)" if "length name < 256"
    using that w by (simp add: device_bus_id_def unat_clamped take_array_from BUS_ID_MAX_LEN_def min_def)
  moreover have "wrapper_interfaces w = nd_interfaces nd"
    using w(2,3) by (simp add: wrapper_interfaces_def pad_ifaces_def)
  ultimately show ?thesis using w(1) wrap_device_wf [OF assms] by simp
qed

text \<open>C13. The list arrives: the asking side walks through exactly the devices that the answering side
  sent, in order, when they fit in the 8192 bytes that it waits for, whatever pieces they arrive in.
  A longer list is cut: what is missing is a tail of it that starts beyond these bytes.\<close>

theorem device_list_arrives:
  assumes "alloc_ok al" and "stream_reader rd strm" and "ring_ok rc"
    and "\<forall>w \<in> set ws. wf_device w" and "send_device_list writes (Inr (map wrapper_as_bytes ws)) = (Inr (), answer)"
    and "r_buf rc @ strm cx = answer" and "length ws \<le> n"
  shows "\<exists>buf request cx' k. req_list_devices rf al rd writes rc cx = Ret ((Inr buf, request), cx') \<and>
    map_option (map device_info_of) (case iter_dst_take n chk usb_device_info \<lparr>d_addr = r_addr buf, d_bytes = r_buf buf\<rparr> of
      Ret items \<Rightarrow> Some items | _ \<Rightarrow> None) = Some (map Some (take k ws)) \<and>
    (k = length ws \<or> k < length ws \<and> LIST_LEN < 8 + length (concat (map wrapper_as_bytes (take (Suc k) ws))))"
proof -
  let ?r = "RespListDevices (replicate 7 0)" and ?list = "concat (map wrapper_as_bytes ws)"
  have ans: "r_buf rc @ strm cx = resp_as_bytes ?r @ ?list"
    using assms(5,6) by (simp add: send_device_list_def send_resp_def writes_def)
  from fill_until_spec [OF assms(1-3), of LIST_LEN cx] obtain res r' cx' where
    f: "fill_until al rd LIST_LEN rc cx = (Inr res, r', cx')" "ring_ok r'" "r_buf r' @ strm cx' = resp_as_bytes ?r @ ?list"
      "res = Some () \<longrightarrow> LIST_LEN \<le> ring_len r'"
    using ans by auto
  have all: "strm cx' = [] \<or> LIST_LEN \<le> length (r_buf r')"
    using fill_until_closed [OF assms(1-3)] f(1,4) by (cases res) (auto simp: ring_len_def)
  then have "8 \<le> length (r_buf r')" using f(3) by (auto simp: LIST_LEN_def)
  moreover have "length (resp_as_bytes ?r) = 8" by simp
  ultimately obtain rest where rest: "r_buf r' = resp_as_bytes ?r @ rest" "rest @ strm cx' = ?list"
    using f(3) by (metis append_prefixE)
  have wf: "wf_resp ?r" by simp
  let ?b = "ring_advance 8 r'"
  have rd: "ring_read 8 resp_from_bytes r' = (Inr ?r, ?b)" "r_buf ?b = rest"
    using resp_layout.ring_read_enc [OF wf rest(1)] by simp_all
  have "r_addr ?b mod 2 = 0" using f(2) by (simp add: ring_ok_def) presburger
  from iter_devices [OF assms(4) this rest(2) assms(7), of chk] obtain k where
    it: "iter_dst_take n chk usb_device_info \<lparr>d_addr = r_addr ?b, d_bytes = rest\<rparr> = Ret (map wrapper_as_bytes (take k ws))"
    and k: "k = length ws \<or> k < length ws \<and> length rest < length (concat (map wrapper_as_bytes (take (Suc k) ws)))"
    by blast
  have info: "map device_info_of (map wrapper_as_bytes (take k ws)) = map Some (take k ws)"
    using assms(4) by (auto simp: device_info_of_wrapper dest: in_set_takeD)
  have "length rest < length (concat (map wrapper_as_bytes (take (Suc k) ws))) \<Longrightarrow>
      LIST_LEN < 8 + length (concat (map wrapper_as_bytes (take (Suc k) ws)))"
  proof -
    assume l: "length rest < length (concat (map wrapper_as_bytes (take (Suc k) ws)))"
    have "strm cx' \<noteq> []"
    proof
      assume "strm cx' = []"
      then have "rest = concat (map wrapper_as_bytes (take (Suc k) ws)) @ concat (map wrapper_as_bytes (drop (Suc k) ws))"
        using rest(2) by (metis append_Nil2 append_take_drop_id concat_append map_append)
      with l show False by simp
    qed
    with all rest(1) l show ?thesis by simp
  qed
  with k rd f(1) it info show ?thesis
    by (intro exI [of _ ?b] exI [of _ "req_frame_as_bytes rf \<lparr>rf_version = QUSB_VER, rf_req = ReqListDevices (replicate 3 0)\<rparr>"]
        exI [of _ cx'] exI [of _ k]) (auto simp: req_list_devices_def)
qed

section \<open>Witnesses\<close>

definition keyboard_iface :: iface_info where
  "keyboard_iface = \<lparr>b_interface_number = 0, b_interface_class = 3, b_interface_subclass = 1, b_interface_protocol = 1\<rparr>"

text \<open>A device with one interface at \<^verbatim>\<open>/s/1-2\<close>.\<close>

definition keyboard :: nusb_device where
  "keyboard = \<lparr>nd_opened = Some (Some 1, 1), nd_interfaces = [keyboard_iface], nd_path = [47, 115, 47, 49, 45, 50],
     nd_file_name = Some [49, 45, 50], nd_bus_number = 1, nd_address = 7, nd_speed = Some 2,
     nd_vendor_id = 0x046d, nd_product_id = 0xc31c, nd_version = 0x0110, nd_class = 0, nd_subclass = 0, nd_protocol = 0\<rparr>"

lemma keyboard_wraps: "\<exists>w. wrap_device keyboard = Ret (Some w)"
  by (simp add: keyboard_def wrap_device_def u8_try_from_def pad_ifaces_def Let_def)

theorem device_wrapper_wf_witness:
  "\<exists>w. wrap_device keyboard = Ret (Some w) \<and> wrapper_interfaces w = [keyboard_iface] \<and>
    device_bus_id (fst w) = Some [49, 45, 50]"
proof -
  obtain w where w: "wrap_device keyboard = Ret (Some w)" using keyboard_wraps by blast
  from device_wrapper_wf [OF w] w show ?thesis by (auto simp: keyboard_def BUS_ID_MAX_LEN_def)
qed

theorem device_list_arrives_witness:
  "\<exists>w buf request cx'. wrap_device keyboard = Ret (Some w) \<and>
    req_list_devices True exact_alloc (chunk_reader 100) writes (ring_with_capacity 0 1024)
      (resp_as_bytes (RespListDevices (replicate 7 0)) @ wrapper_as_bytes w) = Ret ((Inr buf, request), cx') \<and>
    map_option (map device_info_of) (case iter_dst_take 1 True usb_device_info \<lparr>d_addr = r_addr buf, d_bytes = r_buf buf\<rparr> of
      Ret items \<Rightarrow> Some items | _ \<Rightarrow> None) = Some [Some w]"
proof -
  obtain w where w: "wrap_device keyboard = Ret (Some w)" using keyboard_wraps by blast
  have wf: "wf_device w" and len: "length (snd w) \<le> 255"
    using wrap_device_wf [OF w] by blast+
  have "LIST_LEN < 8 + length (wrapper_as_bytes w) \<longleftrightarrow> False"
    using length_wrapper [OF wf] len by (simp add: LIST_LEN_def DEVICE_HEADER_SIZE_def)
  then show ?thesis
    using device_list_arrives [of exact_alloc "chunk_reader 100" id "ring_with_capacity 0 1024" "[w]"
        "resp_as_bytes (RespListDevices (replicate 7 0)) @ wrapper_as_bytes w"
        "resp_as_bytes (RespListDevices (replicate 7 0)) @ wrapper_as_bytes w" 1 True True] wf w
    by (auto simp: send_device_list_def writes_def send_resp_def)
qed

end
