(* ===== verification/Server.thy ===== *)
theory Server
  imports Device_List "HOL-Library.AList" "HOL-Library.Sublist"
begin

text \<open>
  The server of \<^verbatim>\<open>crates/qusb/src/lib.rs\<close>: the task of \<^verbatim>\<open>Server::serve\<close> accepts connections and
  collects the results of the sessions; a session (\<^verbatim>\<open>ReqHandler::open_session\<close>) answers the
  requests of one connection, one after the other. They share one cancellation token and a
  channel with room for one result. Tasks interleave: each step of a task is an event, with what
  comes from outside (connections, requests, the outcome of the loops of a device) in the event.
  A session gets its number when it starts.
\<close>

section \<open>Serving one request\<close>

text \<open>
  \<^verbatim>\<open>BorrowDevice::borrow\<close> and \<^verbatim>\<open>LendDevice::lend\<close> as a whole: given the outcomes of their tasks,
  whether they have cancelled the token that they were given, and their result.
\<close>

definition borrow_session :: "io_error + port \<Rightarrow> (borrow_error + unit) run \<Rightarrow> (borrow_error + unit) run \<Rightarrow>
    io_error + unit \<Rightarrow> bool \<times> (qusb_error + unit) run" where
  "borrow_session registered recv send disconnected =
     (case registered of
        Inl err \<Rightarrow> (False, Ret (Inl (Network err)))
      | Inr _ \<Rightarrow>
          (case recv of
             Ret recv_result \<Rightarrow>
               (True, rbind send (\<lambda>send_result.
                 Ret (case disconnected of
                   Inl err \<Rightarrow> Inl (Network err)
                 | Inr _ \<Rightarrow>
                     (case send_result of
                        Inl err \<Rightarrow> Inl (from_borrow_error err)
                      | Inr _ \<Rightarrow> map_sum from_borrow_error id recv_result))))
           | _ \<Rightarrow> (False, Panic)))"

definition lend_session :: "(lend_error + unit) run \<Rightarrow> (lend_error + unit) run \<Rightarrow> bool \<times> (qusb_error + unit) run" where
  "lend_session recv send =
     (case rbind recv (\<lambda>r. rbind send (\<lambda>s. lend_result r s)) of
        Ret res \<Rightarrow> (True, Ret (map_sum from_lend_error id res))
      | _ \<Rightarrow> (False, Panic))"

datatype operation =
    OpList "unit answer run"
  | OpLend "(lend_error + unit) run" "(lend_error + unit) run"
  | OpBorrow "io_error + port" "(borrow_error + unit) run" "(borrow_error + unit) run" "io_error + unit"

fun operate :: "server_resp \<Rightarrow> operation \<Rightarrow> (bool \<times> (qusb_error + unit) run) option" where
  "operate SrvListDevices (OpList r) = Some (False, rbind r (\<lambda>a. Ret (fst a)))"
| "operate (SrvBorrowDevice _) (OpLend recv send) = Some (lend_session recv send)"
| "operate (SrvLendDevice _ _) (OpBorrow registered recv send disconnected) =
     Some (borrow_session registered recv send disconnected)"
| "operate _ _ = None"

section \<open>State\<close>

text \<open>Where a session is: waiting for its connection, for a request, for a device, or for room in the
  channel for its result.\<close>

datatype session_state = SsConnecting | SsAccepting | SsOperating server_resp | SsReporting "qusb_error + unit"

datatype server_phase = Serving | Draining | Returned

record server =
  sv_phase :: server_phase
  sv_cancelled :: bool
  sv_incoming :: bool
  sv_sessions :: "(nat \<times> session_state) list"
  sv_mail :: "(nat \<times> (qusb_error + unit)) list"
  sv_log :: "(nat \<times> (qusb_error + unit)) list"
  sv_next_id :: nat

definition server_start :: server where
  "server_start = \<lparr>sv_phase = Serving, sv_cancelled = False, sv_incoming = True, sv_sessions = [], sv_mail = [],
     sv_log = [], sv_next_id = 1\<rparr>"

definition TASK_ROOM :: nat where "TASK_ROOM = 1"

text \<open>
  The senders of the channel of results: one for each session, and the one that \<^verbatim>\<open>serve\<close> keeps
  until it has left its first loop. The stream of results ends when there is no sender.
\<close>

definition task_senders :: "server \<Rightarrow> nat" where
  "task_senders s = (if sv_phase s = Serving then 1 else 0) + length (sv_sessions s)"

definition tasks_ended :: "server \<Rightarrow> bool" where
  "tasks_ended s \<longleftrightarrow> task_senders s = 0 \<and> sv_mail s = []"

section \<open>Steps of a session\<close>

definition put_session :: "nat \<Rightarrow> session_state \<Rightarrow> server \<Rightarrow> server" where
  "put_session i st s = s\<lparr>sv_sessions := AList.update i st (sv_sessions s)\<rparr>"

text \<open>A session that panics sends no result.\<close>

definition end_session :: "nat \<Rightarrow> server \<Rightarrow> server" where
  "end_session i s = s\<lparr>sv_sessions := AList.delete i (sv_sessions s)\<rparr>"

definition next_round :: "bool \<Rightarrow> server \<Rightarrow> session_state" where
  "next_round conn_open s = (if conn_open \<and> \<not> sv_cancelled s then SsAccepting else SsReporting (Inr ()))"

definition session_connected :: "nat \<Rightarrow> bool \<Rightarrow> bool \<Rightarrow> server \<Rightarrow> server" where
  "session_connected i ok conn_open s =
     (if ok then put_session i (next_round conn_open s) s else end_session i s)"

definition session_accepted :: "nat \<Rightarrow> (qusb_error + server_resp) run \<Rightarrow> server \<Rightarrow> server" where
  "session_accepted i r s =
     (case r of
        Ret (Inr resp) \<Rightarrow> put_session i (SsOperating resp) s
      | Ret (Inl err) \<Rightarrow> put_session i (SsReporting (Inl err)) s
      | _ \<Rightarrow> end_session i s)"

definition session_operated :: "nat \<Rightarrow> bool \<times> (qusb_error + unit) run \<Rightarrow> bool \<Rightarrow> server \<Rightarrow> server" where
  "session_operated i res conn_open s =
     (let s' = s\<lparr>sv_cancelled := sv_cancelled s \<or> fst res\<rparr>
      in case snd res of
           Ret (Inr _) \<Rightarrow> put_session i (next_round conn_open s') s'
         | Ret (Inl err) \<Rightarrow> put_session i (SsReporting (Inl err)) s'
         | _ \<Rightarrow> end_session i s')"

section \<open>Steps\<close>

datatype server_event =
    EvIncoming
  | EvIncomingEnd bool
  | EvConnected nat bool bool
  | EvConnCancelled nat
  | EvAccepted nat "(qusb_error + server_resp) run"
  | EvOperated nat operation bool
  | EvReport nat
  | EvTask
  | EvLoopEnd
  | EvReturn
  | EvShutdown

text \<open>
  \<open>None\<close>: the event cannot happen in this state. No connection is accepted once the token is
  cancelled; the merged stream of the first loop ends when both connections and results have
  ended.
\<close>

fun server_step :: "server_event \<Rightarrow> server \<Rightarrow> server option" where
  "server_step EvIncoming s =
     (if sv_phase s = Serving \<and> sv_incoming s \<and> \<not> sv_cancelled s
      then Some (s\<lparr>sv_sessions := sv_sessions s @ [(sv_next_id s, SsConnecting)], sv_next_id := sv_next_id s + 1\<rparr>)
      else None)"
| "server_step (EvIncomingEnd closed) s =
     (if sv_phase s = Serving \<and> sv_incoming s \<and> (closed \<or> sv_cancelled s) then Some (s\<lparr>sv_incoming := False\<rparr>) else None)"
| "server_step (EvConnected i ok conn_open) s =
     (if map_of (sv_sessions s) i = Some SsConnecting then Some (session_connected i ok conn_open s) else None)"
| "server_step (EvConnCancelled i) s =
     (if map_of (sv_sessions s) i = Some SsConnecting \<and> sv_cancelled s
      then Some (put_session i (SsReporting (Inr ())) s) else None)"
| "server_step (EvAccepted i r) s =
     (if map_of (sv_sessions s) i = Some SsAccepting then Some (session_accepted i r s) else None)"
| "server_step (EvOperated i op conn_open) s =
     (case map_of (sv_sessions s) i of
        Some (SsOperating resp) \<Rightarrow> map_option (\<lambda>res. session_operated i res conn_open s) (operate resp op)
      | _ \<Rightarrow> None)"
| "server_step (EvReport i) s =
     (case map_of (sv_sessions s) i of
        Some (SsReporting r) \<Rightarrow>
          if length (sv_mail s) < TASK_ROOM then Some (end_session i s\<lparr>sv_mail := sv_mail s @ [(i, r)]\<rparr>) else None
      | _ \<Rightarrow> None)"
| "server_step EvTask s =
     (case sv_mail s of
        [] \<Rightarrow> None
      | x # xs \<Rightarrow> if sv_phase s = Returned then None else Some (s\<lparr>sv_mail := xs, sv_log := sv_log s @ [x]\<rparr>))"
| "server_step EvLoopEnd s =
     (if sv_phase s = Serving \<and> \<not> sv_incoming s \<and> tasks_ended s
      then Some (s\<lparr>sv_phase := Draining, sv_cancelled := True\<rparr>) else None)"
| "server_step EvReturn s =
     (if sv_phase s = Draining \<and> tasks_ended s then Some (s\<lparr>sv_phase := Returned\<rparr>) else None)"
| "server_step EvShutdown s = Some (s\<lparr>sv_cancelled := True\<rparr>)"

fun server_run :: "server_event list \<Rightarrow> server \<Rightarrow> server option" where
  "server_run [] s = Some s"
| "server_run (e # es) s = Option.bind (server_step e s) (server_run es)"

section \<open>Facts\<close>

lemma server_run_append: "server_run (es @ es') s = Option.bind (server_run es s) (server_run es')"
  by (induction es arbitrary: s) (auto split: bind_splits)

lemma server_run_inv:
  assumes "server_run es s = Some s'" and "I s" and "\<And>e s s'. I s \<Longrightarrow> server_step e s = Some s' \<Longrightarrow> I s'"
  shows "I s'"
  using assms(1,2)
proof (induction es arbitrary: s)
  case (Cons e es)
  then obtain s1 where s1: "server_step e s = Some s1" "server_run es s1 = Some s'" by (auto split: bind_splits)
  from Cons.IH [OF s1(2) assms(3) [OF Cons.prems(2) s1(1)]] show ?case .
qed simp

lemma session_sel [simp]:
  "sv_phase (put_session i st s) = sv_phase s" "sv_phase (end_session i s) = sv_phase s"
  "sv_mail (put_session i st s) = sv_mail s" "sv_mail (end_session i s) = sv_mail s"
  "sv_log (put_session i st s) = sv_log s" "sv_log (end_session i s) = sv_log s"
  "sv_next_id (put_session i st s) = sv_next_id s" "sv_next_id (end_session i s) = sv_next_id s"
  "sv_cancelled (put_session i st s) = sv_cancelled s" "sv_cancelled (end_session i s) = sv_cancelled s"
  "sv_sessions (put_session i st s) = AList.update i st (sv_sessions s)"
  "sv_sessions (end_session i s) = AList.delete i (sv_sessions s)"
  by (simp_all add: put_session_def end_session_def)

lemmas session_steps = session_connected_def session_accepted_def session_operated_def Let_def

text \<open>
  Whatever a session does by itself, the server around it stays as it is, and its entry is
  changed or taken away.
\<close>

fun session_event :: "server_event \<Rightarrow> nat option" where
  "session_event (EvConnected i _ _) = Some i"
| "session_event (EvConnCancelled i) = Some i"
| "session_event (EvAccepted i _) = Some i"
| "session_event (EvOperated i _ _) = Some i"
| "session_event _ = None"

definition same_server :: "server \<Rightarrow> server \<Rightarrow> bool" where
  "same_server s s' \<longleftrightarrow> sv_phase s' = sv_phase s \<and> sv_mail s' = sv_mail s \<and> sv_log s' = sv_log s \<and>
     sv_next_id s' = sv_next_id s \<and> (sv_cancelled s \<longrightarrow> sv_cancelled s')"

lemma map_of_fst: "map_of xs i = Some x \<Longrightarrow> i \<in> set (map fst xs)"
  by (force dest: map_of_SomeD)

definition own_step :: "nat \<Rightarrow> server \<Rightarrow> server \<Rightarrow> bool" where
  "own_step i s s' \<longleftrightarrow> same_server s s' \<and> (map fst (sv_sessions s') = map fst (sv_sessions s) \<or>
     map fst (sv_sessions s') = removeAll i (map fst (sv_sessions s)))"

lemma own_steps:
  assumes "i \<in> set (map fst (sv_sessions s))"
  shows "own_step i s (put_session i st s)" and "own_step i s (session_connected i ok co s)"
    and "own_step i s (session_accepted i r s)" and "own_step i s (session_operated i res co s)"
proof -
  have up: "map fst (AList.update i st (sv_sessions s)) = map fst (sv_sessions s)" for st
    using assms by (simp add: update_keys)
  note d = own_step_def same_server_def up session_steps delete_keys
  show "own_step i s (put_session i st s)" by (simp add: d)
  show "own_step i s (session_connected i ok co s)" by (simp add: d)
  show "own_step i s (session_accepted i r s)" by (simp add: d split: run.split sum.split)
  show "own_step i s (session_operated i res co s)" by (simp add: d split: run.split sum.split)
qed

lemma session_step:
  assumes "server_step e s = Some s'" and "session_event e = Some i"
  shows "own_step i s s' \<and> i \<in> set (map fst (sv_sessions s))"
proof (cases "map_of (sv_sessions s) i")
  case None
  with assms show ?thesis by (cases e) auto
next
  case (Some st)
  note own = own_steps [OF map_of_fst [OF Some]]
  show ?thesis
    using assms own map_of_fst [OF Some]
    by (cases e) (auto simp del: set_map split: if_splits option.splits session_state.splits)
qed

text \<open>The other steps, by cases.\<close>

lemmas step_splits = if_splits list.splits option.splits session_state.splits






text \<open>Once the token is cancelled it stays so, and no session is added.\<close>

lemma server_step_cancelled:
  assumes "sv_cancelled s" and "server_step e s = Some s'"
  shows "sv_cancelled s' \<and> sv_next_id s' = sv_next_id s"
proof (cases "session_event e")
  case (Some i)
  from session_step [OF assms(2) Some] assms(1) show ?thesis by (simp add: own_step_def same_server_def)
next
  case None
  with assms show ?thesis by (cases e) (auto split: step_splits)
qed

lemma server_run_cancelled:
  assumes "sv_cancelled s" and "server_run es s = Some s'"
  shows "sv_cancelled s' \<and> sv_next_id s' = sv_next_id s"
proof (rule server_run_inv [OF assms(2)])
  show "sv_cancelled s \<and> sv_next_id s = sv_next_id s" using assms(1) by simp
  show "sv_cancelled u \<and> sv_next_id u = sv_next_id s"
    if "sv_cancelled t \<and> sv_next_id t = sv_next_id s" "server_step e t = Some u" for e t u
    using server_step_cancelled [of t e u] that by simp
qed

text \<open>The server never leaves its first loop: it is itself a sender of the channel.\<close>

lemma server_step_serving:
  assumes "sv_phase s = Serving" and "server_step e s = Some s'"
  shows "sv_phase s' = Serving"
proof (cases "session_event e")
  case (Some i)
  from session_step [OF assms(2) Some] assms(1) show ?thesis by (simp add: own_step_def same_server_def)
next
  case None
  with assms show ?thesis by (cases e) (auto simp: tasks_ended_def task_senders_def split: step_splits)
qed

text \<open>Requests are accepted by sessions that wait for one, and once the token is cancelled no session starts
  to wait.\<close>

fun accepts :: "nat \<Rightarrow> server_event \<Rightarrow> bool" where
  "accepts j (EvAccepted i _) \<longleftrightarrow> i = j"
| "accepts j _ \<longleftrightarrow> False"

definition accepting :: "server \<Rightarrow> nat \<Rightarrow> bool" where
  "accepting s j \<longleftrightarrow> map_of (sv_sessions s) j = Some SsAccepting"

lemma accepts_step:
  assumes "sv_cancelled s" and "server_step e s = Some s'"
  shows "of_bool (accepts j e) + of_bool (accepting s' j) \<le> (of_bool (accepting s j) :: nat)"
proof (cases e)
  case (EvConnected i ok co)
  with assms show ?thesis
    by (auto simp: accepting_def session_steps next_round_def update_conv' delete_conv' split: if_splits)
next
  case (EvAccepted i r)
  with assms show ?thesis
    by (auto simp: accepting_def session_steps update_conv' delete_conv' split: if_splits run.splits sum.splits)
next
  case (EvOperated i op co)
  with assms(2) obtain res where s': "s' = session_operated i res co s" by (auto split: option.splits session_state.splits)
  have "accepting (session_operated i res co s) j \<Longrightarrow> accepting s j"
    using assms(1)
    by (cases "snd res") (auto simp: accepting_def session_steps next_round_def update_conv' delete_conv' split: if_splits sum.splits)
  with EvOperated show ?thesis by (simp add: s')
qed (use assms in \<open>auto simp: accepting_def update_conv' delete_conv' split: step_splits\<close>)

lemma accepts_run:
  "sv_cancelled s \<Longrightarrow> server_run es s = Some s' \<Longrightarrow>
    length (filter (accepts j) es) + of_bool (accepting s' j) \<le> (of_bool (accepting s j) :: nat)"
proof (induction es arbitrary: s)
  case (Cons e es)
  then obtain s1 where s1: "server_step e s = Some s1" "server_run es s1 = Some s'" by (auto split: bind_splits)
  have "sv_cancelled s1" using server_run_cancelled [OF Cons.prems(1), of "[e]" s1] s1(1) by simp
  note le = Cons.IH [OF this s1(2)] accepts_step [OF Cons.prems(1) s1(1), of j]
  have "length (filter (accepts j) (e # es)) = of_bool (accepts j e) + length (filter (accepts j) es)" by simp
  with le show ?case by linarith
qed simp

lemma server_run_serving: "server_run es server_start = Some s \<Longrightarrow> sv_phase s = Serving"
  by (erule server_run_inv [where I = "\<lambda>s. sv_phase s = Serving"])
    (simp_all add: server_start_def server_step_serving)



text \<open>The channel never holds more than it has room for.\<close>

lemma server_run_room: "server_run es server_start = Some s \<Longrightarrow> length (sv_mail s) \<le> TASK_ROOM"
proof (erule server_run_inv)
  fix e s s'
  assume m: "length (sv_mail s) \<le> TASK_ROOM" and st: "server_step e s = Some s'"
  show "length (sv_mail s') \<le> TASK_ROOM"
  proof (cases "session_event e")
    case (Some i)
    from session_step [OF st Some] m show ?thesis by (simp add: own_step_def same_server_def)
  next
    case None
    with m st show ?thesis by (cases e) (auto split: if_splits list.splits option.splits session_state.splits)
  qed
qed (simp add: server_start_def)

section \<open>Properties\<close>

text \<open>C14. \<^verbatim>\<open>serve\<close> never returns, so \<^verbatim>\<open>ServerHandle::shutdown\<close> waits forever: the first loop ends
  when no sender of the channel of results is left, and \<^verbatim>\<open>serve\<close> drops its own one only after the
  loop. When the token is cancelled, the sessions have ended and their results are collected,
  nothing can happen any more.\<close>

theorem shutdown_hangs:
  assumes "server_run es server_start = Some s"
  shows "sv_phase s \<noteq> Returned \<and>
    (sv_cancelled s \<and> \<not> sv_incoming s \<and> sv_sessions s = [] \<and> sv_mail s = [] \<longrightarrow>
      (\<forall>e. server_step e s = None \<or> server_step e s = Some s))"
proof -
  have ph: "sv_phase s = Serving" by (rule server_run_serving [OF assms])
  have "server_step e s = None \<or> server_step e s = Some s"
    if "sv_cancelled s" "\<not> sv_incoming s" "sv_sessions s = []" "sv_mail s = []" for e
    using that ph by (cases e) (auto simp: tasks_ended_def task_senders_def)
  with ph show ?thesis by auto
qed

text \<open>C16. When a device is returned, by whichever peer, the session cancels the token of the whole server: from
  then on no connection is accepted, a session that has finished its operation does not go on to
  another request, and each session accepts at most the one request that it was waiting for at that
  moment (waiting for a request does not watch the token).\<close>

theorem loan_stops_server:
  assumes "server_step (EvOperated i op co) s = Some s1" and "map_of (sv_sessions s) i = Some (SsOperating resp)"
    and "operate resp op = Some (True, res)" and "server_run es s1 = Some s2"
  shows "sv_next_id s2 = sv_next_id s \<and> server_step EvIncoming s2 = None \<and>
    (\<forall>j op' co' s3. server_step (EvOperated j op' co') s2 = Some s3 \<longrightarrow> map_of (sv_sessions s3) j \<noteq> Some SsAccepting) \<and>
    (\<forall>j. length (filter (accepts j) es) + of_bool (accepting s2 j) \<le> (of_bool (accepting s j \<and> j \<noteq> i) :: nat))"
proof -
  have s1: "s1 = session_operated i (True, res) co s" using assms(1-3) by simp
  have "i \<in> set (map fst (sv_sessions s))" by (rule map_of_fst [OF assms(2)])
  from own_steps(4) [OF this, of "(True, res)" co] have n: "sv_next_id s1 = sv_next_id s"
    unfolding s1 by (simp add: own_step_def same_server_def)
  have c1: "sv_cancelled s1" unfolding s1 by (simp add: session_steps split: run.split sum.split)
  note c2 = server_run_cancelled [OF c1 assms(4)]
  have "map_of (sv_sessions (session_operated j r co' s2)) j \<noteq> Some SsAccepting" for j r co'
    using c2 by (simp add: session_steps next_round_def update_conv' delete_conv' split: run.split sum.split)
  moreover have "accepting s1 j \<longleftrightarrow> accepting s j \<and> j \<noteq> i" for j
    unfolding s1 accepting_def
    by (auto simp: session_steps next_round_def update_conv' delete_conv' split: run.split sum.split)
  ultimately show ?thesis using accepts_run [OF c1 assms(4)] c2 n by (auto split: option.splits session_state.splits)
qed


text \<open>C21. A session that has ended is not kept from reporting: the server collects what is in the channel,
  and then there is room for the result.\<close>

theorem result_gets_logged:
  assumes "server_run es server_start = Some s" and "map_of (sv_sessions s) i = Some (SsReporting r)"
  shows "\<exists>es' s'. set es' \<subseteq> {EvTask, EvReport i} \<and> server_run es' s = Some s' \<and> (i, r) \<in> set (sv_log s') \<and>
    i \<notin> set (map fst (sv_sessions s'))"
proof -
  have ph: "sv_phase s \<noteq> Returned" using server_run_serving [OF assms(1)] by simp
  have last: "\<exists>s'. server_run [EvReport i, EvTask] t = Some s' \<and> (i, r) \<in> set (sv_log s') \<and> i \<notin> set (map fst (sv_sessions s'))"
    if "sv_mail t = []" "sv_phase t \<noteq> Returned" "map_of (sv_sessions t) i = Some (SsReporting r)" for t
    using that by (simp add: TASK_ROOM_def delete_notin_dom)
  show ?thesis
  proof (cases "sv_mail s")
    case Nil
    with last [of s] ph assms(2) show ?thesis by (intro exI [of _ "[EvReport i, EvTask]"]) auto
  next
    case (Cons x xs)
    then have "xs = []" using server_run_room [OF assms(1)] by (cases xs) (simp_all add: TASK_ROOM_def)
    with Cons ph have t: "server_step EvTask s = Some (s\<lparr>sv_mail := [], sv_log := sv_log s @ [x]\<rparr>)" by simp
    from last [of "s\<lparr>sv_mail := [], sv_log := sv_log s @ [x]\<rparr>"] ph assms(2) obtain s' where
      "server_run [EvReport i, EvTask] (s\<lparr>sv_mail := [], sv_log := sv_log s @ [x]\<rparr>) = Some s'"
      "(i, r) \<in> set (sv_log s')" "i \<notin> set (map fst (sv_sessions s'))" by auto
    with t show ?thesis by (intro exI [of _ "[EvTask, EvReport i, EvTask]"] exI [of _ s']) simp
  qed
qed

section \<open>Witnesses\<close>

text \<open>One peer borrows a device and returns it; then the server is shut down.\<close>

definition one_loan :: "server_event list" where
  "one_loan = [EvIncoming, EvIncoming, EvConnected 1 True True, EvConnected 2 True True,
     EvAccepted 1 (Ret (Inr (SrvBorrowDevice dev_3_7)))]"

definition after_loan :: server where
  "after_loan = server_start\<lparr>sv_sessions := [(1, SsOperating (SrvBorrowDevice dev_3_7)), (2, SsAccepting)], sv_next_id := 3\<rparr>"

definition returned :: operation where
  "returned = OpLend (Ret (Inr ())) (Ret (Inr ()))"

lemma one_loan_run: "server_run one_loan server_start = Some after_loan"
  by (simp add: one_loan_def after_loan_def server_start_def session_connected_def session_accepted_def
      put_session_def next_round_def)

lemma returned_cancels: "operate (SrvBorrowDevice d) returned = Some (True, Ret (Inr ()))"
  by (simp add: returned_def lend_session_def)

text \<open>The session that was waiting takes its one request.\<close>

theorem loan_stops_server_witness:
  "\<exists>s1 s2. server_step (EvOperated 1 returned True) after_loan = Some s1 \<and>
    server_run [EvAccepted 2 (Ret (Inr SrvListDevices))] s1 = Some s2 \<and> server_step EvIncoming s2 = None \<and> \<not> accepting s2 2"
proof -
  let ?s1 = "session_operated 1 (True, Ret (Inr ())) True after_loan"
  have m: "map_of (sv_sessions after_loan) 1 = Some (SsOperating (SrvBorrowDevice dev_3_7))"
    by (simp add: after_loan_def)
  then have st: "server_step (EvOperated 1 returned True) after_loan = Some ?s1" by (simp add: returned_cancels)
  obtain s2 where s2: "server_run [EvAccepted 2 (Ret (Inr SrvListDevices))] ?s1 = Some s2"
    by (simp add: after_loan_def session_steps next_round_def update_conv')
  note l = loan_stops_server [OF st m returned_cancels s2]
  have "length (filter (accepts 2) [EvAccepted 2 (Ret (Inr SrvListDevices))]) + of_bool (accepting s2 2) \<le>
      (of_bool (accepting after_loan 2 \<and> 2 \<noteq> (1 :: nat)) :: nat)" using l by blast
  then have "\<not> accepting s2 2" by (cases "accepting s2 2"; cases "accepting after_loan 2") simp_all
  with l st s2 show ?thesis by blast
qed

theorem shutdown_hangs_witness:
  "\<exists>s. server_run [EvShutdown, EvIncomingEnd False] server_start = Some s \<and> server_step EvLoopEnd s = None"
  using shutdown_hangs [of "[EvShutdown, EvIncomingEnd False]"]
  by (auto simp: server_start_def tasks_ended_def task_senders_def)


theorem result_gets_logged_witness:
  "\<exists>es' s'. server_run (one_loan @ [EvAccepted 2 (Ret (Inl UnknownErr))] @ es') server_start = Some s' \<and>
    (2, Inl UnknownErr) \<in> set (sv_log s')"
proof -
  let ?s = "put_session 2 (SsReporting (Inl UnknownErr)) after_loan"
  have run: "server_run (one_loan @ [EvAccepted 2 (Ret (Inl UnknownErr))]) server_start = Some ?s"
    by (simp add: server_run_append one_loan_run) (simp add: after_loan_def session_accepted_def)
  have "map_of (sv_sessions ?s) 2 = Some (SsReporting (Inl UnknownErr))" by (simp add: update_conv')
  from result_gets_logged [OF run this] obtain es' s' where "server_run es' ?s = Some s'"
    "(2, Inl UnknownErr) \<in> set (sv_log s')" by blast
  moreover from this run have "server_run ((one_loan @ [EvAccepted 2 (Ret (Inl UnknownErr))]) @ es') server_start = Some s'"
    by (subst server_run_append) simp
  ultimately show ?thesis unfolding append_assoc by blast
qed

end
