(* ===== verification/Usb_Ids.thy ===== *)
theory Usb_Ids
  imports Qusb_Prelude "HOL-Library.Sublist"
begin

text \<open>
  The database of USB names, \<^verbatim>\<open>crates/qusb/src/usb_ids.rs\<close>: a line-oriented text with vendors,
  their products, classes, their subclasses and protocols. A \<^verbatim>\<open>str\<close> is the list of its code
  points.
\<close>

section \<open>Strings\<close>

type_synonym chars = "nat list"

definition lit :: "string \<Rightarrow> chars" where
  "lit s = map of_char s"

fun strip_prefix :: "chars \<Rightarrow> chars \<Rightarrow> chars option" where
  "strip_prefix [] s = Some s"
| "strip_prefix (p # ps) [] = None"
| "strip_prefix (p # ps) (c # s) = (if p = c then strip_prefix ps s else None)"

fun split_once :: "nat \<Rightarrow> chars \<Rightarrow> (chars \<times> chars) option" where
  "split_once c [] = None"
| "split_once c (x # s) =
     (if x = c then Some ([], s) else map_option (\<lambda>(a, b). (x # a, b)) (split_once c s))"

text \<open>The property \<^verbatim>\<open>White_Space\<close>, which \<^verbatim>\<open>trim\<close> removes at both ends.\<close>

definition white_space :: "nat \<Rightarrow> bool" where
  "white_space c \<longleftrightarrow> 9 \<le> c \<and> c \<le> 13 \<or> c = 32 \<or> c = 133 \<or> c = 160 \<or> c = 5760 \<or> 8192 \<le> c \<and> c \<le> 8202 \<or>
     c = 8232 \<or> c = 8233 \<or> c = 8239 \<or> c = 8287 \<or> c = 12288"

definition trim :: "chars \<Rightarrow> chars" where
  "trim s = rev (dropWhile white_space (rev (dropWhile white_space s)))"

text \<open>\<^verbatim>\<open>lines\<close>: a line ends with a line feed, before which a carriage return is dropped.\<close>

definition strip_cr :: "chars \<Rightarrow> chars" where
  "strip_cr l = (if l \<noteq> [] \<and> last l = 13 then butlast l else l)"

fun lines_from :: "chars \<Rightarrow> chars \<Rightarrow> chars list" where
  "lines_from acc [] = (if acc = [] then [] else [acc])"
| "lines_from acc (c # s) = (if c = 10 then strip_cr acc # lines_from [] s else lines_from (acc @ [c]) s)"

definition lines_of :: "chars \<Rightarrow> chars list" where
  "lines_of s = lines_from [] s"

text \<open>\<^verbatim>\<open>from_str_radix(s, 16)\<close> of an unsigned type.\<close>

definition hex_digit :: "nat \<Rightarrow> nat option" where
  "hex_digit c =
     (if 48 \<le> c \<and> c \<le> 57 then Some (c - 48)
      else if 97 \<le> c \<and> c \<le> 102 then Some (c - 87)
      else if 65 \<le> c \<and> c \<le> 70 then Some (c - 55) else None)"

fun hex_digits :: "nat \<Rightarrow> nat \<Rightarrow> chars \<Rightarrow> nat option" where
  "hex_digits bound acc [] = Some acc"
| "hex_digits bound acc (c # s) =
     (case hex_digit c of
        None \<Rightarrow> None
      | Some d \<Rightarrow> if acc * 16 + d < bound then hex_digits bound (acc * 16 + d) s else None)"

definition from_str_radix16 :: "chars \<Rightarrow> 'w :: len word option" where
  "from_str_radix16 s =
     (if s = [] \<or> s = [43] \<or> s = [45] then None
      else map_option of_nat (hex_digits (2 ^ LENGTH('w)) 0 (if hd s = 43 then tl s else s)))"

section \<open>Keys and tables\<close>

datatype vendor_key = VendorKey u16
datatype product_key = ProductKey (pk_vendor: u16) (pk_product: u16)
datatype class_key = ClassKey u8
datatype subclass_key = SubclassKey (sk_class: u8) (sk_subclass: u8)
datatype protocol_key = ProtocolKey (rk_class: u8) (rk_subclass: u8) (rk_protocol: u8)

text \<open>What each key feeds to the hasher.\<close>

fun product_key_hash :: "product_key \<Rightarrow> u32" where
  "product_key_hash (ProductKey vendor product) = push_bit 16 (ucast vendor) OR ucast product"

fun subclass_key_hash :: "subclass_key \<Rightarrow> u16" where
  "subclass_key_hash (SubclassKey class subclass) = push_bit 8 (ucast class) OR ucast class"

fun protocol_key_hash :: "protocol_key \<Rightarrow> u32" where
  "protocol_key_hash (ProtocolKey class subclass protocol) =
     push_bit 16 (ucast class) OR push_bit 8 (ucast class) OR ucast class"

record usb_names =
  n_vendor :: "vendor_key \<rightharpoonup> chars"
  n_product :: "product_key \<rightharpoonup> chars"
  n_class :: "class_key \<rightharpoonup> chars"
  n_subclass :: "subclass_key \<rightharpoonup> chars"
  n_protocol :: "protocol_key \<rightharpoonup> chars"

definition no_names :: usb_names where
  "no_names = \<lparr>n_vendor = Map.empty, n_product = Map.empty, n_class = Map.empty,
     n_subclass = Map.empty, n_protocol = Map.empty\<rparr>"

datatype last_state =
    LsStart | LsLang | LsClass class_key | LsSubclass subclass_key
  | LsVendor vendor_key | LsProduct product_key | LsHut

section \<open>Parsing\<close>

definition can_skip :: "chars \<Rightarrow> bool" where
  "can_skip line \<longleftrightarrow> line = [] \<or> (\<exists>p \<in> set [lit ''#'', lit ''PHYSDES '', lit ''PHY '', lit ''BIAS '',
     lit ''AT '', lit ''HCC '', lit ''HID '', lit ''R '', lit ''VT'']. prefix p line)"

definition parse_value :: "chars \<Rightarrow> (chars \<Rightarrow> 'k option) \<Rightarrow> ('k \<times> chars) option" where
  "parse_value possible f =
     (case split_once 32 possible of
        None \<Rightarrow> None
      | Some (key_token, rest) \<Rightarrow> map_option (\<lambda>key. (key, trim rest)) (f key_token))"

definition parse_after :: "chars \<Rightarrow> (chars \<Rightarrow> 'k option) \<Rightarrow> chars \<Rightarrow> ('k \<times> chars) option" where
  "parse_after p f line = (case strip_prefix p line of None \<Rightarrow> None | Some rest \<Rightarrow> parse_value rest f)"

definition parse_class :: "chars \<Rightarrow> (class_key \<times> chars) option" where
  "parse_class = parse_after (lit ''C '') (\<lambda>t. map_option ClassKey (from_str_radix16 t))"

definition parse_product :: "u16 \<Rightarrow> chars \<Rightarrow> (product_key \<times> chars) option" where
  "parse_product vendor = parse_after [9] (\<lambda>t. map_option (ProductKey vendor) (from_str_radix16 t))"

definition parse_subclass :: "u8 \<Rightarrow> chars \<Rightarrow> (subclass_key \<times> chars) option" where
  "parse_subclass class = parse_after [9] (\<lambda>t. map_option (SubclassKey class) (from_str_radix16 t))"

definition parse_protocol :: "u8 \<Rightarrow> u8 \<Rightarrow> chars \<Rightarrow> (protocol_key \<times> chars) option" where
  "parse_protocol class subclass =
     parse_after [9, 9] (\<lambda>t. map_option (ProtocolKey class subclass) (from_str_radix16 t))"

definition parse_vendor :: "chars \<Rightarrow> (vendor_key \<times> chars) option" where
  "parse_vendor line = parse_value line (\<lambda>t. map_option VendorKey (from_str_radix16 t))"

text \<open>The lines below a class, a subclass, or a vendor.\<close>

fun parse_nested :: "chars \<Rightarrow> last_state \<times> usb_names \<Rightarrow> last_state \<times> usb_names" where
  "parse_nested line (LsClass (ClassKey class), names) =
     (case parse_subclass class line of
        Some (key, txt) \<Rightarrow> (LsSubclass key, names\<lparr>n_subclass := (n_subclass names)(key \<mapsto> txt)\<rparr>)
      | None \<Rightarrow> (LsClass (ClassKey class), names))"
| "parse_nested line (LsSubclass (SubclassKey class subclass), names) =
     (case parse_subclass class line of
        Some (key, txt) \<Rightarrow> (LsSubclass key, names\<lparr>n_subclass := (n_subclass names)(key \<mapsto> txt)\<rparr>)
      | None \<Rightarrow>
          (case parse_protocol class subclass line of
             Some (key, txt) \<Rightarrow> (LsSubclass (SubclassKey class subclass),
               names\<lparr>n_protocol := (n_protocol names)(key \<mapsto> txt)\<rparr>)
           | None \<Rightarrow> (LsSubclass (SubclassKey class subclass), names)))"
| "parse_nested line (LsVendor (VendorKey vendor), names) =
     (case parse_product vendor line of
        Some (key, txt) \<Rightarrow> (LsProduct key, names\<lparr>n_product := (n_product names)(key \<mapsto> txt)\<rparr>)
      | None \<Rightarrow> (LsVendor (VendorKey vendor), names))"
| "parse_nested line (LsProduct (ProductKey vendor p), names) =
     (case parse_product vendor line of
        Some (key, txt) \<Rightarrow> (LsProduct key, names\<lparr>n_product := (n_product names)(key \<mapsto> txt)\<rparr>)
      | None \<Rightarrow> (LsProduct (ProductKey vendor p), names))"
| "parse_nested line s = s"

definition parse_line :: "chars \<Rightarrow> last_state \<times> usb_names \<Rightarrow> last_state \<times> usb_names" where
  "parse_line line s =
     (let names = snd s in
      if can_skip line then s
      else if sublist (lit ''L '') line then (LsLang, names)
      else case parse_class line of
        Some (key, txt) \<Rightarrow> (LsClass key, names\<lparr>n_class := (n_class names)(key \<mapsto> txt)\<rparr>)
      | None \<Rightarrow>
          (case parse_vendor line of
             Some (key, txt) \<Rightarrow> (LsVendor key, names\<lparr>n_vendor := (n_vendor names)(key \<mapsto> txt)\<rparr>)
           | None \<Rightarrow> if sublist (lit ''HUT '') line then (LsHut, names) else parse_nested line s))"

definition usb_parse :: "chars \<Rightarrow> usb_names" where
  "usb_parse buf = snd (fold parse_line (lines_of buf) (LsStart, no_names))"

section \<open>Lookups and their display\<close>

definition vendor_name :: "usb_names \<Rightarrow> u16 \<Rightarrow> chars option" where
  "vendor_name names vendor = n_vendor names (VendorKey vendor)"

definition product_name :: "usb_names \<Rightarrow> u16 \<Rightarrow> u16 \<Rightarrow> chars option" where
  "product_name names vendor product = n_product names (ProductKey vendor product)"

definition class_name :: "usb_names \<Rightarrow> u8 \<Rightarrow> chars option" where
  "class_name names class = n_class names (ClassKey class)"

definition subclass_name :: "usb_names \<Rightarrow> u8 \<Rightarrow> u8 \<Rightarrow> chars option" where
  "subclass_name names class subclass = n_subclass names (SubclassKey class subclass)"

definition protocol_name :: "usb_names \<Rightarrow> u8 \<Rightarrow> u8 \<Rightarrow> u8 \<Rightarrow> chars option" where
  "protocol_name names class subclass protocol = n_protocol names (ProtocolKey class subclass protocol)"

text \<open>Lower-case hexadecimal digits, padded with zeros.\<close>

definition hex_char :: "nat \<Rightarrow> nat" where
  "hex_char d = (if d < 10 then 48 + d else 87 + d)"

definition hex2 :: "u8 \<Rightarrow> chars" where
  "hex2 w = [hex_char (unat w div 16), hex_char (unat w mod 16)]"

definition hex4 :: "u16 \<Rightarrow> chars" where
  "hex4 w = [hex_char (unat w div 4096), hex_char (unat w div 256 mod 16), hex_char (unat w div 16 mod 16),
     hex_char (unat w mod 16)]"

definition unwrap_or :: "chars option \<Rightarrow> string \<Rightarrow> chars" where
  "unwrap_or x dflt = (case x of Some s \<Rightarrow> s | None \<Rightarrow> lit dflt)"

definition class_display :: "usb_names \<Rightarrow> u8 \<Rightarrow> u8 \<Rightarrow> u8 \<Rightarrow> chars" where
  "class_display names class subclass protocol =
     (if class = 0 \<and> subclass = 0 \<and> protocol = 0 then lit ''(Defined at Interface level)''
      else unwrap_or (class_name names class) ''unknown class'' @ lit '' / '' @
        unwrap_or (subclass_name names class subclass) ''unknown subclass'' @ lit '' / '' @
        unwrap_or (protocol_name names class subclass protocol) ''unknown protocol'' @ lit '' '') @
     lit ''('' @ hex2 class @ lit ''/'' @ hex2 subclass @ lit ''/'' @ hex2 protocol @ lit '')''"

definition product_display :: "usb_names \<Rightarrow> u16 \<Rightarrow> u16 \<Rightarrow> chars" where
  "product_display names vendor product =
     unwrap_or (vendor_name names vendor) ''unknown vendor'' @ lit '' : '' @
     unwrap_or (product_name names vendor product) ''unknown product'' @
     lit '' ('' @ hex4 vendor @ lit '':'' @ hex4 product @ lit '')''"

section \<open>The specification: a database and its text\<close>

text \<open>
  The text of a database as the shipped file \<^verbatim>\<open>crates/qusb/usb-ids\<close> has it: vendors with their products,
  classes with their subclasses and protocols, and sections of languages and of usages, whose
  entries are behind a tab. A name is any text.
\<close>

type_synonym 'k named = "'k \<times> chars"

datatype other_section = Languages | Usages

record usb_db =
  db_vendors :: "(u16 named \<times> u16 named list) list"
  db_classes :: "(u8 named \<times> (u8 named \<times> u8 named list) list) list"
  db_others :: "(other_section named \<times> chars list) list"

definition vendor_line :: "u16 named \<Rightarrow> chars" where
  "vendor_line v = hex4 (fst v) @ [32, 32] @ snd v"

definition product_line :: "u16 named \<Rightarrow> chars" where
  "product_line p = [9] @ hex4 (fst p) @ [32, 32] @ snd p"

definition class_line :: "u8 named \<Rightarrow> chars" where
  "class_line c = lit ''C '' @ hex2 (fst c) @ [32, 32] @ snd c"

definition subclass_line :: "u8 named \<Rightarrow> chars" where
  "subclass_line c = [9] @ hex2 (fst c) @ [32, 32] @ snd c"

definition protocol_line :: "u8 named \<Rightarrow> chars" where
  "protocol_line c = [9, 9] @ hex2 (fst c) @ [32, 32] @ snd c"

definition other_line :: "other_section named \<Rightarrow> chars" where
  "other_line x = lit (case fst x of Languages \<Rightarrow> ''L '' | Usages \<Rightarrow> ''HUT '') @ snd x"

definition vendor_lines :: "u16 named \<times> u16 named list \<Rightarrow> chars list" where
  "vendor_lines x = vendor_line (fst x) # map product_line (snd x)"

definition subclass_lines :: "u8 named \<times> u8 named list \<Rightarrow> chars list" where
  "subclass_lines x = subclass_line (fst x) # map protocol_line (snd x)"

definition class_lines :: "u8 named \<times> (u8 named \<times> u8 named list) list \<Rightarrow> chars list" where
  "class_lines x = class_line (fst x) # concat (map subclass_lines (snd x))"

definition other_lines :: "other_section named \<times> chars list \<Rightarrow> chars list" where
  "other_lines x = other_line (fst x) # map (Cons 9) (snd x)"

definition db_lines :: "usb_db \<Rightarrow> chars list" where
  "db_lines db = concat (map vendor_lines (db_vendors db)) @ concat (map class_lines (db_classes db)) @
     concat (map other_lines (db_others db))"

definition db_text :: "chars list \<Rightarrow> chars" where
  "db_text ls = concat (map (\<lambda>l. l @ [10]) ls)"

definition plain_line :: "chars \<Rightarrow> bool" where
  "plain_line l \<longleftrightarrow> 10 \<notin> set l \<and> strip_cr l = l"

text \<open>The tables of a database: names are trimmed, and the last entry for a key counts.\<close>

definition last_of :: "('k \<times> 'v) list \<Rightarrow> 'k \<rightharpoonup> 'v" where
  "last_of xs = map_of (rev xs)"

definition named_as :: "('a \<Rightarrow> 'k) \<Rightarrow> 'a named \<Rightarrow> 'k \<times> chars" where
  "named_as f x = (f (fst x), trim (snd x))"

definition db_names :: "usb_db \<Rightarrow> usb_names" where
  "db_names db = \<lparr>
     n_vendor = last_of (map (\<lambda>(v, ps). named_as VendorKey v) (db_vendors db)),
     n_product = last_of (concat (map (\<lambda>(v, ps). map (named_as (ProductKey (fst v))) ps) (db_vendors db))),
     n_class = last_of (map (\<lambda>(c, ss). named_as ClassKey c) (db_classes db)),
     n_subclass = last_of (concat (map (\<lambda>(c, ss). map (\<lambda>(s, rs). named_as (SubclassKey (fst c)) s) ss) (db_classes db))),
     n_protocol = last_of (concat (map (\<lambda>(c, ss). concat (map (\<lambda>(s, rs).
       map (named_as (ProtocolKey (fst c) (fst s))) rs) ss)) (db_classes db)))\<rparr>"

text \<open>
  What the parser keeps. A line that contains \<open>L \<close> anywhere is taken for the start of the languages, and a line
  behind a tab that contains \<open>HUT \<close> for the start of the usages: the entry is lost, and so is what is
  below it or behind it, up to the next vendor or class.
\<close>

definition lang_mark :: "'k named \<Rightarrow> bool" where
  "lang_mark x \<longleftrightarrow> sublist (lit ''L '') (snd x)"

definition section_mark :: "'k named \<Rightarrow> bool" where
  "section_mark x \<longleftrightarrow> lang_mark x \<or> sublist (lit ''HUT '') (snd x)"

definition unmarked :: "'k named list \<Rightarrow> 'k named list" where
  "unmarked = takeWhile (\<lambda>x. \<not> section_mark x)"

fun kept_subclasses :: "(u8 named \<times> u8 named list) list \<Rightarrow> (u8 named \<times> u8 named list) list" where
  "kept_subclasses [] = []"
| "kept_subclasses ((s, rs) # ss) =
     (if section_mark s then []
      else (s, unmarked rs) # (if \<exists>r \<in> set rs. section_mark r then [] else kept_subclasses ss))"

definition kept_vendors :: "(u16 named \<times> u16 named list) list \<Rightarrow> (u16 named \<times> u16 named list) list" where
  "kept_vendors vs = map (map_prod id unmarked) (filter (\<lambda>x. \<not> lang_mark (fst x)) vs)"

definition kept_classes :: "(u8 named \<times> (u8 named \<times> u8 named list) list) list \<Rightarrow>
    (u8 named \<times> (u8 named \<times> u8 named list) list) list" where
  "kept_classes cs = map (map_prod id kept_subclasses) (filter (\<lambda>x. \<not> lang_mark (fst x)) cs)"

definition kept_db :: "usb_db \<Rightarrow> usb_db" where
  "kept_db db = db\<lparr>db_vendors := kept_vendors (db_vendors db), db_classes := kept_classes (db_classes db)\<rparr>"

text \<open>A database without such names.\<close>

definition good_db :: "usb_db \<Rightarrow> bool" where
  "good_db db \<longleftrightarrow>
     (\<forall>(v, ps) \<in> set (db_vendors db). \<not> lang_mark v \<and> (\<forall>p \<in> set ps. \<not> section_mark p)) \<and>
     (\<forall>(c, ss) \<in> set (db_classes db). \<not> lang_mark c \<and>
       (\<forall>(s, rs) \<in> set ss. \<not> section_mark s \<and> (\<forall>r \<in> set rs. \<not> section_mark r)))"

section \<open>Facts: tokens\<close>

lemma lit_evals:
  "lit ''#'' = [35]" "lit ''PHYSDES '' = [80, 72, 89, 83, 68, 69, 83, 32]" "lit ''PHY '' = [80, 72, 89, 32]"
  "lit ''BIAS '' = [66, 73, 65, 83, 32]" "lit ''AT '' = [65, 84, 32]" "lit ''HCC '' = [72, 67, 67, 32]"
  "lit ''HID '' = [72, 73, 68, 32]" "lit ''R '' = [82, 32]" "lit ''VT'' = [86, 84]" "lit ''L '' = [76, 32]"
  "lit ''HUT '' = [72, 85, 84, 32]" "lit ''C '' = [67, 32]"
  by (simp_all add: lit_def)

lemma hex_digit_char: "d < 16 \<Longrightarrow> hex_digit (hex_char d) = Some d"
  by (auto simp: hex_digit_def hex_char_def)

lemma hex_char_range: "d < 16 \<Longrightarrow> (48 \<le> hex_char d \<and> hex_char d \<le> 57) \<or> (97 \<le> hex_char d \<and> hex_char d \<le> 102)"
  by (auto simp: hex_char_def)

lemma hex_chars_ascii:
  "c \<in> set (hex2 w) \<Longrightarrow> (48 \<le> c \<and> c \<le> 57) \<or> (97 \<le> c \<and> c \<le> 102)"
  "c \<in> set (hex4 v) \<Longrightarrow> (48 \<le> c \<and> c \<le> 57) \<or> (97 \<le> c \<and> c \<le> 102)"
  using hex_char_range [of "unat w div 16", OF less_mult_imp_div_less] hex_char_range [of "unat w mod 16"]
    hex_char_range [of "unat v div 4096", OF less_mult_imp_div_less] hex_char_range [of "unat v div 256 mod 16"]
    hex_char_range [of "unat v div 16 mod 16"] hex_char_range [of "unat v mod 16"]
  by (auto simp: hex2_def hex4_def)

lemma hex_digits_Cons: "d < 16 \<Longrightarrow> acc * 16 + d < bound \<Longrightarrow>
    hex_digits bound acc (hex_char d # s) = hex_digits bound (acc * 16 + d) s"
  by (simp add: hex_digit_char)

lemma parse_hex2: "from_str_radix16 (hex2 w) = Some w"
proof -
  have w: "unat w < 256" by simp
  let ?a = "unat w div 16" and ?b = "unat w mod 16"
  have "?a < 16" by (rule less_mult_imp_div_less) simp
  have eq: "?a * 16 + ?b = unat w" by (metis div_mult_mod_eq)
  have "hex_digits 256 0 (hex2 w) = Some (unat w)"
    unfolding hex2_def
    by (subst hex_digits_Cons, use \<open>?a < 16\<close> in simp, use \<open>?a < 16\<close> in simp,
        subst hex_digits_Cons, simp, use w eq in simp, simp add: eq)
  moreover have "hd (hex2 w) \<noteq> 43" "hex2 w \<noteq> []" "hex2 w \<noteq> [43]" "hex2 w \<noteq> [45]"
    using hex_char_range [OF \<open>?a < 16\<close>] by (auto simp: hex2_def)
  ultimately show ?thesis by (simp add: from_str_radix16_def)
qed

lemma parse_hex4: "from_str_radix16 (hex4 w) = Some w"
proof -
  have w: "unat w < 65536" by simp
  let ?n = "unat w"
  let ?a = "?n div 4096" and ?b = "?n div 256 mod 16" and ?c = "?n div 16 mod 16" and ?d = "?n mod 16"
  have a: "?a < 16" by (rule less_mult_imp_div_less) simp
  have dd: "?n div 4096 = ?n div 256 div 16" "?n div 256 = ?n div 16 div 16"
    by (simp_all flip: div_mult2_eq)
  have eq: "?a * 16 + ?b = ?n div 256" unfolding dd(1) by (rule div_mult_mod_eq)
  have eq2: "?n div 256 * 16 + ?c = ?n div 16" unfolding dd(2) by (rule div_mult_mod_eq)
  have eq3: "?n div 16 * 16 + ?d = ?n" by (rule div_mult_mod_eq)
  have l: "?n div 256 < 65536" "?n div 16 < 65536"
    by (rule le_less_trans [OF div_le_dividend w])+
  have "hex_digits 65536 0 (hex4 w) = Some ?n"
    unfolding hex4_def
    by (subst hex_digits_Cons, use a in simp, use a in simp,
        subst hex_digits_Cons, simp, use eq l in simp, simp only: eq mult_0 add_0,
        subst hex_digits_Cons, simp, use eq2 l in simp, simp only: eq2,
        subst hex_digits_Cons, simp, use eq3 w in simp, simp add: eq3)
  moreover have "hd (hex4 w) \<noteq> 43" "hex4 w \<noteq> []" "hex4 w \<noteq> [43]" "hex4 w \<noteq> [45]"
    using hex_char_range [OF a] by (auto simp: hex4_def)
  ultimately show ?thesis by (simp add: from_str_radix16_def)
qed

text \<open>A tab is no digit.\<close>

lemma parse_tab: "from_str_radix16 (9 # t) = None"
  by (simp add: from_str_radix16_def hex_digit_def)

lemma split_once_token: "c \<notin> set t \<Longrightarrow> split_once c (t @ c # rest) = Some (t, rest)"
  by (induction t) auto

lemma trim_space: "trim (32 # n) = trim n"
  by (simp add: trim_def white_space_def)

lemma parse_value_line:
  "32 \<notin> set t \<Longrightarrow> parse_value (t @ 32 # 32 # n) f = map_option (\<lambda>k. (k, trim n)) (f t)"
  by (simp add: parse_value_def split_once_token trim_space)

lemma sublist_skip: "a \<notin> set u \<Longrightarrow> sublist (a # p) (u @ n) \<longleftrightarrow> sublist (a # p) n"
  by (induction u) (auto simp: sublist_Cons_right)

section \<open>Facts: one line\<close>

lemma hex_head: "\<exists>a r. hex4 v = a # r \<and> (48 \<le> a \<and> a \<le> 57 \<or> 97 \<le> a \<and> a \<le> 102)"
  using hex_chars_ascii(2) [of "hd (hex4 v)" v] by (auto simp: hex4_def)

lemma hex_sets: "32 \<notin> set (hex2 w)" "76 \<notin> set (hex2 w)" "72 \<notin> set (hex2 w)"
  "32 \<notin> set (hex4 v)" "76 \<notin> set (hex4 v)" "72 \<notin> set (hex4 v)"
  using hex_chars_ascii(1) [of _ w] hex_chars_ascii(2) [of _ v] by force+

text \<open>Lines that start with a digit, a tab or \<open>C\<close> are not skipped, whatever their name.\<close>

lemma can_skip_digit: "48 \<le> a \<Longrightarrow> a \<le> 57 \<or> 97 \<le> a \<Longrightarrow> \<not> can_skip (a # s)"
  by (auto simp: can_skip_def lit_evals)

lemma can_skip_other: "\<not> can_skip (9 # s)" "\<not> can_skip (67 # s)" "\<not> can_skip (76 # s)" "\<not> can_skip (72 # 85 # s)"
  by (auto simp: can_skip_def lit_evals)

text \<open>The marks are in the name, if anywhere in the line.\<close>

lemma line_marks:
  "sublist [76, 32] (vendor_line v) \<longleftrightarrow> lang_mark v" "sublist [76, 32] (class_line c) \<longleftrightarrow> lang_mark c"
  "sublist [76, 32] (product_line v) \<longleftrightarrow> lang_mark v" "sublist [76, 32] (subclass_line c) \<longleftrightarrow> lang_mark c"
  "sublist [76, 32] (protocol_line c) \<longleftrightarrow> lang_mark c"
  "sublist [72, 85, 84, 32] (product_line v) \<longleftrightarrow> sublist [72, 85, 84, 32] (snd v)"
  "sublist [72, 85, 84, 32] (subclass_line c) \<longleftrightarrow> sublist [72, 85, 84, 32] (snd c)"
  "sublist [72, 85, 84, 32] (protocol_line c) \<longleftrightarrow> sublist [72, 85, 84, 32] (snd c)"
  using sublist_skip [of 76 "hex4 (fst v) @ [32, 32]" "[32]" "snd v"] sublist_skip [of 72 "[9] @ hex4 (fst v) @ [32, 32]" "[85, 84, 32]" "snd v"]
    sublist_skip [of 76 "[9] @ hex4 (fst v) @ [32, 32]" "[32]" "snd v"]
    sublist_skip [of 76 "[67, 32] @ hex2 (fst c) @ [32, 32]" "[32]" "snd c"]
    sublist_skip [of 76 "[9] @ hex2 (fst c) @ [32, 32]" "[32]" "snd c"] sublist_skip [of 76 "[9, 9] @ hex2 (fst c) @ [32, 32]" "[32]" "snd c"]
    sublist_skip [of 72 "[9] @ hex2 (fst c) @ [32, 32]" "[85, 84, 32]" "snd c"]
    sublist_skip [of 72 "[9, 9] @ hex2 (fst c) @ [32, 32]" "[85, 84, 32]" "snd c"]
  by (simp_all add: vendor_line_def class_line_def product_line_def subclass_line_def protocol_line_def lang_mark_def
    lit_evals hex_sets)

lemma vendor_line_step: "parse_line (vendor_line v) (st, names) =
    (if lang_mark v then (LsLang, names)
     else (LsVendor (VendorKey (fst v)), names\<lparr>n_vendor := (n_vendor names)(VendorKey (fst v) \<mapsto> trim (snd v))\<rparr>))"
proof -
  obtain a r where h: "hex4 (fst v) = a # r" "48 \<le> a \<and> a \<le> 57 \<or> 97 \<le> a \<and> a \<le> 102" using hex_head by blast
  have "\<not> can_skip (vendor_line v)" using h can_skip_digit by (auto simp: vendor_line_def)
  moreover have "parse_class (vendor_line v) = None"
    using h by (auto simp: parse_class_def parse_after_def vendor_line_def lit_evals)
  moreover have "parse_vendor (vendor_line v) = Some (VendorKey (fst v), trim (snd v))"
    by (simp add: parse_vendor_def vendor_line_def parse_hex4 parse_value_line hex_sets)
  ultimately show ?thesis by (simp add: parse_line_def Let_def lit_evals line_marks)
qed

lemma class_line_step: "parse_line (class_line c) (st, names) =
    (if lang_mark c then (LsLang, names)
     else (LsClass (ClassKey (fst c)), names\<lparr>n_class := (n_class names)(ClassKey (fst c) \<mapsto> trim (snd c))\<rparr>))"
proof -
  have "\<not> can_skip (class_line c)" by (simp add: class_line_def lit_evals can_skip_other)
  moreover have "parse_class (class_line c) = Some (ClassKey (fst c), trim (snd c))"
    by (simp add: parse_class_def parse_after_def class_line_def lit_evals parse_hex2 parse_value_line hex_sets)
  ultimately show ?thesis by (simp add: parse_line_def Let_def lit_evals line_marks)
qed

text \<open>A line that starts with a tab goes to the table of the last line above it.\<close>

lemma tab_line: "parse_line (9 # l) s =
    (if sublist [76, 32] (9 # l) then (LsLang, snd s)
     else if sublist [72, 85, 84, 32] (9 # l) then (LsHut, snd s) else parse_nested (9 # l) s)"
proof -
  have "parse_vendor (9 # l) = None"
    by (auto simp: parse_vendor_def parse_value_def parse_tab split: option.split)
  then show ?thesis
    by (simp add: parse_line_def Let_def lit_evals can_skip_other parse_class_def parse_after_def)
qed

lemma parse_after_line: "32 \<notin> set t \<Longrightarrow>
    parse_after [9] f (9 # t @ 32 # 32 # n) = map_option (\<lambda>k. (k, trim n)) (f t)"
  "32 \<notin> set t \<Longrightarrow>
    parse_after [9, 9] f (9 # 9 # t @ 32 # 32 # n) = map_option (\<lambda>k. (k, trim n)) (f t)"
  by (simp_all add: parse_after_def parse_value_line)

definition ignoring :: "last_state \<Rightarrow> bool" where
  "ignoring st \<longleftrightarrow> st = LsLang \<or> st = LsHut"

definition lost_state :: "'k named \<Rightarrow> last_state" where
  "lost_state x = (if lang_mark x then LsLang else LsHut)"

lemma nested_line:
  "parse_line (product_line p) s = (if section_mark p then (lost_state p, snd s) else parse_nested (product_line p) s)"
  "parse_line (subclass_line c) s = (if section_mark c then (lost_state c, snd s) else parse_nested (subclass_line c) s)"
  "parse_line (protocol_line c) s = (if section_mark c then (lost_state c, snd s) else parse_nested (protocol_line c) s)"
  using tab_line [of "hex4 (fst p) @ [32, 32] @ snd p" s] tab_line [of "hex2 (fst c) @ [32, 32] @ snd c" s]
    tab_line [of "[9] @ hex2 (fst c) @ [32, 32] @ snd c" s] line_marks(3,6) [of p] line_marks(4,5,7,8) [of c]
  by (simp_all add: product_line_def subclass_line_def protocol_line_def section_mark_def lost_state_def lit_evals)

definition in_vendor :: "u16 \<Rightarrow> last_state \<Rightarrow> bool" where
  "in_vendor v st \<longleftrightarrow> st = LsVendor (VendorKey v) \<or> (\<exists>q. st = LsProduct (ProductKey v q))"

definition in_class :: "u8 \<Rightarrow> last_state \<Rightarrow> bool" where
  "in_class c st \<longleftrightarrow> st = LsClass (ClassKey c) \<or> (\<exists>q. st = LsSubclass (SubclassKey c q))"

lemma product_line_step:
  assumes "in_vendor v st"
  shows "parse_line (product_line p) (st, names) =
    (if section_mark p then (lost_state p, names)
     else (LsProduct (ProductKey v (fst p)), names\<lparr>n_product := (n_product names)(ProductKey v (fst p) \<mapsto> trim (snd p))\<rparr>))"
proof -
  have "parse_product v (product_line p) = Some (ProductKey v (fst p), trim (snd p))"
    by (simp add: parse_product_def product_line_def parse_hex4 parse_after_line hex_sets)
  with assms show ?thesis by (auto simp: nested_line in_vendor_def)
qed

lemma subclass_line_step:
  assumes "in_class c st"
  shows "parse_line (subclass_line s) (st, names) =
    (if section_mark s then (lost_state s, names)
     else (LsSubclass (SubclassKey c (fst s)), names\<lparr>n_subclass := (n_subclass names)(SubclassKey c (fst s) \<mapsto> trim (snd s))\<rparr>))"
proof -
  have "parse_subclass c (subclass_line s) = Some (SubclassKey c (fst s), trim (snd s))"
    by (simp add: parse_subclass_def subclass_line_def parse_hex2 parse_after_line hex_sets)
  with assms show ?thesis by (auto simp: nested_line in_class_def)
qed

lemma protocol_line_step: "parse_line (protocol_line r) (LsSubclass (SubclassKey c s), names) =
    (if section_mark r then (lost_state r, names)
     else (LsSubclass (SubclassKey c s), names\<lparr>n_protocol := (n_protocol names)(ProtocolKey c s (fst r) \<mapsto> trim (snd r))\<rparr>))"
proof -
  have t: "32 \<notin> set (9 # hex2 (fst r))" using hex_sets(1) by auto
  have "parse_subclass c (protocol_line r) = None"
    by (simp add: parse_subclass_def protocol_line_def parse_after_line(1) [OF t, simplified] parse_tab)
  moreover have "parse_protocol c s (protocol_line r) = Some (ProtocolKey c s (fst r), trim (snd r))"
    by (simp add: parse_protocol_def protocol_line_def parse_hex2 parse_after_line hex_sets)
  ultimately show ?thesis by (simp add: nested_line)
qed

section \<open>Facts: a group of lines\<close>

text \<open>Where entries are ignored, they stay ignored.\<close>

lemma ignored_lines:
  assumes "ignoring st" and "\<forall>l \<in> set ls. \<exists>r. l = 9 # r"
  shows "\<exists>st'. fold parse_line ls (st, names) = (st', names) \<and> ignoring st'"
  using assms
proof (induction ls arbitrary: st)
  case (Cons l ls)
  then obtain r where l: "l = 9 # r" by auto
  have "\<exists>st1. parse_line l (st, names) = (st1, names) \<and> ignoring st1"
    using Cons.prems(1) by (auto simp: l tab_line ignoring_def)
  with Cons show ?case by auto
qed simp

lemma tab_lines: "\<exists>r. product_line p = 9 # r" "\<exists>r. subclass_line c = 9 # r" "\<exists>r. protocol_line c = 9 # r"
  by (simp_all add: product_line_def subclass_line_def protocol_line_def)

lemma lost_ignoring [simp]: "ignoring (lost_state x)"
  by (simp add: ignoring_def lost_state_def)

text \<open>Adding the entries of a later part.\<close>

definition names_add :: "usb_names \<Rightarrow> usb_names \<Rightarrow> usb_names" where
  "names_add a b = \<lparr>n_vendor = n_vendor a ++ n_vendor b, n_product = n_product a ++ n_product b,
     n_class = n_class a ++ n_class b, n_subclass = n_subclass a ++ n_subclass b,
     n_protocol = n_protocol a ++ n_protocol b\<rparr>"

lemma names_add_simps [simp]: "names_add no_names a = a" "names_add a no_names = a"
  "names_add (names_add a b) c = names_add a (names_add b c)"
  by (simp_all add: names_add_def no_names_def map_add_assoc)

lemma last_of_simps [simp]: "last_of [] = Map.empty" "last_of (x # xs) = [fst x \<mapsto> snd x] ++ last_of xs"
  "last_of (xs @ ys) = last_of xs ++ last_of ys"
  by (simp_all add: last_of_def)

lemma names_upd_add:
  "a\<lparr>n_vendor := (n_vendor a)(k1 \<mapsto> x)\<rparr> = names_add a (no_names\<lparr>n_vendor := [k1 \<mapsto> x]\<rparr>)"
  "a\<lparr>n_product := (n_product a)(k2 \<mapsto> x)\<rparr> = names_add a (no_names\<lparr>n_product := [k2 \<mapsto> x]\<rparr>)"
  "a\<lparr>n_class := (n_class a)(k3 \<mapsto> x)\<rparr> = names_add a (no_names\<lparr>n_class := [k3 \<mapsto> x]\<rparr>)"
  "a\<lparr>n_subclass := (n_subclass a)(k4 \<mapsto> x)\<rparr> = names_add a (no_names\<lparr>n_subclass := [k4 \<mapsto> x]\<rparr>)"
  "a\<lparr>n_protocol := (n_protocol a)(k5 \<mapsto> x)\<rparr> = names_add a (no_names\<lparr>n_protocol := [k5 \<mapsto> x]\<rparr>)"
  by (simp_all add: names_add_def no_names_def map_add_upd)

definition products_db :: "u16 \<Rightarrow> u16 named list \<Rightarrow> usb_names" where
  "products_db v ps = no_names\<lparr>n_product := last_of (map (named_as (ProductKey v)) ps)\<rparr>"

definition protocols_db :: "u8 \<Rightarrow> u8 \<Rightarrow> u8 named list \<Rightarrow> usb_names" where
  "protocols_db c s rs = no_names\<lparr>n_protocol := last_of (map (named_as (ProtocolKey c s)) rs)\<rparr>"

lemma group_Nil [simp]: "products_db v [] = no_names" "protocols_db c s [] = no_names"
  by (simp_all add: products_db_def protocols_db_def no_names_def)

lemma group_Cons:
  "products_db v (p # ps) = names_add (no_names\<lparr>n_product := [ProductKey v (fst p) \<mapsto> trim (snd p)]\<rparr>) (products_db v ps)"
  "protocols_db c s (r # rs) = names_add (no_names\<lparr>n_protocol := [ProtocolKey c s (fst r) \<mapsto> trim (snd r)]\<rparr>) (protocols_db c s rs)"
  by (simp_all add: products_db_def protocols_db_def names_add_def no_names_def named_as_def)

lemma unmarked_simps [simp]: "unmarked [] = []" "unmarked (x # xs) = (if section_mark x then [] else x # unmarked xs)"
  by (simp_all add: unmarked_def)

text \<open>The entries of one table: those before the first marked one are recorded.\<close>

lemma entries_fold:
  assumes step: "\<And>x st names. active st \<Longrightarrow> \<exists>st'. active st' \<and> parse_line (line x) (st, names) =
      (if section_mark x then (lost_state x, names) else (st', names_add names (entry x)))"
    and tabs: "\<And>x. \<exists>r. line x = 9 # r"
    and table: "table [] = no_names" "\<And>x xs. table (x # xs) = names_add (entry x) (table xs)"
  shows "active st \<Longrightarrow> \<exists>st'. fold parse_line (map line xs) (st, names) = (st', names_add names (table (unmarked xs))) \<and>
    (if \<exists>x \<in> set xs. section_mark x then ignoring st' else active st')"
proof (induction xs arbitrary: st names)
  case Nil
  then show ?case by (simp add: table(1))
next
  case (Cons x xs)
  from step [OF Cons.prems, of x names] obtain st1 where st1: "active st1" "parse_line (line x) (st, names) =
      (if section_mark x then (lost_state x, names) else (st1, names_add names (entry x)))" by blast
  show ?case
  proof (cases "section_mark x")
    case True
    with ignored_lines [OF lost_ignoring [of x], of "map line xs" names] tabs st1(2) show ?thesis by (auto simp: table(1))
  next
    case False
    with Cons.IH [OF st1(1), of "names_add names (entry x)"] st1(2) show ?thesis by (simp add: table(2))
  qed
qed

lemma products_fold:
  assumes "in_vendor v st"
  shows "\<exists>st'. fold parse_line (map product_line ps) (st, names) = (st', names_add names (products_db v (unmarked ps)))"
proof -
  have "\<exists>st'. in_vendor v st' \<and> parse_line (product_line p) (st, names) = (if section_mark p then (lost_state p, names)
      else (st', names_add names (no_names\<lparr>n_product := [ProductKey v (fst p) \<mapsto> trim (snd p)]\<rparr>)))"
    if "in_vendor v st" for p st names
    unfolding product_line_step [OF that] names_upd_add by (auto simp: in_vendor_def)
  from entries_fold [where table = "products_db v", OF this tab_lines(1) _ group_Cons(1) assms] show ?thesis by fastforce
qed

lemma protocols_fold: "\<exists>st'. fold parse_line (map protocol_line rs) (LsSubclass (SubclassKey c s), names) =
      (st', names_add names (protocols_db c s (unmarked rs))) \<and>
    (if \<exists>r \<in> set rs. section_mark r then ignoring st' else st' = LsSubclass (SubclassKey c s))"
proof -
  have "\<exists>st'. st' = LsSubclass (SubclassKey c s) \<and> parse_line (protocol_line r) (st, names) =
      (if section_mark r then (lost_state r, names)
       else (st', names_add names (no_names\<lparr>n_protocol := [ProtocolKey c s (fst r) \<mapsto> trim (snd r)]\<rparr>)))"
    if "st = LsSubclass (SubclassKey c s)" for r st names
    unfolding that protocol_line_step names_upd_add by auto
  from entries_fold [where table = "protocols_db c s", OF this tab_lines(3) _ group_Cons(2) refl] show ?thesis by simp
qed

lemma group_lines:
  "vendor_lines (v, ps) = vendor_line v # map product_line ps"
  "subclass_lines (s, rs) = subclass_line s # map protocol_line rs"
  "class_lines (c, ss) = class_line c # concat (map subclass_lines ss)"
  "other_lines (h, es) = other_line h # map (Cons 9) es"
  by (simp_all add: vendor_lines_def subclass_lines_def class_lines_def other_lines_def)

definition subclasses_db :: "u8 \<Rightarrow> (u8 named \<times> u8 named list) list \<Rightarrow> usb_names" where
  "subclasses_db c ss = no_names\<lparr>n_subclass := last_of (map (\<lambda>(s, rs). named_as (SubclassKey c) s) ss),
     n_protocol := last_of (concat (map (\<lambda>(s, rs). map (named_as (ProtocolKey c (fst s))) rs) ss))\<rparr>"

definition vendors_db :: "(u16 named \<times> u16 named list) list \<Rightarrow> usb_names" where
  "vendors_db vs = db_names \<lparr>db_vendors = vs, db_classes = [], db_others = []\<rparr>"

definition classes_db :: "(u8 named \<times> (u8 named \<times> u8 named list) list) list \<Rightarrow> usb_names" where
  "classes_db cs = db_names \<lparr>db_vendors = [], db_classes = cs, db_others = []\<rparr>"

lemma db_names_split: "db_names db = names_add (vendors_db (db_vendors db)) (classes_db (db_classes db))"
  by (simp add: db_names_def vendors_db_def classes_db_def names_add_def)

lemma part_Nil [simp]: "subclasses_db c [] = no_names" "vendors_db [] = no_names" "classes_db [] = no_names"
  by (simp_all add: subclasses_db_def vendors_db_def classes_db_def db_names_def no_names_def)

lemma subclasses_db_Cons: "subclasses_db c ((s, rs) # ss) =
    names_add (no_names\<lparr>n_subclass := [SubclassKey c (fst s) \<mapsto> trim (snd s)]\<rparr>)
      (names_add (protocols_db c (fst s) rs) (subclasses_db c ss))"
  by (simp add: subclasses_db_def protocols_db_def names_add_def no_names_def named_as_def)

lemma vendors_db_Cons: "vendors_db ((v, ps) # vs) =
    names_add (no_names\<lparr>n_vendor := [VendorKey (fst v) \<mapsto> trim (snd v)]\<rparr>)
      (names_add (products_db (fst v) ps) (vendors_db vs))"
  by (simp add: vendors_db_def products_db_def db_names_def names_add_def no_names_def named_as_def)

lemma classes_db_Cons: "classes_db ((c, ss) # cs) =
    names_add (no_names\<lparr>n_class := [ClassKey (fst c) \<mapsto> trim (snd c)]\<rparr>)
      (names_add (subclasses_db (fst c) ss) (classes_db cs))"
  by (simp add: classes_db_def db_names_def subclasses_db_def names_add_def no_names_def named_as_def)

lemma subclasses_fold:
  assumes "in_class c st"
  shows "\<exists>st'. fold parse_line (concat (map subclass_lines ss)) (st, names) =
    (st', names_add names (subclasses_db c (kept_subclasses ss)))"
  using assms
proof (induction ss arbitrary: st names)
  case (Cons x ss)
  obtain s rs where x: "x = (s, rs)" by (cases x)
  show ?case
  proof (cases "section_mark s")
    case True
    have "\<forall>l \<in> set (map protocol_line rs @ concat (map subclass_lines ss)). \<exists>r. l = 9 # r"
      using tab_lines by (auto simp: group_lines)
    from ignored_lines [OF lost_ignoring [of s] this, of names] True show ?thesis
      by (auto simp: x group_lines subclass_line_step [OF Cons.prems])
  next
    case False
    define n1 where "n1 = names_add names (no_names\<lparr>n_subclass := [SubclassKey c (fst s) \<mapsto> trim (snd s)]\<rparr>)"
    define n2 where "n2 = names_add n1 (protocols_db c (fst s) (unmarked rs))"
    obtain st2 where st2: "fold parse_line (map protocol_line rs) (LsSubclass (SubclassKey c (fst s)), n1) = (st2, n2)"
      "if \<exists>r \<in> set rs. section_mark r then ignoring st2 else st2 = LsSubclass (SubclassKey c (fst s))"
      using protocols_fold [of rs c "fst s" n1] unfolding n2_def by blast
    have first: "fold parse_line (subclass_lines x) (st, names) = (st2, n2)"
      using False st2(1) by (simp add: x group_lines subclass_line_step [OF Cons.prems] names_upd_add n1_def)
    show ?thesis
    proof (cases "\<exists>r \<in> set rs. section_mark r")
      case True
      have "\<forall>l \<in> set (concat (map subclass_lines ss)). \<exists>r. l = 9 # r"
        using tab_lines by (auto simp: group_lines)
      from ignored_lines [OF _ this, of st2 n2] True st2(2) first False show ?thesis
        by (auto simp: x n2_def n1_def subclasses_db_Cons)
    next
      case unm: False
      then have "in_class c st2" using st2(2) by (auto simp: in_class_def)
      from Cons.IH [OF this, of n2] unm first False show ?thesis
        by (auto simp: x n2_def n1_def subclasses_db_Cons)
    qed
  qed
qed simp

lemma vendors_fold: "\<exists>st'. fold parse_line (concat (map vendor_lines vs)) (st, names) =
    (st', names_add names (vendors_db (kept_vendors vs)))"
proof (induction vs arbitrary: st names)
  case (Cons x vs)
  obtain v ps where x: "x = (v, ps)" by (cases x)
  show ?case
  proof (cases "lang_mark v")
    case True
    have "\<forall>l \<in> set (map product_line ps). \<exists>r. l = 9 # r" using tab_lines by auto
    from ignored_lines [OF _ this, of LsLang names] True Cons.IH show ?thesis
      by (auto simp: x group_lines vendor_line_step ignoring_def kept_vendors_def)
  next
    case False
    define n1 where "n1 = names_add names (no_names\<lparr>n_vendor := [VendorKey (fst v) \<mapsto> trim (snd v)]\<rparr>)"
    have "in_vendor (fst v) (LsVendor (VendorKey (fst v)))" by (simp add: in_vendor_def)
    from products_fold [OF this, of ps n1] obtain st2 where
      "fold parse_line (vendor_lines x) (st, names) = (st2, names_add n1 (products_db (fst v) (unmarked ps)))"
      using False by (auto simp: x group_lines vendor_line_step names_upd_add n1_def)
    with Cons.IH [of st2 "names_add n1 (products_db (fst v) (unmarked ps))"] False show ?thesis
      by (auto simp: x n1_def kept_vendors_def vendors_db_Cons)
  qed
qed (simp add: kept_vendors_def)

lemma classes_fold: "\<exists>st'. fold parse_line (concat (map class_lines cs)) (st, names) =
    (st', names_add names (classes_db (kept_classes cs)))"
proof (induction cs arbitrary: st names)
  case (Cons x cs)
  obtain c ss where x: "x = (c, ss)" by (cases x)
  show ?case
  proof (cases "lang_mark c")
    case True
    have "\<forall>l \<in> set (concat (map subclass_lines ss)). \<exists>r. l = 9 # r"
      using tab_lines by (auto simp: group_lines)
    from ignored_lines [OF _ this, of LsLang names] True Cons.IH show ?thesis
      by (auto simp: x group_lines class_line_step ignoring_def kept_classes_def)
  next
    case False
    define n1 where "n1 = names_add names (no_names\<lparr>n_class := [ClassKey (fst c) \<mapsto> trim (snd c)]\<rparr>)"
    have "in_class (fst c) (LsClass (ClassKey (fst c)))" by (simp add: in_class_def)
    from subclasses_fold [OF this, of ss n1] obtain st2 where
      "fold parse_line (class_lines x) (st, names) = (st2, names_add n1 (subclasses_db (fst c) (kept_subclasses ss)))"
      using False by (auto simp: x group_lines class_line_step names_upd_add n1_def)
    with Cons.IH [of st2 "names_add n1 (subclasses_db (fst c) (kept_subclasses ss))"] False show ?thesis
      by (auto simp: x n1_def kept_classes_def classes_db_Cons)
  qed
qed (simp add: kept_classes_def)

lemma other_line_step: "\<exists>st'. parse_line (other_line x) (st, names) = (st', names) \<and> ignoring st'"
proof (cases "fst x")
  case Languages
  then show ?thesis by (simp add: other_line_def parse_line_def lit_evals can_skip_other ignoring_def Let_def)
next
  case Usages
  have "from_str_radix16 [72, 85, 84] = (None :: u16 option)" by (simp add: from_str_radix16_def hex_digit_def)
  with Usages show ?thesis
    by (simp add: other_line_def parse_line_def lit_evals can_skip_other ignoring_def Let_def parse_class_def
      parse_after_def parse_vendor_def parse_value_def)
qed

lemma others_fold: "\<exists>st'. fold parse_line (concat (map other_lines os)) (st, names) = (st', names)"
proof (induction os arbitrary: st)
  case (Cons x os)
  obtain h es where x: "x = (h, es)" by (cases x)
  from other_line_step [of h st names] obtain st1 where st1: "parse_line (other_line h) (st, names) = (st1, names)"
    "ignoring st1" by blast
  with ignored_lines [OF st1(2), of "map (Cons 9) es" names] Cons show ?case by (auto simp: x group_lines)
qed simp

section \<open>Facts: the whole text\<close>

lemma lines_from_line: "10 \<notin> set l \<Longrightarrow> lines_from acc (l @ 10 # s) = strip_cr (acc @ l) # lines_from [] s"
  by (induction l arbitrary: acc) auto

lemma lines_of_text: "\<forall>l \<in> set ls. plain_line l \<Longrightarrow> lines_of (db_text ls) = ls"
  unfolding lines_of_def db_text_def
proof (induction ls)
  case (Cons l ls)
  then show ?case by (simp add: plain_line_def lines_from_line)
qed simp

lemma skipped_lines: "fold parse_line (filter (\<lambda>l. \<not> can_skip l) ls) s = fold parse_line ls s"
  by (induction ls arbitrary: s) (simp_all add: parse_line_def)

lemma kept_names: "db_names (kept_db db) =
    names_add (vendors_db (kept_vendors (db_vendors db))) (classes_db (kept_classes (db_classes db)))"
  unfolding db_names_split [of "kept_db db"] by (simp add: kept_db_def)

lemma db_not_skipped: "l \<in> set (db_lines db) \<Longrightarrow> \<not> can_skip l"
proof -
  have "\<not> can_skip (vendor_line v)" for v
    using hex_head [of "fst v"] can_skip_digit by (auto simp: vendor_line_def)
  moreover have "\<not> can_skip (other_line x)" for x
    by (auto simp: other_line_def lit_evals can_skip_other split: other_section.split)
  ultimately show "l \<in> set (db_lines db) \<Longrightarrow> \<not> can_skip l"
    by (auto simp: db_lines_def vendor_lines_def class_lines_def subclass_lines_def other_lines_def product_line_def
      class_line_def subclass_line_def protocol_line_def lit_evals can_skip_other)
qed

lemma parse_lines:
  assumes "\<forall>l \<in> set ls. plain_line l" and "filter (\<lambda>l. \<not> can_skip l) ls = db_lines db"
  shows "usb_parse (db_text ls) = db_names (kept_db db)"
proof -
  obtain st1 where v: "fold parse_line (concat (map vendor_lines (db_vendors db))) (LsStart, no_names) =
      (st1, vendors_db (kept_vendors (db_vendors db)))"
    using vendors_fold [of "db_vendors db" LsStart no_names] by auto
  obtain st2 where c: "fold parse_line (concat (map class_lines (db_classes db))) (st1, vendors_db (kept_vendors (db_vendors db))) =
      (st2, db_names (kept_db db))"
    using classes_fold [of "db_classes db" st1 "vendors_db (kept_vendors (db_vendors db))"]
    unfolding kept_names by blast
  obtain st3 where "fold parse_line (db_lines db) (LsStart, no_names) = (st3, db_names (kept_db db))"
    using others_fold [of "db_others db" st2 "db_names (kept_db db)"] v c by (auto simp: db_lines_def)
  then have "fold parse_line ls (LsStart, no_names) = (st3, db_names (kept_db db))"
    using skipped_lines [of ls "(LsStart, no_names)"] assms(2) by simp
  then show ?thesis by (simp add: usb_parse_def lines_of_text [OF assms(1)])
qed

lemma unmarked_good: "\<forall>x \<in> set xs. \<not> section_mark x \<Longrightarrow> unmarked xs = xs"
  by (simp add: unmarked_def)

lemma kept_subclasses_good:
  "\<forall>(s, rs) \<in> set ss. \<not> section_mark s \<and> (\<forall>r \<in> set rs. \<not> section_mark r) \<Longrightarrow> kept_subclasses ss = ss"
  by (induction ss rule: kept_subclasses.induct) (auto simp: unmarked_good)

lemma kept_good:
  assumes "good_db db"
  shows "kept_db db = db"
proof -
  have "kept_vendors (db_vendors db) = db_vendors db"
    using assms unfolding kept_vendors_def good_db_def
    by (subst filter_True) (auto simp: unmarked_good intro!: map_idI)
  moreover have "kept_classes (db_classes db) = db_classes db"
    using assms unfolding kept_classes_def good_db_def
    by (subst filter_True) (auto intro!: map_idI kept_subclasses_good)
  ultimately show ?thesis by (simp add: kept_db_def)
qed

section \<open>Properties\<close>

text \<open>C31. What the parser makes of a file in the format of the shipped \<^verbatim>\<open>usb-ids\<close>: vendors with their products, classes
  with their subclasses and protocols, then sections of languages and usages, with any lines that are
  skipped anywhere between them. The tables are exactly those of the database, trimmed and with the
  last entry for a key, less the names that contain the letters that start a section of languages or
  usages, with what is below them or behind them (as \<open>kept_db\<close> says). If there are no such names,
  nothing is lost, and parsing inverts printing. (The shipped file has such names.)\<close>

theorem usb_ids_round_trip:
  assumes "\<forall>l \<in> set ls. plain_line l" and "filter (\<lambda>l. \<not> can_skip l) ls = db_lines db"
  shows "usb_parse (db_text ls) = db_names (kept_db db) \<and> (good_db db \<longrightarrow> usb_parse (db_text ls) = db_names db)"
  using parse_lines [OF assms] kept_good [of db] by auto

text \<open>So a product whose name contains \<open>L \<close> (as in the name of a panel or a modem) is lost with
  every product after it, up to the next vendor.\<close>

theorem usb_ids_lost_products:
  assumes "\<forall>l \<in> set (vendor_lines (v, ps1 @ p # ps2)). plain_line l" and "\<not> lang_mark v" and "section_mark p"
  shows "product_name (usb_parse (db_text (vendor_lines (v, ps1 @ p # ps2)))) (fst v) q =
    last_of (map (named_as id) (unmarked ps1)) q"
proof -
  define db where "db = \<lparr>db_vendors = [(v, ps1 @ p # ps2)], db_classes = [], db_others = []\<rparr>"
  have ls: "db_lines db = vendor_lines (v, ps1 @ p # ps2)" by (simp add: db_lines_def db_def)
  have "filter (\<lambda>l. \<not> can_skip l) (db_lines db) = db_lines db" by (rule filter_True) (blast dest: db_not_skipped)
  from parse_lines [OF _ this] assms(1) have "usb_parse (db_text (db_lines db)) = db_names (kept_db db)" by (simp add: ls)
  moreover have "unmarked (ps1 @ p # ps2) = unmarked ps1" using assms(3) by (induction ps1) auto
  moreover have "last_of (map (named_as (ProductKey (fst v))) ps) (ProductKey (fst v) q) = last_of (map (named_as id) ps) q" for ps
    by (induction ps) (auto simp: named_as_def map_add_def split: option.splits)
  ultimately show ?thesis
    using assms(2) unfolding ls [symmetric]
    by (simp add: product_name_def db_names_def kept_db_def kept_vendors_def db_def)
qed

section \<open>The properties at work\<close>

definition example_db :: usb_db where
  "example_db = \<lparr>db_vendors = [((0x1d6b, lit ''Linux Foundation''), [(2, lit ''2.0 root hub ''), (3, lit ''XL hub''),
       (4, lit ''3.0 root hub'')]), ((0x1d6c, lit ''Acme''), [(2, lit ''Mouse'')])],
     db_classes = [((9, lit ''Hub''), [((0, lit ''Unused''), [(1, lit ''Single TT'')])])],
     db_others = [((Languages, lit ''0001  Arabic''), [lit ''01  Saudi Arabia''])]\<rparr>"

definition example_lines :: "chars list" where
  "example_lines = [lit ''# vendors'', []] @ db_lines example_db"

lemma example_lines_ok: "\<forall>l \<in> set example_lines. plain_line l"
  by (simp add: example_lines_def example_db_def db_lines_def vendor_lines_def class_lines_def subclass_lines_def other_lines_def
    vendor_line_def product_line_def class_line_def subclass_line_def protocol_line_def other_line_def plain_line_def
    strip_cr_def lit_def hex4_def hex2_def hex_char_def)

lemma example_lines_db: "filter (\<lambda>l. \<not> can_skip l) example_lines = db_lines example_db"
proof -
  have "filter (\<lambda>l. \<not> can_skip l) (db_lines example_db) = db_lines example_db"
    by (rule filter_True) (blast dest: db_not_skipped)
  then show ?thesis by (simp add: example_lines_def can_skip_def lit_def)
qed

theorem usb_ids_round_trip_witness:
  "product_name (usb_parse (db_text example_lines)) 0x1d6b 2 = Some (lit ''2.0 root hub'') \<and>
   product_name (usb_parse (db_text example_lines)) 0x1d6b 4 = None \<and>
   product_name (usb_parse (db_text example_lines)) 0x1d6c 2 = Some (lit ''Mouse'') \<and>
   protocol_name (usb_parse (db_text example_lines)) 9 0 1 = Some (lit ''Single TT'')"
  unfolding usb_ids_round_trip [OF example_lines_ok example_lines_db, THEN conjunct1]
  by (simp add: example_db_def db_names_def kept_db_def kept_vendors_def kept_classes_def lang_mark_def section_mark_def
    product_name_def protocol_name_def named_as_def trim_def white_space_def lit_def sublist_code)

theorem usb_ids_lost_products_witness:
  "product_name (usb_parse (db_text (vendor_lines ((1, lit ''Acme''),
     [(16, lit ''Hub'')] @ (17, lit ''XL Hub'') # [(18, lit ''Mouse'')])))) 1 18 = None"
proof -
  have "\<forall>l \<in> set (vendor_lines ((1, lit ''Acme''), [(16, lit ''Hub'')] @ (17, lit ''XL Hub'') # [(18, lit ''Mouse'')])). plain_line l"
    by (simp add: vendor_lines_def vendor_line_def product_line_def plain_line_def strip_cr_def lit_def hex4_def hex_char_def)
  from usb_ids_lost_products [OF this, of 18] show ?thesis
    by (simp add: lang_mark_def section_mark_def named_as_def lit_def sublist_code)
qed

end
