(* ===== verification/Cli_Args.thy ===== *)
theory Cli_Args
  imports Usb_Ids
begin

text \<open>
  The arguments of the command line, \<^verbatim>\<open>crates/qusb-cli/src/args.rs\<close>: the number of ports of the
  virtual host controller, and a device as bus and device number.
\<close>

section \<open>Numbers\<close>

text \<open>
  \<^verbatim>\<open>str::parse::<u8>\<close> of the standard library: a sign \<open>+\<close> is accepted, a digit that is none or a value
  that does not fit ends the parsing, whichever comes first.
\<close>

datatype parse_int_error = ErrEmpty | ErrInvalidDigit | ErrPosOverflow

definition dec_digit :: "nat \<Rightarrow> nat option" where
  "dec_digit c = (if 48 \<le> c \<and> c \<le> 57 then Some (c - 48) else None)"

fun dec_digits :: "nat \<Rightarrow> nat \<Rightarrow> chars \<Rightarrow> parse_int_error + nat" where
  "dec_digits bound acc [] = Inr acc"
| "dec_digits bound acc (c # s) =
     (case dec_digit c of
        None \<Rightarrow> Inl ErrInvalidDigit
      | Some d \<Rightarrow> if acc * 10 + d < bound then dec_digits bound (acc * 10 + d) s else Inl ErrPosOverflow)"

definition parse_u8 :: "chars \<Rightarrow> parse_int_error + u8" where
  "parse_u8 s =
     (if s = [] then Inl ErrEmpty
      else if s = [43] \<or> s = [45] then Inl ErrInvalidDigit
      else map_sum id of_nat (dec_digits 256 0 (if hd s = 43 then tl s else s)))"

section \<open>Arguments\<close>

text \<open>\<^verbatim>\<open>BoundedU8<1, 32>\<close> of the crate \<^verbatim>\<open>vhci\<close> is the parameter \<open>bounded\<close>, which gives the number when
  it is within the bounds.\<close>

datatype num_vhci_ports = NumVhciPorts u8

datatype num_vhci_ports_err = OutOfBounds | PortsParseInt parse_int_error

definition num_vhci_ports_from_str :: "(u8 \<Rightarrow> u8 option) \<Rightarrow> chars \<Rightarrow> num_vhci_ports_err + num_vhci_ports" where
  "num_vhci_ports_from_str bounded s =
     (case parse_u8 s of
        Inl err \<Rightarrow> Inl (PortsParseInt err)
      | Inr n \<Rightarrow>
          (case bounded n of
             Some v \<Rightarrow> Inr (NumVhciPorts v)
           | None \<Rightarrow> Inl OutOfBounds))"

record device_id =
  di_bus :: u8
  di_dev :: u8

datatype device_id_parse_error = MissingColon | DeviceParseInt parse_int_error

definition device_id_from_str :: "chars \<Rightarrow> device_id_parse_error + device_id" where
  "device_id_from_str s =
     (case split_once 58 (trim s) of
        None \<Rightarrow> Inl MissingColon
      | Some (bus, dev) \<Rightarrow>
          (case parse_u8 bus of
             Inl err \<Rightarrow> Inl (DeviceParseInt err)
           | Inr bus \<Rightarrow>
               (case parse_u8 dev of
                  Inl err \<Rightarrow> Inl (DeviceParseInt err)
                | Inr dev \<Rightarrow> Inr \<lparr>di_bus = bus, di_dev = dev\<rparr>)))"

section \<open>Facts\<close>

text \<open>Decimal notation, as a reference: the digits of a number, without leading zeros.\<close>

function dec_of :: "nat \<Rightarrow> chars" where
  "dec_of n = (if n < 10 then [48 + n] else dec_of (n div 10) @ [48 + n mod 10])"
  by pat_completeness auto
termination by (relation "measure id") auto

declare dec_of.simps [simp del]

lemma dec_of_induct [case_names digit more_digits]:
  assumes "\<And>n. n < 10 \<Longrightarrow> P n" and "\<And>n d. 0 < n \<Longrightarrow> d < 10 \<Longrightarrow> P n \<Longrightarrow> P (n * 10 + d)"
  shows "P (n :: nat)"
proof (induction n rule: less_induct)
  case (less n)
  show ?case
  proof (cases "n < 10")
    case False
    with assms(2) [of "n div 10" "n mod 10"] less.IH [of "n div 10"] show ?thesis by simp
  qed (rule assms(1))
qed

lemma dec_of_simps:
  "n < 10 \<Longrightarrow> dec_of n = [48 + n]"
  "0 < n \<Longrightarrow> d < 10 \<Longrightarrow> dec_of (n * 10 + d) = dec_of n @ [48 + d]"
  by (simp_all add: dec_of.simps)

lemma dec_digits_append:
  "dec_digits bound acc (s @ t) = (case dec_digits bound acc s of Inl err \<Rightarrow> Inl err | Inr v \<Rightarrow> dec_digits bound v t)"
  by (induction bound acc s rule: dec_digits.induct) (auto split: option.split)

text \<open>What a string of digits denotes.\<close>

definition horner :: "nat \<Rightarrow> chars \<Rightarrow> nat" where
  "horner = foldl (\<lambda>acc c. acc * 10 + (c - 48))"

definition digits :: "chars \<Rightarrow> bool" where
  "digits s \<longleftrightarrow> (\<forall>c \<in> set s. 48 \<le> c \<and> c \<le> 57)"

definition denotes :: "chars \<Rightarrow> u8 \<Rightarrow> bool" where
  "denotes s w \<longleftrightarrow> (\<exists>ds. (s = ds \<or> s = 43 # ds) \<and> ds \<noteq> [] \<and> digits ds \<and> horner 0 ds = unat w)"

lemma horner_simps [simp]:
  "horner acc [] = acc" "horner acc (c # s) = horner (acc * 10 + (c - 48)) s"
  "horner acc (s @ [c]) = horner acc s * 10 + (c - 48)"
  by (simp_all add: horner_def)

lemma digits_simps [simp]:
  "digits []" "digits (c # s) \<longleftrightarrow> 48 \<le> c \<and> c \<le> 57 \<and> digits s" "digits (s @ t) \<longleftrightarrow> digits s \<and> digits t"
  by (auto simp: digits_def)

lemma horner_ge: "acc \<le> horner acc s"
proof (induction s arbitrary: acc)
  case (Cons c s)
  from Cons.IH [of "acc * 10 + (c - 48)"] show ?case by simp
qed simp

lemma dec_digits_Inr: "dec_digits bound acc s = Inr v \<longleftrightarrow> digits s \<and> horner acc s = v \<and> (s \<noteq> [] \<longrightarrow> v < bound)"
proof (induction bound acc s rule: dec_digits.induct)
  case (2 bound acc c s)
  show ?case
  proof (cases "dec_digit c")
    case None
    then show ?thesis by (auto simp: dec_digit_def split: if_splits)
  next
    case (Some d)
    then have d: "48 \<le> c" "c \<le> 57" "d = c - 48" by (auto simp: dec_digit_def split: if_splits)
    show ?thesis
    proof (cases "acc * 10 + d < bound")
      case True
      with Some d 2 show ?thesis by auto
    next
      case False
      with Some d horner_ge [of "acc * 10 + d" s] show ?thesis by auto
    qed
  qed
qed auto

lemma digits_dec_of: "digits (dec_of n) \<and> horner 0 (dec_of n) = n \<and> dec_of n \<noteq> []"
  by (induction n rule: dec_of_induct) (simp_all add: dec_of_simps)

lemma parse_u8_Inr: "parse_u8 s = Inr w \<longleftrightarrow> denotes s w"
proof (cases "s = [] \<or> s = [43] \<or> s = [45]")
  case True
  then show ?thesis by (auto simp: parse_u8_def denotes_def)
next
  case False
  let ?t = "if hd s = 43 then tl s else s"
  have t: "?t \<noteq> []" using False by (cases s) auto
  have "parse_u8 s = Inr w \<longleftrightarrow> dec_digits 256 0 ?t = Inr (unat w)"
  proof
    assume "parse_u8 s = Inr w"
    then obtain v where v: "dec_digits 256 0 ?t = Inr v" "of_nat v = w"
      using False by (cases "dec_digits 256 0 ?t") (auto simp: parse_u8_def)
    then have "v < 256" using t by (simp add: dec_digits_Inr)
    with v show "dec_digits 256 0 ?t = Inr (unat w)" by (auto simp: unat_of_nat)
  qed (use False in \<open>simp add: parse_u8_def\<close>)
  also have "\<dots> \<longleftrightarrow> denotes s w"
  proof
    assume "dec_digits 256 0 ?t = Inr (unat w)"
    with t have "digits ?t" "horner 0 ?t = unat w" by (simp_all add: dec_digits_Inr)
    moreover have "s = ?t \<or> s = 43 # ?t" using t by (cases s) simp_all
    ultimately show "denotes s w" using t unfolding denotes_def by blast
  next
    assume "denotes s w"
    then obtain ds where ds: "s = ds \<or> s = 43 # ds" "ds \<noteq> []" "digits ds" "horner 0 ds = unat w"
      unfolding denotes_def by blast
    have "?t = ds" using ds(1-3) by (cases ds) auto
    with ds show "dec_digits 256 0 ?t = Inr (unat w)" by (simp add: dec_digits_Inr)
  qed
  finally show ?thesis .
qed

lemma denotes_dec_of: "denotes (dec_of (unat w)) w"
  using digits_dec_of by (auto simp: denotes_def)

lemma denotes_chars:
  assumes "denotes s w"
  shows "s \<noteq> [] \<and> (\<forall>c \<in> set s. c = 43 \<or> 48 \<le> c \<and> c \<le> 57)"
  using assms by (auto simp: denotes_def digits_def)

lemma denotes_no_colon: "denotes s w \<Longrightarrow> 58 \<notin> set s"
  using denotes_chars [of s w] by force

lemma split_once_Some: "split_once c s = Some (a, b) \<longleftrightarrow> s = a @ c # b \<and> c \<notin> set a"
proof (induction s arbitrary: a)
  case (Cons x s)
  show ?case by (cases a) (auto simp: Cons.IH)
qed simp

lemma denotes_not_space: "denotes s w \<Longrightarrow> s \<noteq> [] \<and> (\<forall>c \<in> set s. \<not> white_space c)"
  using denotes_chars [of s w] by (force simp: white_space_def)

lemma trim_middle:
  assumes "\<forall>c \<in> set u. white_space c" and "\<forall>c \<in> set v. white_space c" and "s \<noteq> []"
    and "\<not> white_space (hd s)" and "\<not> white_space (last s)"
  shows "trim (u @ s @ v) = s"
proof -
  have "dropWhile white_space (u @ s @ v) = s @ v"
    using assms(1,3,4) by (cases s) (simp_all add: dropWhile_append2)
  moreover have "dropWhile white_space (rev v @ rev s) = rev s"
  proof (cases s rule: rev_cases)
    case (snoc ys y)
    with assms(2,5) dropWhile_append2 [of "rev v" white_space "rev s"] show ?thesis by simp
  qed (use assms(3) in simp)
  ultimately show ?thesis by (simp add: trim_def)
qed

section \<open>Properties\<close>

text \<open>What a user may write for a device: two numbers below 256 around a colon, in decimal, each with a
  sign \<open>+\<close> or leading zeros if they like, and white space around the whole, not within. Everything
  else is an error.\<close>

theorem device_id_grammar:
  "device_id_from_str s = Inr dev \<longleftrightarrow>
    (\<exists>b d. trim s = b @ 58 # d \<and> denotes b (di_bus dev) \<and> denotes d (di_dev dev))"
proof
  assume "device_id_from_str s = Inr dev"
  then obtain b d where "split_once 58 (trim s) = Some (b, d)" "parse_u8 b = Inr (di_bus dev)" "parse_u8 d = Inr (di_dev dev)"
    by (auto simp: device_id_from_str_def split: option.splits sum.splits)
  then show "\<exists>b d. trim s = b @ 58 # d \<and> denotes b (di_bus dev) \<and> denotes d (di_dev dev)"
    by (auto simp: split_once_Some parse_u8_Inr)
next
  assume "\<exists>b d. trim s = b @ 58 # d \<and> denotes b (di_bus dev) \<and> denotes d (di_dev dev)"
  then obtain b d where bd: "trim s = b @ 58 # d" "denotes b (di_bus dev)" "denotes d (di_dev dev)" by blast
  then have "split_once 58 (trim s) = Some (b, d)" by (simp add: split_once_Some denotes_no_colon)
  with bd(2,3) [folded parse_u8_Inr] show "device_id_from_str s = Inr dev" by (simp add: device_id_from_str_def)
qed

text \<open>The usual notation of a device is read back.\<close>

lemma device_id_round_trip:
  assumes "\<forall>c \<in> set u. white_space c" and "\<forall>c \<in> set v. white_space c"
  shows "device_id_from_str (u @ (dec_of (unat b) @ 58 # dec_of (unat d)) @ v) = Inr \<lparr>di_bus = b, di_dev = d\<rparr>"
proof -
  note n = denotes_not_space [OF denotes_dec_of [of b]] denotes_not_space [OF denotes_dec_of [of d]]
  have "trim (u @ (dec_of (unat b) @ 58 # dec_of (unat d)) @ v) = dec_of (unat b) @ 58 # dec_of (unat d)"
    by (rule trim_middle [OF assms]) (use n in \<open>auto simp: hd_append\<close>)
  then show ?thesis
    using parse_u8_Inr [of "dec_of (unat b)" b] parse_u8_Inr [of "dec_of (unat d)" d] denotes_dec_of [of b] denotes_dec_of [of d]
    by (simp add: device_id_from_str_def split_once_token denotes_no_colon)
qed

text \<open>The number of ports is what the type of bounded numbers makes of the number that is given.\<close>

lemma num_vhci_ports_cases:
  "num_vhci_ports_from_str bounded s = Inr (NumVhciPorts v) \<longleftrightarrow> (\<exists>n. denotes s n \<and> bounded n = Some v)"
  "num_vhci_ports_from_str bounded s = Inl OutOfBounds \<longleftrightarrow> (\<exists>n. denotes s n \<and> bounded n = None)"
  by (auto simp: num_vhci_ports_from_str_def parse_u8_Inr [symmetric] split: sum.splits option.splits)

end
