(* ===== verification/Program.thy ===== *)
theory Program
  imports Server Cli_Args
begin

text \<open>
  The command line program, \<^verbatim>\<open>crates/qusb-cli/src/main.rs\<close>: it opens its log file, starts the server
  (\<^verbatim>\<open>qusb::server\<close>, \<^verbatim>\<open>Server::serve\<close>), waits for an interrupt and shuts the server down. The task of the server
  runs beside it, with the events of \<open>Server\<close>. What the operating system and the crates answer is in
  the events.
\<close>

section \<open>Arguments\<close>

text \<open>\<^verbatim>\<open>SocketAddr\<close> of the standard library.\<close>

datatype socket_addr = AddrV4 u32 u16 | AddrV6 "128 word" u16 u32 u32

definition DEFAULT_PORT :: u16 where "DEFAULT_PORT = 7002"

definition ANY_DEFAULT_PORT :: socket_addr where "ANY_DEFAULT_PORT = AddrV6 0 DEFAULT_PORT 0 0"

definition ANY :: socket_addr where "ANY = AddrV6 0 0 0 0"

datatype commands =
    Serve socket_addr bool num_vhci_ports
  | Borrow socket_addr bool chars device_id

text \<open>\<^verbatim>\<open>DEFAULT_NUM_VHCI_PORTS\<close>; the compiler rejects the program when the number is out of bounds.\<close>

definition DEFAULT_NUM_VHCI_PORTS :: "(u8 \<Rightarrow> u8 option) \<Rightarrow> num_vhci_ports run" where
  "DEFAULT_NUM_VHCI_PORTS bounded = rbind (unwrap (bounded 4)) (\<lambda>v. Ret (NumVhciPorts v))"

text \<open>\<^verbatim>\<open>Display\<close> of a number of ports.\<close>

fun ports_display :: "num_vhci_ports \<Rightarrow> chars" where
  "ports_display (NumVhciPorts v) = dec_of (unat v)"

section \<open>The program\<close>

text \<open>Where the program is: at an \<^verbatim>\<open>await\<close> or a call that can fail, or at its end.\<close>

datatype program =
    PgOpenLog commands
  | PgCommand commands
  | PgBind socket_addr num_vhci_ports
  | PgOpenVhci num_vhci_ports
  | PgWaitCtrlC server
  | PgJoin server
  | PgExit "io_error + unit"
  | PgPanicked

datatype program_event =
    PvLogOpened "io_error + unit"
  | PvCertificate "unit run"
  | PvBound "io_error + unit"
  | PvVhciOpened "io_error + unit"
  | PvServer server_event
  | PvCtrlC "io_error + unit"
  | PvJoined

definition or_exit :: "io_error + unit \<Rightarrow> program \<Rightarrow> program" where
  "or_exit r p = (case r of Inl err \<Rightarrow> PgExit (Inl err) | Inr _ \<Rightarrow> p)"

text \<open>The arms of the \<^verbatim>\<open>match\<close> on the command, with the result of \<^verbatim>\<open>make_self_signed_cfg\<close>.\<close>

fun run_command :: "unit run \<Rightarrow> commands \<Rightarrow> program" where
  "run_command cfg (Serve bind make_self_signed num_vhci_ports) =
     (if make_self_signed then (case cfg of Ret _ \<Rightarrow> PgBind bind num_vhci_ports | _ \<Rightarrow> PgPanicked) else PgPanicked)"
| "run_command cfg (Borrow _ _ _ _) = PgPanicked"

text \<open>\<^verbatim>\<open>qusb::server\<close> binds the endpoint and then opens the controller; \<^verbatim>\<open>serve\<close> starts the task of the server.\<close>

definition server_bound :: "num_vhci_ports \<Rightarrow> io_error + unit \<Rightarrow> program" where
  "server_bound num r = or_exit r (PgOpenVhci num)"

definition server_opened :: "io_error + unit \<Rightarrow> program" where
  "server_opened r = or_exit r (PgWaitCtrlC server_start)"

text \<open>\<^verbatim>\<open>ServerHandle::shutdown\<close>: it cancels the token and waits for the task, which has returned \<^verbatim>\<open>Ok(())\<close>
  when it is over.\<close>

definition shutdown_server :: "server \<Rightarrow> program option" where
  "shutdown_server s = map_option PgJoin (server_step EvShutdown s)"

definition join_server :: "server \<Rightarrow> program option" where
  "join_server s = (if sv_phase s = Returned then Some (PgExit (Inr ())) else None)"

text \<open>\<open>None\<close>: the event cannot happen in this state. An error of \<^verbatim>\<open>ctrl_c\<close> is only logged.\<close>

fun program_step :: "program_event \<Rightarrow> program \<Rightarrow> program option" where
  "program_step (PvLogOpened r) (PgOpenLog c) = Some (or_exit r (PgCommand c))"
| "program_step (PvCertificate cfg) (PgCommand c) = Some (run_command cfg c)"
| "program_step (PvBound r) (PgBind bind num) = Some (server_bound num r)"
| "program_step (PvVhciOpened r) (PgOpenVhci num) = Some (server_opened r)"
| "program_step (PvServer ev) (PgWaitCtrlC s) = (if ev = EvShutdown then None else map_option PgWaitCtrlC (server_step ev s))"
| "program_step (PvServer ev) (PgJoin s) = (if ev = EvShutdown then None else map_option PgJoin (server_step ev s))"
| "program_step (PvCtrlC _) (PgWaitCtrlC s) = shutdown_server s"
| "program_step PvJoined (PgJoin s) = join_server s"
| "program_step _ _ = None"

fun program_run :: "program_event list \<Rightarrow> program \<Rightarrow> program option" where
  "program_run [] p = Some p"
| "program_run (e # es) p = Option.bind (program_step e p) (program_run es)"

definition program_start :: "commands \<Rightarrow> program" where
  "program_start c = PgOpenLog c"

section \<open>Facts\<close>

text \<open>Up to the interrupt the token can only have been cancelled by a session; from then on it is. Only
  a command that serves with its own certificate gets as far as a server.\<close>

definition serves :: "commands \<Rightarrow> bool" where
  "serves c \<longleftrightarrow> (\<exists>bind num. c = Serve bind True num)"

fun program_ok :: "commands \<Rightarrow> program \<Rightarrow> bool" where
  "program_ok c (PgOpenLog c') \<longleftrightarrow> c' = c"
| "program_ok c (PgCommand c') \<longleftrightarrow> c' = c"
| "program_ok c (PgBind bind num) \<longleftrightarrow> c = Serve bind True num"
| "program_ok c (PgOpenVhci num) \<longleftrightarrow> (\<exists>bind. c = Serve bind True num)"
| "program_ok c (PgWaitCtrlC s) \<longleftrightarrow> serves c \<and> (\<exists>es. server_run es server_start = Some s)"
| "program_ok c (PgJoin s) \<longleftrightarrow> serves c \<and> sv_cancelled s \<and> (\<exists>es. server_run es server_start = Some s)"
| "program_ok c (PgExit r) \<longleftrightarrow> (\<exists>err. r = Inl err)"
| "program_ok c PgPanicked \<longleftrightarrow> True"

lemma server_reach_start: "\<exists>es. server_run es server_start = Some server_start"
  by (rule exI [of _ "[]"]) simp

lemma server_reach_step:
  assumes "\<exists>es. server_run es server_start = Some s" and "server_step e s = Some s'"
  shows "\<exists>es. server_run es server_start = Some s'"
proof -
  obtain es where "server_run es server_start = Some s" using assms(1) by blast
  with assms(2) have "server_run (es @ [e]) server_start = Some s'" by (simp add: server_run_append)
  then show ?thesis by blast
qed

lemma or_exit_ok: "program_ok c p \<Longrightarrow> program_ok c (or_exit r p)"
  by (simp add: or_exit_def split: sum.split)

lemma run_command_ok: "program_ok c (run_command cfg c)"
  by (cases c) (simp_all split: run.split)

lemma program_step_ok:
  assumes "program_ok c p" and "program_step e p = Some p'"
  shows "program_ok c p'"
proof (cases p)
  case (PgWaitCtrlC s)
  with assms(1) have r: "\<exists>es. server_run es server_start = Some s" "serves c" by simp_all
  from PgWaitCtrlC assms(2) obtain ev s' where s': "server_step ev s = Some s'"
    "p' = PgWaitCtrlC s' \<or> p' = PgJoin s' \<and> sv_cancelled s'"
    by (cases e) (auto simp: shutdown_server_def intro: that [of EvShutdown] split: if_splits)
  from server_reach_step [OF r(1) s'(1)] r(2) s'(2) show ?thesis by auto
next
  case (PgJoin s)
  with assms(1) obtain es where es: "server_run es server_start = Some s" by auto
  from server_run_serving [OF es] PgJoin assms(2) obtain ev s' where s': "server_step ev s = Some s'" "p' = PgJoin s'"
    by (cases e) (auto simp: join_server_def split: if_splits)
  with PgJoin assms(1) server_reach_step [OF _ s'(1)] server_run_cancelled [of s "[ev]" s'] show ?thesis by auto
next
  case (PgOpenLog c')
  with assms obtain r where "p' = or_exit r (PgCommand c)" by (cases e) auto
  then show ?thesis by (simp add: or_exit_ok)
next
  case (PgCommand c')
  with assms obtain cfg where "p' = run_command cfg c" by (cases e) auto
  then show ?thesis by (simp add: run_command_ok)
next
  case (PgBind bind num)
  with assms obtain r where "p' = server_bound num r" "c = Serve bind True num" by (cases e) auto
  then show ?thesis by (simp add: server_bound_def or_exit_ok)
next
  case (PgOpenVhci num)
  with assms obtain r where "p' = server_opened r" "serves c" by (cases e) (auto simp: serves_def)
  then show ?thesis by (simp add: server_opened_def or_exit_ok server_reach_start)
next
  case (PgExit r)
  with assms(2) show ?thesis by (cases e) simp_all
next
  case PgPanicked
  with assms(2) show ?thesis by (cases e) simp_all
qed

lemma program_run_ok: "program_run es p = Some p' \<Longrightarrow> program_ok c p \<Longrightarrow> program_ok c p'"
proof (induction es arbitrary: p)
  case (Cons e es)
  then obtain p1 where p1: "program_step e p = Some p1" "program_run es p1 = Some p'" by (auto split: bind_splits)
  from Cons.IH [OF p1(2) program_step_ok [OF Cons.prems(2) p1(1)]] show ?case .
qed simp

section \<open>Properties\<close>

text \<open>C15. The program never ends well: it stops with an error before it serves, or panics; once it serves, an
  interrupt leaves it waiting for the task of the server forever. Any command but to serve with a
  certificate of its own never gets to a server.\<close>

theorem program_never_succeeds:
  assumes "program_run es (program_start c) = Some p"
  shows "p \<noteq> PgExit (Inr ()) \<and> (\<forall>s. p = PgWaitCtrlC s \<or> p = PgJoin s \<longrightarrow> serves c \<and> sv_phase s = Serving) \<and>
    (\<forall>s. p = PgJoin s \<longrightarrow> sv_cancelled s \<and>
      (\<forall>es' p'. program_run es' p = Some p' \<longrightarrow> (\<exists>s'. p' = PgJoin s') \<and> program_step PvJoined p' = None))"
proof -
  note run = program_run_ok [of _ _ _ c]
  have ok: "program_ok c p" by (rule run [OF assms]) (simp add: program_start_def)
  have serving: "sv_phase s = Serving" if "p' = PgWaitCtrlC s \<or> p' = PgJoin s" "program_ok c p'" for p' s
    using that by (auto simp: server_run_serving)
  have join: "(\<exists>s'. p' = PgJoin s') \<and> program_step PvJoined p' = None"
    if "program_run es' (PgJoin s) = Some p'" "program_ok c (PgJoin s)" for es' s p'
    using that
  proof (induction es' arbitrary: s)
    case Nil
    then have "p' = PgJoin s" by simp
    with serving [of p' s] Nil(2) show ?case by (simp add: join_server_def)
  next
    case (Cons e es')
    then obtain p1 where p1: "program_step e (PgJoin s) = Some p1" "program_run es' p1 = Some p'" by (auto split: bind_splits)
    have "sv_phase s = Serving" using serving [of "PgJoin s" s] Cons.prems(2) by simp
    then obtain s1 where "p1 = PgJoin s1" using p1(1) by (cases e) (auto simp: join_server_def split: if_splits)
    with Cons.IH [of s1] p1 program_step_ok [OF Cons.prems(2) p1(1)] show ?case by simp
  qed
  show ?thesis using ok serving [OF _ ok] join by auto
qed

text \<open>A number of ports that is shown is read back: the default of the option reaches the program.\<close>

lemma ports_round_trip:
  "bounded v = Some v \<Longrightarrow> num_vhci_ports_from_str bounded (ports_display (NumVhciPorts v)) = Inr (NumVhciPorts v)"
  using denotes_dec_of [of v] by (auto simp: num_vhci_ports_cases)

section \<open>Witnesses\<close>

text \<open>The program serves and is interrupted.\<close>

definition interrupted :: "program_event list" where
  "interrupted = [PvLogOpened (Inr ()), PvCertificate (Ret ()), PvBound (Inr ()), PvVhciOpened (Inr ()), PvCtrlC (Inr ()),
     PvServer (EvIncomingEnd False)]"

theorem program_never_succeeds_witness:
  "\<exists>s. program_run interrupted (program_start (Serve ANY_DEFAULT_PORT True (NumVhciPorts 4))) = Some (PgJoin s) \<and>
    \<not> sv_incoming s \<and> sv_phase s = Serving \<and> program_step PvJoined (PgJoin s) = None"
proof -
  let ?c = "Serve ANY_DEFAULT_PORT True (NumVhciPorts 4)"
  obtain s where s: "program_run interrupted (program_start ?c) = Some (PgJoin s)" "\<not> sv_incoming s"
    by (auto simp: interrupted_def program_start_def or_exit_def server_bound_def server_opened_def shutdown_server_def server_start_def)
  from program_never_succeeds [OF s(1)] have "sv_phase s = Serving" by blast
  moreover from this have "program_step PvJoined (PgJoin s) = None" by (simp add: join_server_def)
  ultimately show ?thesis using s by blast
qed

end
