(* ===== verification/Races.thy ===== *)
theory Races
  imports Borrow_Loop Lend_Loop
begin

text \<open>
  The races at the head of the two send loops: \<^verbatim>\<open>MaybeFut\<close> of \<^verbatim>\<open>utils/src/lib.rs\<close>, the futures that the loops
  keep in them, and the events that a race of them yields. \<open>Borrow_Loop\<close> and \<open>Lend_Loop\<close> start from
  these events (\<open>send_ready\<close>, \<open>lend_ready\<close>) and keep of a \<^verbatim>\<open>MaybeFut\<close> only the data of its future.
\<close>

section \<open>A slot for a future\<close>

datatype 'f maybe_fut = MaybeSome 'f | MaybeNone

fun maybe_poll :: "('f \<Rightarrow> ('o option \<times> 'f) run) \<Rightarrow> 'f maybe_fut \<Rightarrow> ('o option \<times> 'f maybe_fut) run" where
  "maybe_poll poll (MaybeSome fut) = rbind (poll fut) (\<lambda>(out, fut'). Ret (out, MaybeSome fut'))"
| "maybe_poll poll MaybeNone = Ret (None, MaybeNone)"

fun maybe_from :: "'f option \<Rightarrow> 'f maybe_fut" where
  "maybe_from (Some fut) = MaybeSome fut"
| "maybe_from None = MaybeNone"

definition maybe_clear :: "'f maybe_fut \<Rightarrow> 'f maybe_fut" where
  "maybe_clear _ = maybe_from None"

definition maybe_reset :: "'f \<Rightarrow> 'f maybe_fut \<Rightarrow> 'f maybe_fut" where
  "maybe_reset f _ = maybe_from (Some f)"

fun maybe_is_empty :: "'f maybe_fut \<Rightarrow> bool" where
  "maybe_is_empty (MaybeSome _) \<longleftrightarrow> False"
| "maybe_is_empty MaybeNone \<longleftrightarrow> True"

text \<open>An \<^verbatim>\<open>async\<close> block, which panics when it is polled after its end; \<open>out\<close> is what the future that it
  awaits yields now.\<close>

datatype async_block = InProgress | Completed

fun async_poll :: "'o option \<Rightarrow> async_block \<Rightarrow> ('o option \<times> async_block) run" where
  "async_poll out InProgress = Ret (out, if out = None then InProgress else Completed)"
| "async_poll out Completed = Panic"

section \<open>The race\<close>

record slots =
  sl_sleeper :: "async_block maybe_fut"
  sl_flusher :: "async_block maybe_fut"
  sl_addr :: "async_block maybe_fut"

datatype arm = ArmNext | ArmSleeper | ArmFlusher | ArmAddr

text \<open>The futures of the \<^verbatim>\<open>match\<close> on the state; the lender has no \<^verbatim>\<open>addr_setter\<close>.\<close>

definition arms :: "loop_state \<Rightarrow> bool \<Rightarrow> arm list" where
  "arms st addr_empty =
     (case st of Solicit \<Rightarrow> [ArmNext] | Timer \<Rightarrow> [ArmNext, ArmSleeper] | Flush \<Rightarrow> [ArmNext, ArmFlusher]) @
     (if addr_empty then [] else [ArmAddr])"

text \<open>The event that each future would yield now, if it is ready.\<close>

record 'e outcomes =
  oc_next :: "'e option"
  oc_sleeper :: "'e option"
  oc_flusher :: "'e option"
  oc_addr :: "'e option"

fun poll_arm :: "'e outcomes \<Rightarrow> arm \<Rightarrow> slots \<Rightarrow> ('e option \<times> slots) run" where
  "poll_arm oc ArmNext sl = Ret (oc_next oc, sl)"
| "poll_arm oc ArmSleeper sl =
     rbind (maybe_poll (async_poll (oc_sleeper oc)) (sl_sleeper sl)) (\<lambda>(out, f). Ret (out, sl\<lparr>sl_sleeper := f\<rparr>))"
| "poll_arm oc ArmFlusher sl =
     rbind (maybe_poll (async_poll (oc_flusher oc)) (sl_flusher sl)) (\<lambda>(out, f). Ret (out, sl\<lparr>sl_flusher := f\<rparr>))"
| "poll_arm oc ArmAddr sl =
     rbind (maybe_poll (async_poll (oc_addr oc)) (sl_addr sl)) (\<lambda>(out, f). Ret (out, sl\<lparr>sl_addr := f\<rparr>))"

text \<open>The futures are polled in some order until one is ready.\<close>

fun race :: "'e outcomes \<Rightarrow> arm list \<Rightarrow> slots \<Rightarrow> ('e option \<times> slots) run" where
  "race oc [] sl = Ret (None, sl)"
| "race oc (a # as) sl =
     rbind (poll_arm oc a sl) (\<lambda>(out, sl'). case out of None \<Rightarrow> race oc as sl' | Some ev \<Rightarrow> Ret (Some ev, sl'))"

section \<open>What the loops do with their slots\<close>

definition arm_sleeper :: "slots \<Rightarrow> slots" where
  "arm_sleeper sl = sl\<lparr>sl_sleeper := maybe_reset InProgress (sl_sleeper sl)\<rparr>"

definition start_flush :: "slots \<Rightarrow> slots" where
  "start_flush sl = sl\<lparr>sl_sleeper := maybe_clear (sl_sleeper sl), sl_flusher := maybe_reset InProgress (sl_flusher sl)\<rparr>"

definition end_flush :: "bool \<Rightarrow> slots \<Rightarrow> slots" where
  "end_flush buf_empty sl =
     (let sl1 = sl\<lparr>sl_flusher := maybe_clear (sl_flusher sl)\<rparr> in if buf_empty then sl1 else arm_sleeper sl1)"

definition borrow_slots_step :: "vhci_ops \<Rightarrow> 'h borrow_send_handler \<Rightarrow> send_event \<Rightarrow> 'h borrow_sender \<Rightarrow> slots \<Rightarrow> slots run" where
  "borrow_slots_step V H ev s sl =
     (case ev of
        EvWork w \<Rightarrow>
          rbind (handle_work V H w (s_handler s)) (\<lambda>(r, h).
            case r of
              WSetAddress _ _ \<Rightarrow> Ret (sl\<lparr>sl_addr := maybe_reset InProgress (sl_addr sl)\<rparr>)
            | WProcessUrb (Inl _) \<Rightarrow> Ret sl
            | _ \<Rightarrow> Ret (if s_state s = Solicit \<and> \<not> bh_is_buf_empty H h then arm_sleeper sl else sl))
      | EvFlushBuf \<Rightarrow> Ret (start_flush sl)
      | EvFlushComplete (Inr _) \<Rightarrow> Ret (end_flush (bh_is_buf_empty H (s_handler s)) sl)
      | EvSetAddress (Inr _) \<Rightarrow> Ret (sl\<lparr>sl_addr := maybe_clear (sl_addr sl)\<rparr>)
      | _ \<Rightarrow> Ret sl)"

definition lend_slots_step :: "'h lend_send_handler \<Rightarrow> lend_event \<Rightarrow> 'h sender \<Rightarrow> slots \<Rightarrow> slots" where
  "lend_slots_step H ev s sl =
     (case ev of
        LendEv _ \<Rightarrow> (if s_state s = Solicit then arm_sleeper sl else sl)
      | LFlushBuf \<Rightarrow> start_flush sl
      | LFlushComplete (Inr _) \<Rightarrow> end_flush (lh_is_buf_empty H (s_handler s)) sl
      | _ \<Rightarrow> sl)"

text \<open>The slots that the states of the loops stand for: a future in them has not ended.\<close>

definition slot_of :: "bool \<Rightarrow> async_block maybe_fut" where
  "slot_of present = (if present then MaybeSome InProgress else MaybeNone)"

definition sender_slots :: "('h, 'a) sender_scheme \<Rightarrow> bool \<Rightarrow> slots" where
  "sender_slots s addr = \<lparr>sl_sleeper = slot_of (sleeper s), sl_flusher = slot_of (flusher s \<noteq> None), sl_addr = slot_of addr\<rparr>"

definition borrow_slots :: "'h borrow_sender \<Rightarrow> slots" where
  "borrow_slots s = sender_slots s (addr_setter s \<noteq> None)"

text \<open>What the futures can yield: the stream its work or its end, the timer \<^verbatim>\<open>FlushBuf\<close>, a flush an error or
  the writer with all bytes written.\<close>

definition written :: "(bytes \<times> bytes) option \<Rightarrow> io_error + bytes \<Rightarrow> bool" where
  "written fl r \<longleftrightarrow> (case fl of None \<Rightarrow> False | Some (tx, bs) \<Rightarrow> (case r of Inl _ \<Rightarrow> True | Inr tx' \<Rightarrow> tx' = tx @ bs))"

definition send_outcomes :: "'h borrow_sender \<Rightarrow> send_event outcomes \<Rightarrow> bool" where
  "send_outcomes s oc \<longleftrightarrow>
     (\<forall>ev. oc_next oc = Some ev \<longrightarrow> (\<exists>w. ev = EvWork w) \<or> ev = EvClosed) \<and>
     (\<forall>ev. oc_sleeper oc = Some ev \<longrightarrow> ev = EvFlushBuf) \<and>
     (\<forall>ev. oc_flusher oc = Some ev \<longrightarrow> (\<exists>r. ev = EvFlushComplete r \<and> (flusher s \<noteq> None \<longrightarrow> written (flusher s) r))) \<and>
     (\<forall>ev. oc_addr oc = Some ev \<longrightarrow> (\<exists>r. ev = EvSetAddress r))"

definition lend_outcomes :: "'h sender \<Rightarrow> lend_event outcomes \<Rightarrow> bool" where
  "lend_outcomes s oc \<longleftrightarrow>
     (\<forall>ev. oc_next oc = Some ev \<longrightarrow> (\<exists>t. ev = LendEv t) \<or> ev = LClosed) \<and>
     (\<forall>ev. oc_sleeper oc = Some ev \<longrightarrow> ev = LFlushBuf) \<and>
     (\<forall>ev. oc_flusher oc = Some ev \<longrightarrow> (\<exists>r. ev = LFlushComplete r \<and> (flusher s \<noteq> None \<longrightarrow> written (flusher s) r)))"

section \<open>Facts\<close>

definition fresh_slots :: "slots \<Rightarrow> bool" where
  "fresh_slots sl \<longleftrightarrow> Completed \<notin> \<Union> (set_maybe_fut ` {sl_sleeper sl, sl_flusher sl, sl_addr sl})"

fun ready_arm :: "'e outcomes \<Rightarrow> slots \<Rightarrow> arm \<Rightarrow> 'e option" where
  "ready_arm oc sl ArmNext = oc_next oc"
| "ready_arm oc sl ArmSleeper = (if maybe_is_empty (sl_sleeper sl) then None else oc_sleeper oc)"
| "ready_arm oc sl ArmFlusher = (if maybe_is_empty (sl_flusher sl) then None else oc_flusher oc)"
| "ready_arm oc sl ArmAddr = (if maybe_is_empty (sl_addr sl) then None else oc_addr oc)"

fun ended_arm :: "arm \<Rightarrow> slots \<Rightarrow> slots" where
  "ended_arm ArmNext sl = sl"
| "ended_arm ArmSleeper sl = sl\<lparr>sl_sleeper := MaybeSome Completed\<rparr>"
| "ended_arm ArmFlusher sl = sl\<lparr>sl_flusher := MaybeSome Completed\<rparr>"
| "ended_arm ArmAddr sl = sl\<lparr>sl_addr := MaybeSome Completed\<rparr>"

lemma maybe_poll_fresh:
  assumes "Completed \<notin> set_maybe_fut m"
  shows "maybe_poll (async_poll out) m = Ret (if maybe_is_empty m \<or> out = None then (None, m) else (out, MaybeSome Completed))"
proof (cases m)
  case (MaybeSome b)
  with assms show ?thesis by (cases b) auto
qed simp

lemma poll_arm_fresh:
  assumes "fresh_slots sl"
  shows "poll_arm oc a sl = Ret (ready_arm oc sl a, if ready_arm oc sl a = None then sl else ended_arm a sl)"
proof -
  from assms have "Completed \<notin> set_maybe_fut (sl_sleeper sl)" "Completed \<notin> set_maybe_fut (sl_flusher sl)"
    "Completed \<notin> set_maybe_fut (sl_addr sl)" by (simp_all add: fresh_slots_def)
  note p = this [THEN maybe_poll_fresh]
  show ?thesis by (cases a) (simp_all add: p)
qed

text \<open>A race of futures that have not ended does not panic; only the future that wins has ended.\<close>

lemma race_fresh:
  assumes "fresh_slots sl"
  shows "race oc as sl = Ret (None, sl) \<or>
    (\<exists>a \<in> set as. \<exists>ev. ready_arm oc sl a = Some ev \<and> race oc as sl = Ret (Some ev, ended_arm a sl))"
proof (induction as)
  case (Cons a as)
  show ?case
  proof (cases "ready_arm oc sl a")
    case None
    with Cons.IH show ?thesis by (auto simp: poll_arm_fresh [OF assms])
  next
    case (Some ev)
    then show ?thesis by (simp add: poll_arm_fresh [OF assms])
  qed
qed simp

lemma slot_of_simps [simp]:
  "maybe_is_empty (slot_of p) \<longleftrightarrow> \<not> p" "Completed \<notin> set_maybe_fut (slot_of p)"
  "slot_of True = MaybeSome InProgress" "slot_of False = MaybeNone"
  by (simp_all add: slot_of_def)

lemma sender_slots_fresh: "fresh_slots (sender_slots s addr)"
  by (simp add: fresh_slots_def sender_slots_def)

lemma set_arms:
  "set (arms st addr_empty) = {ArmNext} \<union> (if st = Timer then {ArmSleeper} else {}) \<union>
     (if st = Flush then {ArmFlusher} else {}) \<union> (if addr_empty then {} else {ArmAddr})"
  by (cases st) (auto simp: arms_def)

lemmas slot_steps = arm_sleeper_def start_flush_def end_flush_def maybe_reset_def maybe_clear_def Let_def
  sender_slots_def on_flush_complete_def

lemma flush_state:
  assumes "on_flush_buf flush_buf s = Ret s'"
  shows "\<exists>tx bs h. s' = s\<lparr>sleeper := False, tx_holder := None, s_handler := h, flusher := Some (tx, bs), s_state := Flush\<rparr>"
proof -
  obtain bs h where "flush_buf (s_handler s) = (bs, h)" by fastforce
  with assms show ?thesis by (auto simp: on_flush_buf_def rbind_eq_Ret)
qed

lemma flush_slots:
  assumes "on_flush_buf flush_buf s = Ret s'"
  shows "start_flush (ended_arm ArmSleeper (sender_slots s addr)) = sender_slots s' addr"
  using flush_state [OF assms] by (auto simp: slot_steps)

lemma complete_slots:
  "end_flush (buf_empty (s_handler s)) (ended_arm ArmFlusher (sender_slots s addr)) =
     sender_slots (on_flush_complete buf_empty tx s) addr"
  by (simp add: slot_steps)

lemma work_slots:
  assumes "borrow_send_step V H (EvWork w) s = Ret (Inr s')"
  shows "borrow_slots_step V H (EvWork w) s (borrow_slots s) = Ret (borrow_slots s')"
proof -
  from assms obtain r h where h: "handle_work V H w (s_handler s) = Ret (r, h)"
    by (auto simp: borrow_send_step_def rbind_eq_Ret)
  show ?thesis
    using assms h
    by (auto simp: borrow_send_step_def borrow_slots_step_def borrow_slots_def slot_steps Let_def
      split: work_result.splits sum.splits if_splits)
qed

text \<open>The future that has won is gone from its slot when the loop comes round again.\<close>

lemma borrow_slots_after:
  assumes "send_outcomes s oc" and "ready_arm oc (borrow_slots s) a = Some ev"
    and "borrow_send_step V H ev s = Ret (Inr s')"
  shows "borrow_slots_step V H ev s (ended_arm a (borrow_slots s)) = Ret (borrow_slots s')"
proof (cases a)
  case ArmNext
  with assms(1,2) consider w where "ev = EvWork w" | "ev = EvClosed" by (auto simp: send_outcomes_def)
  then show ?thesis
    using assms(3) ArmNext work_slots by cases (simp_all add: borrow_send_step_def)
next
  case ArmSleeper
  with assms(1,2) have ev: "ev = EvFlushBuf" by (auto simp: send_outcomes_def split: if_splits)
  with assms(3) have st: "on_flush_buf (bh_flush_buf H) s = Ret s'" by (auto simp: borrow_send_step_def rbind_eq_Ret)
  from flush_state [OF st] have "addr_setter s' = addr_setter s" by auto
  with flush_slots [OF st] ArmSleeper show ?thesis by (simp add: ev borrow_slots_step_def borrow_slots_def)
next
  case ArmFlusher
  with assms obtain tx where ev: "ev = EvFlushComplete (Inr tx)"
    by (auto simp: send_outcomes_def borrow_send_step_def split: if_splits sum.splits)
  with assms(3) have s': "s' = on_flush_complete (bh_is_buf_empty H) tx s" by (simp add: borrow_send_step_def)
  then have "addr_setter s' = addr_setter s" by (simp add: on_flush_complete_def Let_def)
  with complete_slots [of "bh_is_buf_empty H" s] ArmFlusher show ?thesis
    by (simp add: ev s' borrow_slots_step_def borrow_slots_def)
next
  case ArmAddr
  with assms obtain u where ev: "ev = EvSetAddress (Inr u)" "s' = s\<lparr>addr_setter := None\<rparr>"
    by (auto simp: send_outcomes_def borrow_send_step_def split: if_splits sum.splits)
  with ArmAddr show ?thesis by (simp add: borrow_slots_step_def borrow_slots_def slot_steps)
qed

lemma lend_work_slots:
  assumes "lend_send_step H (LendEv t) s = Ret (Inr s')"
  shows "lend_slots_step H (LendEv t) s (sender_slots s False) = sender_slots s' False"
proof -
  from assms obtain r h where h: "handle_event H t (s_handler s) = Ret (r, h)" by (auto simp: lend_send_step_def rbind_eq_Ret)
  with assms obtain u where "r = Inr u" by (cases r) (auto simp: lend_send_step_def)
  with assms h show ?thesis
    by (cases "s_state s") (auto simp: lend_send_step_def lend_slots_step_def slot_steps)
qed

lemma lend_slots_after:
  assumes "lend_outcomes s oc" and "ready_arm oc (sender_slots s False) a = Some ev"
    and "lend_send_step H ev s = Ret (Inr s')"
  shows "lend_slots_step H ev s (ended_arm a (sender_slots s False)) = sender_slots s' False"
proof (cases a)
  case ArmNext
  with assms(1,2) consider t where "ev = LendEv t" | "ev = LClosed" by (auto simp: lend_outcomes_def)
  then show ?thesis
    using assms(3) ArmNext lend_work_slots by cases (simp_all add: lend_send_step_def)
next
  case ArmSleeper
  with assms(1,2) have ev: "ev = LFlushBuf" by (auto simp: lend_outcomes_def split: if_splits)
  with assms(3) have st: "on_flush_buf (lh_flush_buf H) s = Ret s'" by (auto simp: lend_send_step_def rbind_eq_Ret)
  from flush_slots [OF st] ArmSleeper show ?thesis by (simp add: ev lend_slots_step_def)
next
  case ArmFlusher
  with assms obtain tx where ev: "ev = LFlushComplete (Inr tx)"
    by (auto simp: lend_outcomes_def lend_send_step_def split: if_splits sum.splits)
  with assms(3) have s': "s' = on_flush_complete (lh_is_buf_empty H) tx s" by (simp add: lend_send_step_def)
  from complete_slots [of "lh_is_buf_empty H" s] ArmFlusher show ?thesis by (simp add: ev s' lend_slots_step_def)
next
  case ArmAddr
  with assms(2) show ?thesis by (simp add: sender_slots_def)
qed

text \<open>A future is ready in a race of the loop exactly for the events that the model of the loop starts
  from.\<close>

lemma ready_sound:
  assumes "send_outcomes s oc" and "a \<in> set (arms (s_state s) (addr_setter s = None))"
    and "ready_arm oc (borrow_slots s) a = Some ev"
  shows "send_ready s ev"
  using assms
  by (cases a) (auto simp: send_outcomes_def set_arms borrow_slots_def sender_slots_def written_def split: if_splits)

lemma lend_ready_sound:
  assumes "lend_outcomes s oc" and "a \<in> set (arms (s_state s) True)" and "ready_arm oc (sender_slots s False) a = Some ev"
  shows "lend_ready s ev"
  using assms
  by (cases a) (auto simp: lend_outcomes_def set_arms sender_slots_def written_def split: if_splits)

lemma race_only:
  assumes "fresh_slots sl" and "ready_arm oc sl a = Some ev" and "\<forall>b. b \<noteq> a \<longrightarrow> ready_arm oc sl b = None" and "a \<in> set as"
  shows "race oc as sl = Ret (Some ev, ended_arm a sl)"
  using assms(4)
proof (induction as)
  case (Cons b as)
  then show ?case using assms(2,3) by (cases "b = a") (simp_all add: poll_arm_fresh [OF assms(1)])
qed simp

definition no_outcomes :: "'e outcomes" where
  "no_outcomes = \<lparr>oc_next = None, oc_sleeper = None, oc_flusher = None, oc_addr = None\<rparr>"

lemma only_ready:
  assumes "send_ready s ev"
  shows "\<exists>a oc. a \<in> set (arms (s_state s) (addr_setter s = None)) \<and> send_outcomes s oc \<and>
    ready_arm oc (borrow_slots s) a = Some ev \<and> (\<forall>b. b \<noteq> a \<longrightarrow> ready_arm oc (borrow_slots s) b = None)"
proof -
  have none: "ready_arm no_outcomes sl b = None" for sl and b by (cases b) (simp_all add: no_outcomes_def)
  show ?thesis
  proof (cases "(\<exists>w. ev = EvWork w) \<or> ev = EvClosed")
    case True
    have "ready_arm (no_outcomes\<lparr>oc_next := Some ev\<rparr>) sl b = None" if "b \<noteq> ArmNext" for sl b
      using that by (cases b) (simp_all add: no_outcomes_def)
    with True show ?thesis
      by (intro exI [of _ ArmNext] exI [of _ "no_outcomes\<lparr>oc_next := Some ev\<rparr>"])
        (auto simp: set_arms send_outcomes_def no_outcomes_def)
  next
    case False
    with assms consider "ev = EvFlushBuf" | r where "ev = EvFlushComplete r" | r where "ev = EvSetAddress r" by (cases ev) auto
    then show ?thesis
    proof cases
      case 1
      have "ready_arm (no_outcomes\<lparr>oc_sleeper := Some ev\<rparr>) sl b = None" if "b \<noteq> ArmSleeper" for sl b
        using that by (cases b) (simp_all add: no_outcomes_def)
      with 1 assms show ?thesis
        by (intro exI [of _ ArmSleeper] exI [of _ "no_outcomes\<lparr>oc_sleeper := Some ev\<rparr>"])
          (auto simp: set_arms send_outcomes_def no_outcomes_def borrow_slots_def sender_slots_def)
    next
      case (2 r)
      have "ready_arm (no_outcomes\<lparr>oc_flusher := Some ev\<rparr>) sl b = None" if "b \<noteq> ArmFlusher" for sl b
        using that by (cases b) (simp_all add: no_outcomes_def)
      moreover have "s_state s = Flush" "written (flusher s) r" using 2 assms by (simp_all add: written_def)
      moreover from this have "flusher s \<noteq> None" by (cases "flusher s") (simp_all add: written_def)
      ultimately show ?thesis using 2
        by (intro exI [of _ ArmFlusher] exI [of _ "no_outcomes\<lparr>oc_flusher := Some ev\<rparr>"])
          (auto simp: set_arms send_outcomes_def no_outcomes_def borrow_slots_def sender_slots_def)
    next
      case (3 r)
      have "ready_arm (no_outcomes\<lparr>oc_addr := Some ev\<rparr>) sl b = None" if "b \<noteq> ArmAddr" for sl b
        using that by (cases b) (simp_all add: no_outcomes_def)
      with 3 assms show ?thesis
        by (intro exI [of _ ArmAddr] exI [of _ "no_outcomes\<lparr>oc_addr := Some ev\<rparr>"])
          (auto simp: set_arms send_outcomes_def no_outcomes_def borrow_slots_def sender_slots_def)
    qed
  qed
qed

section \<open>Properties\<close>

text \<open>C25. Whatever the futures of the borrower's send loop yield, and in whatever order the race polls them, no
  future is polled after its end. The race yields only events that the model of the loop starts from,
  each of them can be yielded, and when the loop comes round again, its slots are those of its new
  state.\<close>

theorem borrow_races_exact:
  assumes "set order = set (arms (s_state s) (addr_setter s = None))"
  shows "(send_outcomes s oc \<longrightarrow> (\<exists>out sl. race oc order (borrow_slots s) = Ret (out, sl) \<and>
      (out = None \<longrightarrow> sl = borrow_slots s) \<and>
      (\<forall>ev. out = Some ev \<longrightarrow> send_ready s ev \<and>
        (\<forall>s'. borrow_send_step V H ev s = Ret (Inr s') \<longrightarrow> borrow_slots_step V H ev s sl = Ret (borrow_slots s'))))) \<and>
    (send_ready s ev \<longrightarrow> (\<exists>oc sl. send_outcomes s oc \<and> race oc order (borrow_slots s) = Ret (Some ev, sl)))"
proof (intro conjI impI)
  have fresh: "fresh_slots (borrow_slots s)" by (simp add: borrow_slots_def sender_slots_fresh)
  assume oc: "send_outcomes s oc"
  from race_fresh [OF fresh, of oc order]
  show "\<exists>out sl. race oc order (borrow_slots s) = Ret (out, sl) \<and> (out = None \<longrightarrow> sl = borrow_slots s) \<and>
      (\<forall>ev. out = Some ev \<longrightarrow> send_ready s ev \<and>
        (\<forall>s'. borrow_send_step V H ev s = Ret (Inr s') \<longrightarrow> borrow_slots_step V H ev s sl = Ret (borrow_slots s')))"
  proof (elim disjE bexE exE conjE)
    fix a ev
    assume a: "a \<in> set order" "ready_arm oc (borrow_slots s) a = Some ev"
      and r: "race oc order (borrow_slots s) = Ret (Some ev, ended_arm a (borrow_slots s))"
    from ready_sound [OF oc _ a(2)] a(1) assms have "send_ready s ev" by simp
    with r borrow_slots_after [OF oc a(2)] show ?thesis by simp
  qed simp
next
  have fresh: "fresh_slots (borrow_slots s)" by (simp add: borrow_slots_def sender_slots_fresh)
  assume "send_ready s ev"
  from only_ready [OF this] obtain a oc where a: "a \<in> set (arms (s_state s) (addr_setter s = None))" "send_outcomes s oc"
    "ready_arm oc (borrow_slots s) a = Some ev" "\<forall>b. b \<noteq> a \<longrightarrow> ready_arm oc (borrow_slots s) b = None" by blast
  from race_only [OF fresh a(3,4)] a(1,2) assms
  show "\<exists>oc sl. send_outcomes s oc \<and> race oc order (borrow_slots s) = Ret (Some ev, sl)" by blast
qed

text \<open>The same of the lender's send loop.\<close>

lemma lend_races_exact:
  assumes "set order = set (arms (s_state s) True)" and "lend_outcomes s oc"
  shows "\<exists>out sl. race oc order (sender_slots s False) = Ret (out, sl) \<and> (out = None \<longrightarrow> sl = sender_slots s False) \<and>
      (\<forall>ev. out = Some ev \<longrightarrow> lend_ready s ev \<and>
        (\<forall>s'. lend_send_step H ev s = Ret (Inr s') \<longrightarrow> lend_slots_step H ev s sl = sender_slots s' False))"
  using race_fresh [OF sender_slots_fresh, of oc order s False]
proof (elim disjE bexE exE conjE)
  fix a ev
  assume a: "a \<in> set order" "ready_arm oc (sender_slots s False) a = Some ev"
    and r: "race oc order (sender_slots s False) = Ret (Some ev, ended_arm a (sender_slots s False))"
  from lend_ready_sound [OF assms(2) _ a(2)] a(1) assms(1) have "lend_ready s ev" by simp
  with r lend_slots_after [OF assms(2) a(2)] show ?thesis by simp
qed simp

section \<open>Witnesses\<close>

text \<open>The timer fires while an address is being set.\<close>

definition timer_fires :: "unit borrow_sender" where
  "timer_fires = \<lparr>s_state = Timer, tx_holder = Some [], sleeper = True, flusher = None, s_handler = (),
     addr_setter = Some (\<lparr>iu_typ = UrbCtrl, iu_address = 0, iu_setup_packet = 0, iu_buffer_length = 0, iu_packet_count = 0,
       iu_interval = 0, iu_flags = 0, iu_endpoint = 0\<rparr>, 7)\<rparr>"

theorem borrow_races_exact_witness:
  "\<exists>oc sl. send_outcomes timer_fires oc \<and>
    race oc [ArmAddr, ArmSleeper, ArmNext] (borrow_slots timer_fires) = Ret (Some EvFlushBuf, sl)"
proof -
  have o: "set [ArmAddr, ArmSleeper, ArmNext] = set (arms (s_state timer_fires) (addr_setter timer_fires = None))"
    by (auto simp: timer_fires_def arms_def)
  have "send_ready timer_fires EvFlushBuf" by (simp add: timer_fires_def)
  with borrow_races_exact [OF o] show ?thesis by blast
qed

end
