(* ===== verification/Device_Handle.thy ===== *)
theory Device_Handle
  imports Lend_Requests
begin

text \<open>
  The lent device, \<^verbatim>\<open>operator/lend/device.rs\<close>: opening it, its table of claimed interfaces and
  its configuration; and the futures of \<^verbatim>\<open>operator/lend/blocking.rs\<close> that call it on another
  thread. libusb is a parameter: the record \<open>usb_ops\<close> over a device of type \<open>'d\<close>.
\<close>

section \<open>libusb\<close>

type_synonym 'd usb_call = "'d \<Rightarrow> (rusb_error + unit) \<times> 'd"

record 'd usb_ops =
  u_active_configuration :: "'d \<Rightarrow> rusb_error + u8"
  u_set_active_configuration :: "u8 \<Rightarrow> 'd usb_call"
  u_claim_interface :: "u8 \<Rightarrow> 'd usb_call"
  u_release_interface :: "u8 \<Rightarrow> 'd usb_call"
  u_set_alternate_setting :: "u8 \<Rightarrow> u8 \<Rightarrow> 'd usb_call"
  u_set_auto_detach :: "bool \<Rightarrow> 'd usb_call"
  u_reset :: "'d usb_call"
  u_kernel_driver_active :: "u8 \<Rightarrow> 'd \<Rightarrow> rusb_error + bool"
  u_detach_kernel_driver :: "u8 \<Rightarrow> 'd usb_call"
  u_open :: "'d \<Rightarrow> rusb_error + 'd"
  u_clear_halt :: "u8 \<Rightarrow> 'd usb_call"

text \<open>The \<^verbatim>\<open>?\<close> of a call: go on when it succeeded, with the device as it left it.\<close>

fun usb_try :: "(rusb_error + unit) \<times> 'd \<Rightarrow> ('d \<Rightarrow> (rusb_error + 'a) \<times> 'd) \<Rightarrow> (rusb_error + 'a) \<times> 'd" where
  "usb_try (Inl err, d) k = (Inl err, d)"
| "usb_try (Inr _, d) k = k d"

section \<open>The table of interfaces\<close>

definition NUM_INTERFACES :: nat where "NUM_INTERFACES = 16"

datatype interface_status = IsClaimed | IsUnclaimed | IsDriverClaimed | IsNotFound

record 'd handle =
  h_device :: 'd
  h_interfaces :: "interface_status list"

text \<open>
  The lazy chain \<^verbatim>\<open>enumerate().filter_map(..).try_for_each(..)\<close>: an interface whose status is
  \<open>old\<close> gets the status \<open>new\<close> and is then handed to \<open>call\<close>; the first failure ends it.
\<close>

fun sweep :: "interface_status \<Rightarrow> interface_status \<Rightarrow> (u8 \<Rightarrow> 'd usb_call) \<Rightarrow> nat \<Rightarrow>
    interface_status list \<Rightarrow> 'd \<Rightarrow> (rusb_error + unit) \<times> interface_status list \<times> 'd" where
  "sweep old new call i [] d = (Inr (), [], d)"
| "sweep old new call i (st # sts) d =
     (if st = old then
        (case call (word_of_nat i) d of
           (Inl err, d') \<Rightarrow> (Inl err, new # sts, d')
         | (Inr _, d') \<Rightarrow>
             (case sweep old new call (Suc i) sts d' of (r, sts', d'') \<Rightarrow> (r, new # sts', d'')))
      else (case sweep old new call (Suc i) sts d of (r, sts', d'') \<Rightarrow> (r, st # sts', d'')))"

definition set_config_inner :: "'d usb_ops \<Rightarrow> u8 \<Rightarrow> 'd handle \<Rightarrow> (rusb_error + unit) \<times> 'd handle" where
  "set_config_inner U config h =
     (case sweep IsClaimed IsUnclaimed (u_release_interface U) 0 (h_interfaces h) (h_device h) of
        (Inl err, sts, d) \<Rightarrow> (Inl err, \<lparr>h_device = d, h_interfaces = sts\<rparr>)
      | (Inr _, sts, d) \<Rightarrow>
          (case u_set_active_configuration U config d of
             (Inl err, d') \<Rightarrow> (Inl err, \<lparr>h_device = d', h_interfaces = sts\<rparr>)
           | (Inr _, d') \<Rightarrow>
               (case sweep IsUnclaimed IsClaimed (u_claim_interface U) 0 sts d' of
                  (r, sts', d'') \<Rightarrow> (r, \<lparr>h_device = d'', h_interfaces = sts'\<rparr>))))"

definition set_config :: "'d usb_ops \<Rightarrow> u8 \<Rightarrow> 'd handle \<Rightarrow> (rusb_error + unit) \<times> 'd handle" where
  "set_config U config h =
     (case u_active_configuration U (h_device h) of
        Inl err \<Rightarrow> (Inl err, h)
      | Inr active \<Rightarrow> if config = active then (Inr (), h) else set_config_inner U config h)"

definition claim_interface_inner :: "'d usb_ops \<Rightarrow> u8 \<Rightarrow> 'd handle \<Rightarrow> ((rusb_error + unit) \<times> 'd handle) run" where
  "claim_interface_inner U i h =
     (case u_claim_interface U i (h_device h) of
        (Inl err, d) \<Rightarrow> Ret (Inl err, h\<lparr>h_device := d\<rparr>)
      | (Inr _, d) \<Rightarrow>
          (if unat i < length (h_interfaces h)
           then Ret (Inr (), h\<lparr>h_device := d, h_interfaces := (h_interfaces h)[unat i := IsClaimed]\<rparr>)
           else Panic))"

definition claim_interface :: "'d usb_ops \<Rightarrow> u8 \<Rightarrow> 'd handle \<Rightarrow> ((rusb_error + unit) \<times> 'd handle) run" where
  "claim_interface U i h =
     (if unat i < length (h_interfaces h) \<and> h_interfaces h ! unat i = IsClaimed then Ret (Inr (), h)
      else claim_interface_inner U i h)"

definition set_alt_setting :: "'d usb_ops \<Rightarrow> u8 \<Rightarrow> u8 \<Rightarrow> 'd handle \<Rightarrow> (rusb_error + unit) \<times> 'd handle" where
  "set_alt_setting U i setting h =
     (case u_set_alternate_setting U i setting (h_device h) of (r, d) \<Rightarrow> (r, h\<lparr>h_device := d\<rparr>))"

text \<open>Dropping the handle gives the device back to the drivers of the kernel.\<close>

definition drop_handle :: "'d usb_ops \<Rightarrow> 'd handle \<Rightarrow> 'd" where
  "drop_handle U h = snd (u_set_auto_detach U True (h_device h))"

section \<open>Opening\<close>

definition take_interface :: "'d usb_ops \<Rightarrow> u8 \<Rightarrow> 'd \<Rightarrow> ((rusb_error + interface_status) \<times> 'd) run" where
  "take_interface U i d =
     (case u_kernel_driver_active U i d of
        Inr True \<Rightarrow> Ret (usb_try (u_detach_kernel_driver U i d) (\<lambda>d.
          usb_try (u_claim_interface U i d) (\<lambda>d. (Inr IsClaimed, d))))
      | Inr False \<Rightarrow>
          (case u_claim_interface U i d of
             (Inr _, d') \<Rightarrow> Ret (Inr IsClaimed, d')
           | (Inl err, d') \<Rightarrow> if err = RE_NotFound then Ret (Inr IsNotFound, d') else Panic)
      | Inl _ \<Rightarrow> Ret (Inr IsNotFound, d))"

fun take_interfaces :: "'d usb_ops \<Rightarrow> nat \<Rightarrow> nat \<Rightarrow> 'd \<Rightarrow>
    ((rusb_error + interface_status list) \<times> 'd) run" where
  "take_interfaces U i 0 d = Ret (Inr [], d)"
| "take_interfaces U i (Suc n) d =
     rbind (take_interface U (word_of_nat i) d) (\<lambda>(r, d').
       case r of
         Inl err \<Rightarrow> Ret (Inl err, d')
       | Inr st \<Rightarrow> rbind (take_interfaces U (Suc i) n d') (\<lambda>(r', d'').
           Ret (map_sum id ((#) st) r', d'')))"

definition BASE_CONFIG :: u8 where "BASE_CONFIG = 1"

text \<open>\<open>devices\<close> is what the context lists; its log callback is left out.\<close>

definition open_device :: "'d usb_ops \<Rightarrow> rusb_error + (usb_device_id \<times> 'd) list \<Rightarrow> usb_device_id \<Rightarrow>
    (rusb_error + 'd handle) run" where
  "open_device U devices dev_id =
     (case devices of
        Inl err \<Rightarrow> Ret (Inl err)
      | Inr devs \<Rightarrow>
          (case find (\<lambda>(i, _). i = dev_id) devs of
             None \<Rightarrow> Ret (Inl RE_NoDevice)
           | Some (_, dev) \<Rightarrow>
               (case u_open U dev of
                  Inl err \<Rightarrow> Ret (Inl err)
                | Inr d0 \<Rightarrow>
                    (case usb_try (u_set_auto_detach U False d0) (u_reset U) of
                       (Inl err, _) \<Rightarrow> Ret (Inl err)
                     | (Inr _, d1) \<Rightarrow>
                         rbind (take_interfaces U 0 NUM_INTERFACES d1) (\<lambda>(r, d2).
                           case r of
                             Inl err \<Rightarrow> Ret (Inl err)
                           | Inr sts \<Rightarrow>
                               (case set_config U BASE_CONFIG \<lparr>h_device = d2, h_interfaces = sts\<rparr> of
                                  (Inl err, _) \<Rightarrow> Ret (Inl err)
                                | (Inr _, h) \<Rightarrow> Ret (Inr h)))))))"

section \<open>Calls on another thread\<close>

text \<open>
  A future of \<^verbatim>\<open>blocking.rs\<close>: the first poll takes the handle and starts the call; \<open>call\<close> is
  what the call returns, if the thread has finished when the future is polled. A poll answers
  \<open>None\<close> for \<^verbatim>\<open>Poll::Pending\<close>.
\<close>

datatype blocking_state = BInit bool | BWaiting | BComplete "transfer_error + unit"

fun set_interface_outcome :: "rusb_error + unit \<Rightarrow> (transfer_error + unit) run" where
  "set_interface_outcome (Inr _) = Ret (Inr ())"
| "set_interface_outcome (Inl RE_NotFound) = Panic"
| "set_interface_outcome (Inl RE_NoDevice) = Panic"
| "set_interface_outcome (Inl _) = Ret (Inl (Reportable Stall))"

fun stall_outcome :: "rusb_error + unit \<Rightarrow> (transfer_error + unit) run" where
  "stall_outcome (Inr _) = Ret (Inr ())"
| "stall_outcome (Inl _) = Ret (Inl (Reportable Stall))"

definition poll_waiting :: "(rusb_error + unit \<Rightarrow> (transfer_error + unit) run) \<Rightarrow> (rusb_error + unit) option \<Rightarrow>
    ((transfer_error + unit) option \<times> blocking_state) run" where
  "poll_waiting outcome call =
     (case call of
        None \<Rightarrow> Ret (None, BWaiting)
      | Some r \<Rightarrow> rbind (outcome r) (\<lambda>st. Ret (Some st, BComplete st)))"

fun poll_blocking :: "(rusb_error + unit \<Rightarrow> (transfer_error + unit) run) \<Rightarrow> (rusb_error + unit) option \<Rightarrow>
    blocking_state \<Rightarrow> ((transfer_error + unit) option \<times> blocking_state) run" where
  "poll_blocking outcome call (BInit has_handle) = (if has_handle then poll_waiting outcome call else Panic)"
| "poll_blocking outcome call BWaiting = poll_waiting outcome call"
| "poll_blocking outcome call (BComplete st) = Ret (Some st, BComplete st)"

section \<open>Facts: the table and libusb\<close>

text \<open>The interfaces that a table calls claimed, and those that libusb has claimed for the handle.\<close>

definition tab :: "interface_status list \<Rightarrow> u8 set" where
  "tab sts = {i. unat i < length sts \<and> sts ! unat i = IsClaimed}"

text \<open>What the documentation of libusb says of claimed interfaces.\<close>

definition sets_claim :: "('d \<Rightarrow> u8 set) \<Rightarrow> (u8 set \<Rightarrow> u8 set) \<Rightarrow> 'd usb_call \<Rightarrow> bool" where
  "sets_claim cl f call \<longleftrightarrow> (\<forall>d r d'. call d = (r, d') \<longrightarrow> cl d' = (if r = Inr () then f (cl d) else cl d))"

definition libusb_ok :: "'d usb_ops \<Rightarrow> ('d \<Rightarrow> u8 set) \<Rightarrow> bool" where
  "libusb_ok U cl \<longleftrightarrow>
     (\<forall>i. sets_claim cl (insert i) (u_claim_interface U i)) \<and>
     (\<forall>i. sets_claim cl (\<lambda>A. A - {i}) (u_release_interface U i)) \<and>
     (\<forall>c. sets_claim cl id (u_set_active_configuration U c)) \<and>
     (\<forall>i. sets_claim cl id (u_detach_kernel_driver U i)) \<and>
     (\<forall>b. sets_claim cl id (u_set_auto_detach U b)) \<and> sets_claim cl id (u_reset U) \<and>
     (\<forall>i a. sets_claim cl id (u_set_alternate_setting U i a)) \<and> (\<forall>ep. sets_claim cl id (u_clear_halt U ep)) \<and>
     (\<forall>d d'. u_open U d = Inr d' \<longrightarrow> cl d' = {})"

text \<open>
  Releasing an interface that is not claimed fails (\<^verbatim>\<open>NOT_FOUND\<close>), and so does changing the
  configuration while an interface is claimed (\<^verbatim>\<open>BUSY\<close>).
\<close>

definition libusb_strict :: "'d usb_ops \<Rightarrow> ('d \<Rightarrow> u8 set) \<Rightarrow> bool" where
  "libusb_strict U cl \<longleftrightarrow>
     (\<forall>i d. i \<notin> cl d \<longrightarrow> fst (u_release_interface U i d) \<noteq> Inr ()) \<and>
     (\<forall>c d. cl d \<noteq> {} \<longrightarrow> fst (u_set_active_configuration U c d) \<noteq> Inr ())"

lemma sets_claimD: "sets_claim cl f call \<Longrightarrow> call d = (r, d') \<Longrightarrow> cl d' = (if r = Inr () then f (cl d) else cl d)"
  by (simp add: sets_claim_def)

lemma libusb_okD:
  assumes "libusb_ok U cl"
  shows "sets_claim cl (insert i) (u_claim_interface U i)"
    and "sets_claim cl (\<lambda>A. A - {i}) (u_release_interface U i)"
    and "sets_claim cl id (u_set_active_configuration U c)"
    and "sets_claim cl id (u_detach_kernel_driver U i)"
    and "sets_claim cl id (u_set_auto_detach U b)" and "sets_claim cl id (u_reset U)"
    and "u_open U d = Inr d' \<Longrightarrow> cl d' = {}"
    and "sets_claim cl id (u_set_alternate_setting U i a)" and "sets_claim cl id (u_clear_halt U ep)"
  using assms by (simp_all add: libusb_ok_def)

lemma unat_index [simp]: "n < 256 \<Longrightarrow> unat (word_of_nat n :: u8) = n"
  by (simp add: unat_of_nat take_bit_nat_eq_self)

lemma index_eq: "n < 256 \<Longrightarrow> (i = (word_of_nat n :: u8)) = (unat i = n)"
  by (metis unat_index word_unat_eq_iff)

lemma tab_put:
  assumes "length pre < 256"
  shows "tab (pre @ st # sts) =
    (if st = IsClaimed then insert (word_of_nat (length pre)) (tab (pre @ st' # sts))
     else tab (pre @ st' # sts) - {word_of_nat (length pre)})"
  using assms by (auto simp: tab_def nth_append index_eq nth_Cons split: nat.splits)

lemma tab_Nil [simp]: "tab [] = {}"
  by (simp add: tab_def)

lemma tab_snoc: "length pre < 256 \<Longrightarrow> tab (pre @ [st]) = (if st = IsClaimed then insert (word_of_nat (length pre)) (tab pre) else tab pre)"
  by (auto simp: tab_def nth_append index_eq)

lemma sweep_table:
  assumes "\<And>i. sets_claim cl (if new = IsClaimed then insert i else (\<lambda>A. A - {i})) (call i)"
    and "cl d = tab (pre @ sts)" and "length (pre @ sts) \<le> 256"
    and "sweep old new call (length pre) sts d = (r, sts', d')"
  shows "length sts' = length sts \<and> (\<exists>i. cl d' - {i} = tab (pre @ sts') - {i}) \<and>
    (r = Inr () \<longrightarrow> sts' = map (\<lambda>s. if s = old then new else s) sts \<and> cl d' = tab (pre @ sts'))"
  using assms(2-)
proof (induction sts arbitrary: pre d sts' r d')
  case (Cons st sts)
  have pre: "length pre < 256" using Cons.prems(2) by simp
  let ?k = "word_of_nat (length pre) :: u8"
  show ?case
  proof (cases "st = old")
    case False
    obtain r1 s1 d1 where s: "sweep old new call (length (pre @ [st])) sts d = (r1, s1, d1)" by (metis prod_cases3)
    have "r = r1" "sts' = st # s1" "d' = d1" using Cons.prems(3) s False by simp_all
    with Cons.IH [OF _ _ s] Cons.prems(1,2) False show ?thesis by simp
  next
    case True
    obtain rc dc where c: "call ?k d = (rc, dc)" by fastforce
    note cl = sets_claimD [OF assms(1) c]
    have same: "tab (pre @ new # sts) - {?k} = tab (pre @ st # sts) - {?k}"
      using tab_put [OF pre, of new sts st] by auto
    show ?thesis
    proof (cases rc)
      case (Inl e)
      with Cons.prems cl c same True show ?thesis by auto
    next
      case (Inr u)
      obtain r1 s1 d1 where s: "sweep old new call (length (pre @ [new])) sts dc = (r1, s1, d1)" by (metis prod_cases3)
      have e: "r = r1" "sts' = new # s1" "d' = d1" using Cons.prems(3) s c Inr True by simp_all
      have "cl dc = tab (pre @ new # sts)"
        using cl Cons.prems(1) Inr tab_put [OF pre, of new sts st] by simp
      with Cons.IH [OF _ _ s] Cons.prems(2) e True show ?thesis by simp
    qed
  qed
qed auto

lemma sweep_release:
  assumes "libusb_ok U cl" and "libusb_strict U cl"
    and "IsClaimed \<notin> set pre" and "length (pre @ sts) \<le> 256"
    and "sweep IsClaimed IsUnclaimed (u_release_interface U) (length pre) sts d = (Inr (), sts', d')"
  shows "tab (pre @ sts) \<subseteq> cl d \<and> cl d' = cl d - tab (pre @ sts)"
  using assms(3-)
proof (induction sts arbitrary: pre d sts' d')
  case Nil
  have "tab pre = {}" using Nil.prems(1) nth_mem [of _ pre] by (fastforce simp: tab_def)
  with Nil show ?case by simp
next
  case (Cons st sts)
  have pre: "length pre < 256" using Cons.prems(2) by simp
  let ?k = "word_of_nat (length pre) :: u8"
  show ?case
  proof (cases "st = IsClaimed")
    case False
    obtain r1 s1 d1 where s: "sweep IsClaimed IsUnclaimed (u_release_interface U) (length (pre @ [st])) sts d = (r1, s1, d1)"
      by (metis prod_cases3)
    have "r1 = Inr ()" "d1 = d'" using Cons.prems(3) s False by simp_all
    with Cons.IH [of "pre @ [st]" d s1 d'] Cons.prems(1,2) s False show ?thesis by simp
  next
    case True
    obtain rc dc where c: "u_release_interface U ?k d = (rc, dc)" by fastforce
    obtain r1 s1 d1 where s: "sweep IsClaimed IsUnclaimed (u_release_interface U) (length (pre @ [IsUnclaimed])) sts dc = (r1, s1, d1)"
      by (metis prod_cases3)
    have e: "rc = Inr ()" "r1 = Inr ()" "d1 = d'"
      using Cons.prems(3) s c True by (auto split: sum.splits)
    have "?k \<in> cl d" using assms(2) c e(1) by (metis fst_conv libusb_strict_def)
    moreover have "cl dc = cl d - {?k}" using e(1) sets_claimD [OF libusb_okD(2) [OF assms(1)] c] by simp
    moreover note k = calculation
    from Cons.IH [of "pre @ [IsUnclaimed]" dc s1 d'] Cons.prems(1,2) s e
    have "tab (pre @ IsUnclaimed # sts) \<subseteq> cl dc \<and> cl d' = cl dc - tab (pre @ IsUnclaimed # sts)" by simp
    with k show ?thesis using tab_put [OF pre, of IsClaimed sts IsUnclaimed] True by auto
  qed
qed

lemma take_interface_ok:
  assumes ok: "libusb_ok U cl" and t: "take_interface U i d = Ret (Inr st, d')"
  shows "cl d' = (if st = IsClaimed then insert i (cl d) else cl d)"
proof -
  obtain rc dc where c: "u_claim_interface U i d = (rc, dc)" by fastforce
  obtain rd dd where dd: "u_detach_kernel_driver U i d = (rd, dd)" by fastforce
  obtain r2 d2 where c2: "u_claim_interface U i dd = (r2, d2)" by fastforce
  show ?thesis
    using t c dd c2 sets_claimD [OF libusb_okD(1) [OF ok] c] sets_claimD [OF libusb_okD(4) [OF ok] dd]
      sets_claimD [OF libusb_okD(1) [OF ok] c2]
    by (cases rc; cases rd; cases r2) (auto simp: take_interface_def split: sum.splits bool.splits if_splits)
qed

lemma map_sum_InrE: "map_sum f g x = Inr y \<Longrightarrow> (\<And>z. x = Inr z \<Longrightarrow> y = g z \<Longrightarrow> P) \<Longrightarrow> P"
  by (cases x) auto

lemma take_interfaces_ok:
  assumes "libusb_ok U cl" and "take_interfaces U (length pre) n d = Ret (Inr sts, d')"
    and "cl d = tab pre" and "length pre + n \<le> 256"
  shows "length sts = n \<and> cl d' = tab (pre @ sts)"
  using assms(2-)
proof (induction n arbitrary: pre d sts)
  case (Suc n)
  obtain a d1 where a: "take_interface U (word_of_nat (length pre)) d = Ret (a, d1)"
    using Suc.prems(1) by (cases "take_interface U (word_of_nat (length pre)) d") auto
  then obtain st where "a = Inr st" using Suc.prems(1) by (cases a) simp_all
  with a have t: "take_interface U (word_of_nat (length pre)) d = Ret (Inr st, d1)" by simp
  with Suc.prems(1) obtain sts1 where r: "take_interfaces U (length (pre @ [st])) n d1 = Ret (Inr sts1, d')"
    and s: "sts = st # sts1"
    by (auto simp: rbind_eq_Ret elim: map_sum_InrE)
  have "cl d1 = tab (pre @ [st])"
    using take_interface_ok [OF assms(1) t] Suc.prems(2,3) by (simp add: tab_snoc)
  from Suc.IH [OF r this] Suc.prems(3) s show ?case by simp
qed simp

text \<open>A table that says which interfaces libusb has claimed.\<close>

definition table_true :: "('d \<Rightarrow> u8 set) \<Rightarrow> 'd handle \<Rightarrow> bool" where
  "table_true cl h \<longleftrightarrow> length (h_interfaces h) = NUM_INTERFACES \<and> cl (h_device h) = tab (h_interfaces h)"

lemma claim_fun: "(if IsClaimed = IsClaimed then insert i else (\<lambda>A. A - {i})) = insert i"
  "(if IsUnclaimed = IsClaimed then insert i else (\<lambda>A. A - {i})) = (\<lambda>A. A - {i})"
  by simp_all

lemma swept_back: "IsClaimed \<in> {sts ! k} \<Longrightarrow> k < length sts \<Longrightarrow>
    map (\<lambda>s. if s = IsUnclaimed then IsClaimed else s) (map (\<lambda>s. if s = IsClaimed then IsUnclaimed else s) sts) ! k = IsClaimed"
  by simp

lemma set_config_inner_table:
  assumes ok: "libusb_ok U cl" and tt: "table_true cl h" and sc: "set_config_inner U c h = (r, h')"
  shows "length (h_interfaces h') = NUM_INTERFACES \<and>
    (\<exists>i. cl (h_device h') - {i} = tab (h_interfaces h') - {i}) \<and>
    (r = Inr () \<longrightarrow> table_true cl h' \<and> tab (h_interfaces h) \<subseteq> tab (h_interfaces h'))"
proof -
  obtain r1 s1 d1 where s: "sweep IsClaimed IsUnclaimed (u_release_interface U) 0 (h_interfaces h) (h_device h) = (r1, s1, d1)"
    by (metis prod_cases3)
  have len: "length (h_interfaces h) = 16" "cl (h_device h) = tab (h_interfaces h)"
    using tt by (simp_all add: table_true_def NUM_INTERFACES_def)
  have sw1: "length s1 = 16 \<and> (\<exists>i. cl d1 - {i} = tab s1 - {i}) \<and>
      (r1 = Inr () \<longrightarrow> s1 = map (\<lambda>s. if s = IsClaimed then IsUnclaimed else s) (h_interfaces h) \<and> cl d1 = tab s1)"
    using sweep_table [of cl IsUnclaimed "u_release_interface U" "h_device h" "[]" "h_interfaces h" IsClaimed r1 s1 d1]
      libusb_okD(2) [OF ok] s len by simp
  obtain r2 d2 where c2: "u_set_active_configuration U c d1 = (r2, d2)" by fastforce
  have cl2: "cl d2 = cl d1" using sets_claimD [OF libusb_okD(3) [OF ok] c2] by simp
  obtain r3 s3 d3 where s3: "sweep IsUnclaimed IsClaimed (u_claim_interface U) 0 s1 d2 = (r3, s3, d3)"
    by (metis prod_cases3)
  consider (release) "r1 \<noteq> Inr ()" | (config) "r1 = Inr ()" "r2 \<noteq> Inr ()" | (claim) "r1 = Inr ()" "r2 = Inr ()" by blast
  then show ?thesis
  proof cases
    case release
    then obtain e where "r1 = Inl e" by (cases r1) auto
    with sc s have "h' = \<lparr>h_device = d1, h_interfaces = s1\<rparr>" "r = r1" by (simp_all add: set_config_inner_def)
    with release sw1 show ?thesis by (simp add: NUM_INTERFACES_def)
  next
    case config
    then obtain e where "r2 = Inl e" by (cases r2) auto
    with sc s c2 config(1) have "h' = \<lparr>h_device = d2, h_interfaces = s1\<rparr>" "r = r2"
      by (simp_all add: set_config_inner_def)
    with config sw1 cl2 len(1) show ?thesis by (simp add: NUM_INTERFACES_def)
  next
    case claim
    have sw3: "length s3 = 16 \<and> (\<exists>i. cl d3 - {i} = tab s3 - {i}) \<and>
        (r3 = Inr () \<longrightarrow> s3 = map (\<lambda>s. if s = IsUnclaimed then IsClaimed else s) s1 \<and> cl d3 = tab s3)"
      using sweep_table [of cl IsClaimed "u_claim_interface U" d2 "[]" s1 IsUnclaimed r3 s3 d3]
        libusb_okD(1) [OF ok] s3 sw1 claim cl2 len(1) by simp
    have h': "r = r3" "h' = \<lparr>h_device = d3, h_interfaces = s3\<rparr>"
      using sc s c2 s3 claim by (simp_all add: set_config_inner_def)
    have "r3 = Inr () \<Longrightarrow> tab (h_interfaces h) \<subseteq> tab s3"
      using sw1 sw3 claim len(1) by (auto simp: tab_def)
    with sw1 sw3 h' show ?thesis by (simp add: table_true_def NUM_INTERFACES_def)
  qed
qed

lemma set_config_true:
  assumes "libusb_ok U cl" and "table_true cl h" and "set_config U c h = (Inr (), h')"
  shows "table_true cl h' \<and> tab (h_interfaces h) \<subseteq> tab (h_interfaces h')"
proof (cases "h' = h")
  case False
  with assms(3) have "set_config_inner U c h = (Inr (), h')"
    by (auto simp: set_config_def split: sum.splits if_splits)
  from set_config_inner_table [OF assms(1,2) this] show ?thesis by blast
qed (use assms(2) in simp)

section \<open>Properties\<close>

text \<open>C17. A device that was opened has a true table: an interface is marked as claimed exactly when libusb
  has claimed it, whatever drivers held the device and whatever calls failed on the way.\<close>

theorem opened_table_true:
  assumes ok: "libusb_ok U cl" and op: "open_device U devices dev_id = Ret (Inr h)"
  shows "table_true cl h"
proof -
  obtain devs dev d0 where d0: "devices = Inr devs" "u_open U dev = Inr d0"
    and op1: "(case usb_try (u_set_auto_detach U False d0) (u_reset U) of
        (Inl err, _) \<Rightarrow> Ret (Inl err)
      | (Inr _, d1) \<Rightarrow> rbind (take_interfaces U 0 NUM_INTERFACES d1) (\<lambda>(r, d2).
          case r of Inl err \<Rightarrow> Ret (Inl err)
          | Inr sts \<Rightarrow> (case set_config U BASE_CONFIG \<lparr>h_device = d2, h_interfaces = sts\<rparr> of
              (Inl err, _) \<Rightarrow> Ret (Inl err) | (Inr _, h) \<Rightarrow> Ret (Inr h)))) = Ret (Inr h)"
    using op by (auto simp: open_device_def split: sum.splits option.splits prod.splits)
  obtain ra da where a: "u_set_auto_detach U False d0 = (ra, da)" by fastforce
  obtain rb d1 where b: "u_reset U da = (rb, d1)" by fastforce
  have r: "ra = Inr () \<and> rb = Inr ()" using op1 a b by (cases ra; cases rb) simp_all
  have "cl d1 = {}"
    using libusb_okD(7) [OF ok d0(2)] sets_claimD [OF libusb_okD(5) [OF ok] a] sets_claimD [OF libusb_okD(6) [OF ok] b] by simp
  moreover obtain r2 d2 where t2: "take_interfaces U 0 NUM_INTERFACES d1 = Ret (r2, d2)"
    using op1 a b r by (cases "take_interfaces U 0 NUM_INTERFACES d1") auto
  moreover obtain sts where t: "r2 = Inr sts" using op1 a b r t2 by (cases r2) simp_all
  moreover obtain u h1 where sc: "set_config U BASE_CONFIG \<lparr>h_device = d2, h_interfaces = sts\<rparr> = (u, h1)" by fastforce
  moreover have h: "u = Inr () \<and> h1 = h" using op1 a b r t2 t sc by (cases u) simp_all
  ultimately have "table_true cl \<lparr>h_device = d2, h_interfaces = sts\<rparr>"
    using take_interfaces_ok [OF ok, of "[]" NUM_INTERFACES d1 sts d2] by (simp add: table_true_def NUM_INTERFACES_def)
  with sc h set_config_inner_table [OF ok this] show ?thesis
    by (auto simp: set_config_def split: sum.splits if_splits)
qed

text \<open>From a true table, a change of the configuration that succeeds leaves a true table, and every
  interface that was claimed is claimed again. One that fails leaves a table that is wrong for at
  most one interface, the one whose call failed.\<close>

theorem set_config_table:
  assumes "libusb_ok U cl" and "table_true cl h" and "set_config U c h = (r, h')"
  shows "(r = Inr () \<longrightarrow> table_true cl h' \<and> tab (h_interfaces h) \<subseteq> tab (h_interfaces h')) \<and>
    (\<exists>i. cl (h_device h') - {i} = tab (h_interfaces h') - {i})"
proof (cases "h' = h")
  case True
  with assms(2) show ?thesis by (auto simp: table_true_def)
next
  case False
  with assms(3) have "set_config_inner U c h = (r, h')"
    by (auto simp: set_config_def split: sum.splits if_splits)
  from set_config_inner_table [OF assms(1,2) this] show ?thesis by blast
qed

text \<open>A wrong table is not forgotten: the next change of the configuration fails, because it releases an
  interface that is not claimed, or leaves one claimed. As a failed change may leave a wrong table,
  a second one, to a configuration that the device has, may fail for this reason alone.\<close>

theorem wrong_table_fails:
  assumes ok: "libusb_ok U cl" and strict: "libusb_strict U cl"
    and "length (h_interfaces h) = NUM_INTERFACES" and "cl (h_device h) \<noteq> tab (h_interfaces h)"
    and "u_active_configuration U (h_device h) = Inr active" and "c \<noteq> active"
  shows "\<exists>err. fst (set_config U c h) = Inl err"
proof -
  obtain r1 s1 d1 where s: "sweep IsClaimed IsUnclaimed (u_release_interface U) 0 (h_interfaces h) (h_device h) = (r1, s1, d1)"
    by (metis prod_cases3)
  obtain r2 d2 where c2: "u_set_active_configuration U c d1 = (r2, d2)" by fastforce
  have "r2 \<noteq> Inr ()" if "r1 = Inr ()"
  proof -
    have "tab (h_interfaces h) \<subseteq> cl (h_device h) \<and> cl d1 = cl (h_device h) - tab (h_interfaces h)"
      using sweep_release [OF ok strict, of "[]" "h_interfaces h" "h_device h" s1 d1] s that assms(3)
      by (simp add: NUM_INTERFACES_def)
    then have "cl d1 \<noteq> {}" using assms(4) by blast
    with strict c2 show ?thesis by (metis fst_conv libusb_strict_def)
  qed
  then show ?thesis
    using s c2 assms(5,6) by (cases r1; cases r2) (auto simp: set_config_def set_config_inner_def)
qed

section \<open>Witnesses\<close>

text \<open>
  A device whose first configuration has two interfaces and whose others have one; the state is
  the active configuration, 0 when there is none, and the claimed interfaces.
\<close>

definition small_usb :: "(u8 \<times> u8 set) usb_ops" where
  "small_usb = \<lparr>u_active_configuration = (\<lambda>(c, A). Inr c),
     u_set_active_configuration = (\<lambda>c' (c, A). if A = {} then (Inr (), (c', A)) else (Inl RE_Busy, (c, A))),
     u_claim_interface = (\<lambda>i (c, A). if i = 0 \<or> i = 1 \<and> c = 1 then (Inr (), (c, insert i A)) else (Inl RE_NotFound, (c, A))),
     u_release_interface = (\<lambda>i (c, A). if i \<in> A then (Inr (), (c, A - {i})) else (Inl RE_NotFound, (c, A))),
     u_set_alternate_setting = (\<lambda>i s d. (Inr (), d)), u_set_auto_detach = (\<lambda>b d. (Inr (), d)),
     u_reset = (\<lambda>d. (Inr (), d)), u_kernel_driver_active = (\<lambda>i (c, A). Inr (i = 0)),
     u_detach_kernel_driver = (\<lambda>i d. (Inr (), d)), u_open = (\<lambda>(c, A). Inr (c, {})),
     u_clear_halt = (\<lambda>ep d. (Inr (), d))\<rparr>"

lemma small_usb_ok: "libusb_ok small_usb snd"
  by (auto simp: libusb_ok_def sets_claim_def small_usb_def split: if_splits)

lemma small_usb_strict: "libusb_strict small_usb snd"
  by (auto simp: libusb_strict_def small_usb_def)

definition two_claimed :: "(u8 \<times> u8 set) handle" where
  "two_claimed = \<lparr>h_device = (1, {0, 1}), h_interfaces = IsClaimed # IsClaimed # replicate 14 IsNotFound\<rparr>"

text \<open>The second configuration lacks an interface: the table says that it is claimed.\<close>

definition one_missing :: "(u8 \<times> u8 set) handle" where
  "one_missing = \<lparr>h_device = (2, {0}), h_interfaces = IsClaimed # IsClaimed # replicate 14 IsNotFound\<rparr>"

lemma tab_two: "tab (IsClaimed # IsClaimed # replicate n IsNotFound) = {0, 1}"
proof (rule set_eqI)
  fix i :: u8
  have "i \<in> tab (IsClaimed # IsClaimed # replicate n IsNotFound) \<longleftrightarrow> unat i = 0 \<or> unat i = 1"
    by (auto simp: tab_def nth_Cons split: nat.splits)
  then show "i \<in> tab (IsClaimed # IsClaimed # replicate n IsNotFound) \<longleftrightarrow> i \<in> {0, 1}"
    using index_eq [of 0 i] index_eq [of 1 i] by simp
qed

lemma sweep_none: "old \<notin> set sts \<Longrightarrow> sweep old new call i sts d = (Inr (), sts, d)"
  by (induction sts arbitrary: i) auto

lemma second_config: "set_config small_usb 2 two_claimed = (Inl RE_NotFound, one_missing)"
  by (simp add: set_config_def set_config_inner_def two_claimed_def one_missing_def small_usb_def sweep_none insert_Diff_if)

lemma small_rest:
  "2 \<le> i \<Longrightarrow> i + n \<le> 256 \<Longrightarrow>
    take_interfaces small_usb i n (c, A) = Ret (Inr (replicate n IsNotFound), (c, A))"
proof (induction n arbitrary: i)
  case (Suc n)
  have "(word_of_nat i :: u8) \<noteq> 0" "(word_of_nat i :: u8) \<noteq> 1"
    using Suc.prems index_eq [of i 0] index_eq [of i 1] by auto
  with Suc show ?case by (simp add: take_interface_def) (simp add: small_usb_def)
qed simp

lemma small_taken:
  "take_interfaces small_usb 0 16 (1, {}) =
    Ret (Inr (IsClaimed # IsClaimed # replicate 14 IsNotFound), (1, {0, 1}))"
proof -
  have "take_interface small_usb 0 (1, {}) = Ret (Inr IsClaimed, (1, {0}))"
    "take_interface small_usb 1 (1, {0}) = Ret (Inr IsClaimed, (1, {0, 1}))"
    by (simp_all add: take_interface_def) (simp_all add: small_usb_def insert_commute)
  moreover have "(16 :: nat) = Suc (Suc 14)" by simp
  ultimately show ?thesis using small_rest [of 2 14 1 "{0, 1}"] by (simp only: take_interfaces.simps) (simp flip: numeral_2_eq_2)
qed

theorem opened_table_true_witness:
  "table_true snd two_claimed"
proof (rule opened_table_true [OF small_usb_ok, where devices = "Inr [(\<lparr>bus_number = 1, device_addr = 2\<rparr>, (1, {}))]"
      and dev_id = "\<lparr>bus_number = 1, device_addr = 2\<rparr>"])
  have "u_set_auto_detach small_usb False (1, {}) = (Inr (), (1, {}))" "u_reset small_usb = (\<lambda>d. (Inr (), d))"
    "u_open small_usb (1, {}) = Inr (1, {})" "u_active_configuration small_usb (1, {0, 1}) = Inr 1"
    by (simp_all add: small_usb_def)
  then show "open_device small_usb (Inr [(\<lparr>bus_number = 1, device_addr = 2\<rparr>, (1, {}))])
      \<lparr>bus_number = 1, device_addr = 2\<rparr> = Ret (Inr two_claimed)"
    by (simp add: open_device_def NUM_INTERFACES_def small_taken set_config_def BASE_CONFIG_def two_claimed_def)
qed

theorem set_config_table_witness:
  "\<exists>i. snd (h_device one_missing) - {i} = tab (h_interfaces one_missing) - {i}"
  using set_config_table [OF small_usb_ok _ second_config]
  by (simp add: table_true_def two_claimed_def tab_two NUM_INTERFACES_def)

theorem wrong_table_fails_witness:
  "\<exists>err. fst (set_config small_usb 1 (snd (set_config small_usb 2 two_claimed))) = Inl err"
  unfolding second_config snd_conv
  by (rule wrong_table_fails [OF small_usb_ok small_usb_strict, where active = 2])
    (simp_all add: one_missing_def NUM_INTERFACES_def tab_two, simp add: small_usb_def)

end
