(* ===== verification/Blocking_Ctrl.thy ===== *)
theory Blocking_Ctrl
  imports Device_Handle
begin

text \<open>
  The control requests that change the device itself: the futures of \<^verbatim>\<open>operator/lend/blocking.rs\<close>,
  each with a thread that makes the call, the future that \<^verbatim>\<open>ctrl.rs\<close> of \<^verbatim>\<open>qusb-lend\<close> makes of the
  kinds of control requests (with that of an ordinary transfer, \<^verbatim>\<open>new_ctrl\<close> of \<^verbatim>\<open>operator.rs\<close>), and the set of control requests in progress that the receive loop
  keeps. The three futures of \<^verbatim>\<open>blocking.rs\<close> differ only in the call that they make and in what they make
  of its result, so that they are one record with the request in it.
\<close>

section \<open>A future and its thread\<close>

text \<open>A change of the configuration goes through three parts. The two sweeps hold the lock of the table,
  but the lock is free between the parts.\<close>

datatype call_thread = NotSpawned | Spawned | Releasing | Activating | Claiming | Returned "rusb_error + unit"

fun under_way :: "call_thread \<Rightarrow> bool" where
  "under_way NotSpawned = False"
| "under_way (Returned _) = False"
| "under_way _ = True"

fun thread_result :: "call_thread \<Rightarrow> (rusb_error + unit) option" where
  "thread_result (Returned r) = Some r"
| "thread_result _ = None"

record blocking_fut =
  bf_seqnum :: u32
  bf_req :: ctrl_req
  bf_state :: blocking_state
  bf_thread :: call_thread

definition set_alt_setting_async :: "u32 \<Rightarrow> u8 \<Rightarrow> u8 \<Rightarrow> blocking_fut" where
  "set_alt_setting_async sn interface setting =
     \<lparr>bf_seqnum = sn, bf_req = SetInterface setting interface, bf_state = BInit True, bf_thread = NotSpawned\<rparr>"

definition set_config_async :: "u32 \<Rightarrow> u8 \<Rightarrow> blocking_fut" where
  "set_config_async sn config =
     \<lparr>bf_seqnum = sn, bf_req = SetConfig config, bf_state = BInit True, bf_thread = NotSpawned\<rparr>"

definition clear_stall_async :: "u32 \<Rightarrow> u8 \<Rightarrow> blocking_fut" where
  "clear_stall_async sn ep =
     \<lparr>bf_seqnum = sn, bf_req = ClearStall ep, bf_state = BInit True, bf_thread = NotSpawned\<rparr>"

text \<open>The parts of \<open>set_config_inner\<close>, and what the thread does in a step.\<close>

definition release_claimed :: "'d usb_ops \<Rightarrow> 'd handle \<Rightarrow> (rusb_error + unit) \<times> 'd handle" where
  "release_claimed U h =
     (case sweep IsClaimed IsUnclaimed (u_release_interface U) 0 (h_interfaces h) (h_device h) of
        (r, sts, d) \<Rightarrow> (r, \<lparr>h_device = d, h_interfaces = sts\<rparr>))"

definition activate :: "'d usb_ops \<Rightarrow> u8 \<Rightarrow> 'd handle \<Rightarrow> (rusb_error + unit) \<times> 'd handle" where
  "activate U config h = (case u_set_active_configuration U config (h_device h) of (r, d) \<Rightarrow> (r, h\<lparr>h_device := d\<rparr>))"

definition claim_unclaimed :: "'d usb_ops \<Rightarrow> 'd handle \<Rightarrow> (rusb_error + unit) \<times> 'd handle" where
  "claim_unclaimed U h =
     (case sweep IsUnclaimed IsClaimed (u_claim_interface U) 0 (h_interfaces h) (h_device h) of
        (r, sts, d) \<Rightarrow> (r, \<lparr>h_device = d, h_interfaces = sts\<rparr>))"

definition clear_stall :: "'d usb_ops \<Rightarrow> u8 \<Rightarrow> 'd handle \<Rightarrow> (rusb_error + unit) \<times> 'd handle" where
  "clear_stall U ep h = (case u_clear_halt U ep (h_device h) of (r, d) \<Rightarrow> (r, h\<lparr>h_device := d\<rparr>))"

fun go_on :: "(rusb_error + unit) \<times> 'd handle \<Rightarrow> call_thread \<Rightarrow> call_thread \<times> 'd handle" where
  "go_on (Inl err, h) _ = (Returned (Inl err), h)"
| "go_on (Inr _, h) th = (th, h)"

definition config_wanted :: "'d usb_ops \<Rightarrow> u8 \<Rightarrow> 'd handle \<Rightarrow> call_thread" where
  "config_wanted U config h =
     (case u_active_configuration U (h_device h) of
        Inl err \<Rightarrow> Returned (Inl err)
      | Inr active \<Rightarrow> if config = active then Returned (Inr ()) else Releasing)"

fun thread_step :: "'d usb_ops \<Rightarrow> ctrl_req \<Rightarrow> call_thread \<Rightarrow> 'd handle \<Rightarrow> call_thread \<times> 'd handle" where
  "thread_step U (SetInterface setting interface) Spawned h = go_on (set_alt_setting U interface setting h) (Returned (Inr ()))"
| "thread_step U (ClearStall ep) Spawned h = go_on (clear_stall U ep h) (Returned (Inr ()))"
| "thread_step U (SetConfig config) Spawned h = (config_wanted U config h, h)"
| "thread_step U (SetConfig config) Releasing h = go_on (release_claimed U h) Activating"
| "thread_step U (SetConfig config) Activating h = go_on (activate U config h) Claiming"
| "thread_step U (SetConfig config) Claiming h = go_on (claim_unclaimed U h) (Returned (Inr ()))"
| "thread_step U _ th h = (th, h)"

text \<open>The call as a whole.\<close>

fun blocking_call :: "'d usb_ops \<Rightarrow> ctrl_req \<Rightarrow> 'd handle \<Rightarrow> (rusb_error + unit) \<times> 'd handle" where
  "blocking_call U (SetInterface setting interface) h = set_alt_setting U interface setting h"
| "blocking_call U (SetConfig config) h = set_config U config h"
| "blocking_call U (ClearStall ep) h = clear_stall U ep h"

fun call_outcome :: "ctrl_req \<Rightarrow> rusb_error + unit \<Rightarrow> (transfer_error + unit) run" where
  "call_outcome (SetInterface _ _) = set_interface_outcome"
| "call_outcome (SetConfig _) = stall_outcome"
| "call_outcome (ClearStall _) = stall_outcome"

text \<open>The first poll starts the thread, which returns before a later poll at the earliest.\<close>

definition poll_fut :: "blocking_fut \<Rightarrow> ((transfer_error + unit) seq option \<times> blocking_fut) run" where
  "poll_fut f =
     (let th = (if bf_state f = BInit True then Spawned else bf_thread f)
      in rbind (poll_blocking (call_outcome (bf_req f)) (thread_result th) (bf_state f)) (\<lambda>(out, st).
           Ret (map_option (\<lambda>status. \<lparr>sq_seqnum = bf_seqnum f, sq_data = status\<rparr>) out,
             f\<lparr>bf_state := st, bf_thread := th\<rparr>)))"

text \<open>What the methods of the handler make of the result.\<close>

definition blocking_reply :: "(transfer_error + unit) seq \<Rightarrow> xfer seq" where
  "blocking_reply sq = blocking_done (sq_seqnum sq) (sq_data sq)"

section \<open>The future of a control request\<close>

text \<open>\<open>'a\<close> is the future of an ordinary control transfer.\<close>

datatype 'a ctrl_fut =
    FutAsync 'a
  | FutSetInterface blocking_fut
  | FutSetConfig blocking_fut
  | FutClearStall blocking_fut

fun ctrl_poll :: "('a \<Rightarrow> (xfer seq option \<times> 'a) run) \<Rightarrow> 'a ctrl_fut \<Rightarrow> (xfer seq option \<times> 'a ctrl_fut) run" where
  "ctrl_poll poll_async (FutAsync a) = rbind (poll_async a) (\<lambda>(out, a'). Ret (out, FutAsync a'))"
| "ctrl_poll poll_async (FutSetInterface f) =
     rbind (poll_fut f) (\<lambda>(out, f'). Ret (map_option blocking_reply out, FutSetInterface f'))"
| "ctrl_poll poll_async (FutSetConfig f) =
     rbind (poll_fut f) (\<lambda>(out, f'). Ret (map_option blocking_reply out, FutSetConfig f'))"
| "ctrl_poll poll_async (FutClearStall f) =
     rbind (poll_fut f) (\<lambda>(out, f'). Ret (map_option blocking_reply out, FutClearStall f'))"

text \<open>
  The future of \<open>new_ctrl\<close>. What libusb does with the transfer is a parameter: a poll finds it unfinished,
  or finished with a status and, if nothing else holds the transfer, its buffer with the setup
  packet in front. (The thread that submits it may still hold it.)
\<close>

datatype transfer_report = StillPending | Finished libusb_status "bytes option"

record async_ctrl =
  ac_seqnum :: u32
  ac_header :: urb_header
  ac_reports :: "transfer_report list"

definition poll_ctrl :: "vhci_ops \<Rightarrow> async_ctrl \<Rightarrow> (xfer seq option \<times> async_ctrl) run" where
  "poll_ctrl V a =
     (case ac_reports a of
        [] \<Rightarrow> Ret (None, a)
      | StillPending # rs \<Rightarrow> Ret (None, a\<lparr>ac_reports := rs\<rparr>)
      | Finished st mb # rs \<Rightarrow>
          (case mb of
             None \<Rightarrow> Panic
           | Some buf \<Rightarrow> rbind (ctrl_done V (ac_seqnum a) (ac_header a) st buf) (\<lambda>sq. Ret (Some sq, a\<lparr>ac_reports := rs\<rparr>))))"

definition ctrl_future :: "vhci_ops \<Rightarrow> 'a \<Rightarrow> u32 \<Rightarrow> setup_packet \<Rightarrow> 'a ctrl_fut" where
  "ctrl_future V a sn pkt =
     (case ctrl_kind_parse V pkt of
        CtrlBlocking (SetInterface setting interface) \<Rightarrow> FutSetInterface (set_alt_setting_async sn interface setting)
      | CtrlBlocking (SetConfig desired) \<Rightarrow> FutSetConfig (set_config_async sn desired)
      | CtrlBlocking (ClearStall ep) \<Rightarrow> FutClearStall (clear_stall_async sn ep)
      | CtrlAsync \<Rightarrow> FutAsync a)"

section \<open>The requests in progress\<close>

record ('d, 'a) ctrl_set =
  cs_handle :: "'d handle"
  cs_futs :: "'a ctrl_fut list"
  cs_results :: "xfer seq list"

text \<open>A request comes with the future of its transfer, which is used when it is an ordinary one.\<close>

datatype 'a ctrl_event = CtrlRequest u32 setup_packet 'a | CtrlThread nat | CtrlPoll nat

fun blocking_part :: "'a ctrl_fut \<Rightarrow> blocking_fut option" where
  "blocking_part (FutAsync _) = None"
| "blocking_part (FutSetInterface f) = Some f"
| "blocking_part (FutSetConfig f) = Some f"
| "blocking_part (FutClearStall f) = Some f"

fun with_blocking :: "'a ctrl_fut \<Rightarrow> blocking_fut \<Rightarrow> 'a ctrl_fut" where
  "with_blocking (FutAsync a) _ = FutAsync a"
| "with_blocking (FutSetInterface _) f = FutSetInterface f"
| "with_blocking (FutSetConfig _) f = FutSetConfig f"
| "with_blocking (FutClearStall _) f = FutClearStall f"

text \<open>\<open>None\<close>: the event cannot happen. A future that is ready leaves the set.\<close>

definition ctrl_request :: "vhci_ops \<Rightarrow> 'a \<Rightarrow> u32 \<Rightarrow> setup_packet \<Rightarrow> ('d, 'a) ctrl_set \<Rightarrow> ('d, 'a) ctrl_set" where
  "ctrl_request V a sn pkt s = s\<lparr>cs_futs := cs_futs s @ [ctrl_future V a sn pkt]\<rparr>"

definition thread_runs :: "'d usb_ops \<Rightarrow> nat \<Rightarrow> ('d, 'a) ctrl_set \<Rightarrow> ('d, 'a) ctrl_set option" where
  "thread_runs U i s =
     (if i < length (cs_futs s) then
        (case blocking_part (cs_futs s ! i) of
           None \<Rightarrow> None
         | Some f \<Rightarrow>
             (if under_way (bf_thread f) then
                (case thread_step U (bf_req f) (bf_thread f) (cs_handle s) of
                   (th, h) \<Rightarrow> Some (s\<lparr>cs_handle := h,
                     cs_futs := (cs_futs s)[i := with_blocking (cs_futs s ! i) (f\<lparr>bf_thread := th\<rparr>)]\<rparr>))
              else None))
      else None)"

definition poll_nth :: "('a \<Rightarrow> (xfer seq option \<times> 'a) run) \<Rightarrow> nat \<Rightarrow> ('d, 'a) ctrl_set \<Rightarrow> ('d, 'a) ctrl_set run option" where
  "poll_nth poll_async i s =
     (if i < length (cs_futs s) then
        Some (rbind (ctrl_poll poll_async (cs_futs s ! i)) (\<lambda>(out, fut).
          Ret (case out of
                 None \<Rightarrow> s\<lparr>cs_futs := (cs_futs s)[i := fut]\<rparr>
               | Some sq \<Rightarrow> s\<lparr>cs_futs := take i (cs_futs s) @ drop (Suc i) (cs_futs s), cs_results := cs_results s @ [sq]\<rparr>)))
      else None)"

fun ctrl_step :: "'d usb_ops \<Rightarrow> vhci_ops \<Rightarrow> ('a \<Rightarrow> (xfer seq option \<times> 'a) run) \<Rightarrow> 'a ctrl_event \<Rightarrow>
    ('d, 'a) ctrl_set \<Rightarrow> ('d, 'a) ctrl_set run option" where
  "ctrl_step U V poll_async (CtrlRequest sn pkt a) s = Some (Ret (ctrl_request V a sn pkt s))"
| "ctrl_step U V poll_async (CtrlThread i) s = map_option Ret (thread_runs U i s)"
| "ctrl_step U V poll_async (CtrlPoll i) s = poll_nth poll_async i s"

fun ctrl_run :: "'d usb_ops \<Rightarrow> vhci_ops \<Rightarrow> ('a \<Rightarrow> (xfer seq option \<times> 'a) run) \<Rightarrow> 'a ctrl_event list \<Rightarrow>
    ('d, 'a) ctrl_set \<Rightarrow> ('d, 'a) ctrl_set run option" where
  "ctrl_run U V poll_async [] s = Some (Ret s)"
| "ctrl_run U V poll_async (ev # evs) s =
     (case ctrl_step U V poll_async ev s of
        Some (Ret s') \<Rightarrow> ctrl_run U V poll_async evs s'
      | r \<Rightarrow> r)"

definition ctrl_start :: "'d handle \<Rightarrow> ('d, 'a) ctrl_set" where
  "ctrl_start h = \<lparr>cs_handle = h, cs_futs = [], cs_results = []\<rparr>"

section \<open>Facts\<close>

text \<open>Where a future and its thread are while it is in progress: it holds the handle until it starts the
  thread, and it has not been polled since it was ready.\<close>

definition fut_ok :: "blocking_fut \<Rightarrow> bool" where
  "fut_ok f \<longleftrightarrow> bf_state f = BInit True \<and> bf_thread f = NotSpawned \<or> bf_state f = BWaiting \<and> bf_thread f \<noteq> NotSpawned"

fun ctrl_fut_ok :: "'a ctrl_fut \<Rightarrow> bool" where
  "ctrl_fut_ok (FutAsync _) \<longleftrightarrow> True"
| "ctrl_fut_ok (FutSetInterface f) \<longleftrightarrow> fut_ok f \<and> (\<exists>a i. bf_req f = SetInterface a i)"
| "ctrl_fut_ok (FutSetConfig f) \<longleftrightarrow> fut_ok f \<and> (\<exists>c. bf_req f = SetConfig c)"
| "ctrl_fut_ok (FutClearStall f) \<longleftrightarrow> fut_ok f \<and> (\<exists>ep. bf_req f = ClearStall ep)"

definition futs_ok :: "('d, 'a) ctrl_set \<Rightarrow> bool" where
  "futs_ok s \<longleftrightarrow> (\<forall>fut \<in> set (cs_futs s). ctrl_fut_ok fut)"

lemma ctrl_future_ok: "ctrl_fut_ok (ctrl_future V a sn pkt)"
  by (simp add: ctrl_future_def set_alt_setting_async_def set_config_async_def clear_stall_async_def fut_ok_def
      split: ctrl_kind.split ctrl_req.split)

lemma poll_fut_cases:
  assumes "fut_ok f"
  shows "poll_fut f =
    (case thread_result (bf_thread f) of
       None \<Rightarrow> Ret (None, f\<lparr>bf_state := BWaiting,
         bf_thread := (if bf_thread f = NotSpawned then Spawned else bf_thread f)\<rparr>)
     | Some r \<Rightarrow> rbind (call_outcome (bf_req f) r) (\<lambda>st.
         Ret (Some \<lparr>sq_seqnum = bf_seqnum f, sq_data = st\<rparr>, f\<lparr>bf_state := BComplete st\<rparr>)))"
proof -
  obtain sn req st th where f: "f = \<lparr>bf_seqnum = sn, bf_req = req, bf_state = st, bf_thread = th\<rparr>" by (cases f) blast
  from assms show ?thesis
    by (cases th) (auto simp: f fut_ok_def poll_fut_def poll_waiting_def rbind_assoc)
qed

lemma poll_fut_pending:
  assumes "fut_ok f" and "poll_fut f = Ret (None, f')"
  shows "fut_ok f' \<and> bf_req f' = bf_req f"
proof (cases "thread_result (bf_thread f)")
  case None
  with assms(2) have "f' = f\<lparr>bf_state := BWaiting, bf_thread := (if bf_thread f = NotSpawned then Spawned else bf_thread f)\<rparr>"
    by (simp add: poll_fut_cases [OF assms(1)])
  then show ?thesis by (simp add: fut_ok_def)
next
  case (Some r)
  with assms(2) show ?thesis by (simp add: poll_fut_cases [OF assms(1)] rbind_eq_Ret)
qed

lemma ctrl_poll_pending:
  "ctrl_fut_ok fut \<Longrightarrow> ctrl_poll poll_async fut = Ret (None, fut') \<Longrightarrow> ctrl_fut_ok fut'"
proof (cases fut)
  case (FutSetInterface f)
  assume "ctrl_fut_ok fut" "ctrl_poll poll_async fut = Ret (None, fut')"
  with FutSetInterface obtain f' where f: "fut' = FutSetInterface f'" "poll_fut f = Ret (None, f')" "fut_ok f" "\<exists>a i. bf_req f = SetInterface a i"
    by (auto simp: rbind_eq_Ret)
  from poll_fut_pending [OF f(3,2)] f(1,4) show ?thesis by simp
next
  case (FutSetConfig f)
  assume "ctrl_fut_ok fut" "ctrl_poll poll_async fut = Ret (None, fut')"
  with FutSetConfig obtain f' where f: "fut' = FutSetConfig f'" "poll_fut f = Ret (None, f')" "fut_ok f" "\<exists>c. bf_req f = SetConfig c"
    by (auto simp: rbind_eq_Ret)
  from poll_fut_pending [OF f(3,2)] f(1,4) show ?thesis by simp
next
  case (FutClearStall f)
  assume "ctrl_fut_ok fut" "ctrl_poll poll_async fut = Ret (None, fut')"
  with FutClearStall obtain f' where f: "fut' = FutClearStall f'" "poll_fut f = Ret (None, f')" "fut_ok f" "\<exists>ep. bf_req f = ClearStall ep"
    by (auto simp: rbind_eq_Ret)
  from poll_fut_pending [OF f(3,2)] f(1,4) show ?thesis by simp
qed (auto simp: rbind_eq_Ret)

lemma thread_fut_ok:
  "ctrl_fut_ok fut \<Longrightarrow> blocking_part fut = Some f \<Longrightarrow> under_way (bf_thread f) \<Longrightarrow> th \<noteq> NotSpawned \<Longrightarrow>
    ctrl_fut_ok (with_blocking fut (f\<lparr>bf_thread := th\<rparr>))"
  by (cases fut) (auto simp: fut_ok_def)

lemma go_on_spawned: "th \<noteq> NotSpawned \<Longrightarrow> fst (go_on x th) \<noteq> NotSpawned"
  by (cases x; cases "fst x") auto

lemma thread_step_spawned: "under_way th \<Longrightarrow> fst (thread_step U req th h) \<noteq> NotSpawned"
  by (cases "(U, req, th, h)" rule: thread_step.cases)
    (simp_all add: go_on_spawned config_wanted_def split: sum.split)

lemma set_update_ok: "\<forall>x \<in> set xs. P x \<Longrightarrow> P y \<Longrightarrow> \<forall>x \<in> set (xs[i := y]). P x"
  using set_update_subset_insert [of xs i y] by auto

lemma ctrl_step_ok:
  assumes "futs_ok s" and "ctrl_step U V poll_async ev s = Some (Ret s')"
  shows "futs_ok s'"
proof (cases ev)
  case (CtrlRequest sn pkt a)
  with assms ctrl_future_ok show ?thesis by (auto simp: ctrl_request_def futs_ok_def)
next
  case (CtrlThread i)
  with assms(2) obtain f th h where i: "i < length (cs_futs s)" "blocking_part (cs_futs s ! i) = Some f" "under_way (bf_thread f)"
    "thread_step U (bf_req f) (bf_thread f) (cs_handle s) = (th, h)"
    and s': "s' = s\<lparr>cs_handle := h, cs_futs := (cs_futs s)[i := with_blocking (cs_futs s ! i) (f\<lparr>bf_thread := th\<rparr>)]\<rparr>"
    by (auto simp: thread_runs_def split: if_splits option.splits prod.splits)
  have "ctrl_fut_ok (cs_futs s ! i)" using assms(1) i(1) by (simp add: futs_ok_def)
  moreover have "th \<noteq> NotSpawned" using thread_step_spawned [OF i(3), of U "bf_req f" "cs_handle s"] i(4) by simp
  moreover note t = thread_fut_ok [OF calculation(1) i(2,3) calculation(2)]
  show ?thesis
    unfolding s' futs_ok_def using set_update_ok [OF assms(1) [unfolded futs_ok_def] t] by simp
next
  case (CtrlPoll i)
  with assms(2) obtain out fut where i: "i < length (cs_futs s)" "ctrl_poll poll_async (cs_futs s ! i) = Ret (out, fut)"
    and s': "s' = (case out of None \<Rightarrow> s\<lparr>cs_futs := (cs_futs s)[i := fut]\<rparr>
      | Some sq \<Rightarrow> s\<lparr>cs_futs := take i (cs_futs s) @ drop (Suc i) (cs_futs s), cs_results := cs_results s @ [sq]\<rparr>)"
    by (auto simp: poll_nth_def rbind_eq_Ret split: if_splits)
  have ok: "ctrl_fut_ok (cs_futs s ! i)" using assms(1) i(1) by (simp add: futs_ok_def)
  show ?thesis
  proof (cases out)
    case None
    with ctrl_poll_pending [OF ok] i(2) have "ctrl_fut_ok fut" by blast
    with None show ?thesis
      unfolding s' futs_ok_def using set_update_ok [OF assms(1) [unfolded futs_ok_def]] by simp
  next
    case (Some sq)
    with assms(1) show ?thesis unfolding s' futs_ok_def by (auto dest: in_set_takeD in_set_dropD)
  qed
qed

lemma ctrl_run_inv:
  assumes "ctrl_run U V poll_async evs s = Some (Ret s')" and "I s"
    and "\<And>ev s s'. I s \<Longrightarrow> ctrl_step U V poll_async ev s = Some (Ret s') \<Longrightarrow> I s'"
  shows "I s'"
  using assms(1,2)
proof (induction evs arbitrary: s)
  case (Cons ev evs)
  then obtain s1 where s1: "ctrl_step U V poll_async ev s = Some (Ret s1)"
    "ctrl_run U V poll_async evs s1 = Some (Ret s')"
    by (auto split: option.splits run.splits)
  from Cons.IH [OF s1(2) assms(3) [OF Cons.prems(2) s1(1)]] show ?case .
qed simp

lemma ctrl_run_ok: "ctrl_run U V poll_async evs (ctrl_start h) = Some (Ret s) \<Longrightarrow> futs_ok s"
  by (erule ctrl_run_inv) (auto simp: ctrl_start_def futs_ok_def [of "\<lparr>cs_handle = h, cs_futs = [], cs_results = []\<rparr>"] intro: ctrl_step_ok)

text \<open>The result of a call panics the task in two cases.\<close>

lemma set_interface_panics: "set_interface_outcome r = Panic \<longleftrightarrow> r = Inl RE_NotFound \<or> r = Inl RE_NoDevice"
  by (cases r rule: set_interface_outcome.cases) auto

lemma stall_returns: "\<exists>st. stall_outcome r = Ret st"
  by (cases r) auto

lemma poll_fut_panics:
  assumes "fut_ok f"
  shows "poll_fut f = Panic \<longleftrightarrow> (\<exists>r. bf_thread f = Returned r \<and> call_outcome (bf_req f) r = Panic)"
proof (cases "bf_thread f")
  case (Returned r)
  then show ?thesis by (cases "call_outcome (bf_req f) r") (simp_all add: poll_fut_cases [OF assms])
qed (simp_all add: poll_fut_cases [OF assms])

text \<open>A thread that nothing else interferes with makes the whole call, in four steps at most.\<close>

fun thread_alone :: "nat \<Rightarrow> 'd usb_ops \<Rightarrow> ctrl_req \<Rightarrow> call_thread \<times> 'd handle \<Rightarrow> call_thread \<times> 'd handle" where
  "thread_alone 0 U req x = x"
| "thread_alone (Suc n) U req (th, h) = (if under_way th then thread_alone n U req (thread_step U req th h) else (th, h))"

lemma alone_returned [simp]: "thread_alone n U req (Returned r, h) = (Returned r, h)"
  by (cases n) simp_all

lemma set_config_inner_parts:
  "thread_alone 3 U (SetConfig c) (Releasing, h) = (case set_config_inner U c h of (r, h') \<Rightarrow> (Returned r, h'))"
proof -
  obtain r1 s1 d1 where s: "sweep IsClaimed IsUnclaimed (u_release_interface U) 0 (h_interfaces h) (h_device h) = (r1, s1, d1)"
    by (metis prod_cases3)
  obtain r2 d2 where a: "u_set_active_configuration U c d1 = (r2, d2)" by fastforce
  obtain r3 s3 d3 where c: "sweep IsUnclaimed IsClaimed (u_claim_interface U) 0 s1 d2 = (r3, s3, d3)"
    by (metis prod_cases3)
  show ?thesis
    by (cases r1; cases r2; cases r3)
      (simp_all add: numeral_3_eq_3 release_claimed_def activate_def claim_unclaimed_def set_config_inner_def s a c)
qed

lemma alone_call: "thread_alone 4 U req (Spawned, h) = (case blocking_call U req h of (r, h') \<Rightarrow> (Returned r, h'))"
proof (cases req)
  case (SetConfig c)
  have "thread_alone 4 U req (Spawned, h) = thread_alone 3 U req (config_wanted U c h, h)"
    by (simp add: SetConfig eval_nat_numeral)
  then show ?thesis
    by (simp add: SetConfig config_wanted_def set_config_def set_config_inner_parts split: sum.split)
next
  case (SetInterface a i)
  obtain r h' where "set_alt_setting U i a h = (r, h')" by fastforce
  then show ?thesis by (cases r) (simp_all add: SetInterface eval_nat_numeral)
next
  case (ClearStall ep)
  obtain r h' where "clear_stall U ep h = (r, h')" by fastforce
  then show ?thesis by (cases r) (simp_all add: ClearStall eval_nat_numeral)
qed

text \<open>A run in which no change of the configuration fails.\<close>

fun failed :: "call_thread \<Rightarrow> bool" where
  "failed (Returned (Inl _)) = True"
| "failed _ = False"

fun is_set_config :: "ctrl_req \<Rightarrow> bool" where
  "is_set_config (SetConfig _) = True"
| "is_set_config _ = False"

fun config_succeeds :: "'d usb_ops \<Rightarrow> 'a ctrl_event \<Rightarrow> ('d, 'a) ctrl_set \<Rightarrow> bool" where
  "config_succeeds U (CtrlThread i) s =
     (case blocking_part (cs_futs s ! i) of
        Some f \<Rightarrow> \<not> (is_set_config (bf_req f) \<and> failed (fst (thread_step U (bf_req f) (bf_thread f) (cs_handle s))))
      | None \<Rightarrow> True)"
| "config_succeeds U _ s = True"

fun configs_succeed :: "'d usb_ops \<Rightarrow> vhci_ops \<Rightarrow> ('a \<Rightarrow> (xfer seq option \<times> 'a) run) \<Rightarrow> 'a ctrl_event list \<Rightarrow>
    ('d, 'a) ctrl_set \<Rightarrow> bool" where
  "configs_succeed U V poll_async [] s = True"
| "configs_succeed U V poll_async (ev # evs) s =
     (config_succeeds U ev s \<and>
      (case ctrl_step U V poll_async ev s of
         Some (Ret s') \<Rightarrow> configs_succeed U V poll_async evs s'
       | _ \<Rightarrow> True))"

text \<open>The interfaces that are claimed, or not claimed for the time being.\<close>

definition ours :: "interface_status list \<Rightarrow> u8 set" where
  "ours sts = {i. unat i < length sts \<and> sts ! unat i \<in> {IsClaimed, IsUnclaimed}}"

lemma tab_ours: "tab sts \<subseteq> ours sts"
  by (auto simp: tab_def ours_def)

lemma ours_map:
  "ours (map (\<lambda>s. if s = IsClaimed then IsUnclaimed else s) sts) = ours sts"
  "ours (map (\<lambda>s. if s = IsUnclaimed then IsClaimed else s) sts) = ours sts"
  "tab (map (\<lambda>s. if s = IsUnclaimed then IsClaimed else s) sts) = ours sts"
  by (auto simp: tab_def ours_def split: if_splits)

lemma released_map: "tab (map (\<lambda>s. if s = IsClaimed then IsUnclaimed else s) sts) = {}"
  by (auto simp: tab_def split: if_splits)

definition parts_keep :: "('d \<Rightarrow> u8 set) \<Rightarrow> 'd handle \<Rightarrow> 'd handle \<Rightarrow> bool" where
  "parts_keep cl h h' \<longleftrightarrow> table_true cl h' \<and> ours (h_interfaces h') = ours (h_interfaces h)"

lemma release_claimed_table:
  assumes "libusb_ok U cl" and "table_true cl h" and "release_claimed U h = (Inr (), h')"
  shows "parts_keep cl h h' \<and> tab (h_interfaces h') = {}"
proof -
  obtain r sts d where s: "sweep IsClaimed IsUnclaimed (u_release_interface U) 0 (h_interfaces h) (h_device h) = (r, sts, d)"
    by (metis prod_cases3)
  have len: "length (h_interfaces h) = 16" "cl (h_device h) = tab (h_interfaces h)"
    using assms(2) by (simp_all add: table_true_def NUM_INTERFACES_def)
  have "r = Inr ()" "h' = \<lparr>h_device = d, h_interfaces = sts\<rparr>" using assms(3) s by (simp_all add: release_claimed_def)
  with sweep_table [of cl IsUnclaimed "u_release_interface U" "h_device h" "[]" "h_interfaces h" IsClaimed r sts d]
    libusb_okD(2) [OF assms(1)] s len show ?thesis
    by (simp add: parts_keep_def table_true_def NUM_INTERFACES_def ours_map released_map)
qed

lemma claim_unclaimed_table:
  assumes "libusb_ok U cl" and "table_true cl h" and "claim_unclaimed U h = (Inr (), h')"
  shows "parts_keep cl h h' \<and> tab (h_interfaces h') = ours (h_interfaces h)"
proof -
  obtain r sts d where s: "sweep IsUnclaimed IsClaimed (u_claim_interface U) 0 (h_interfaces h) (h_device h) = (r, sts, d)"
    by (metis prod_cases3)
  have len: "length (h_interfaces h) = 16" "cl (h_device h) = tab (h_interfaces h)"
    using assms(2) by (simp_all add: table_true_def NUM_INTERFACES_def)
  have "r = Inr ()" "h' = \<lparr>h_device = d, h_interfaces = sts\<rparr>" using assms(3) s by (simp_all add: claim_unclaimed_def)
  with sweep_table [of cl IsClaimed "u_claim_interface U" "h_device h" "[]" "h_interfaces h" IsUnclaimed r sts d]
    libusb_okD(1) [OF assms(1)] s len show ?thesis
    by (simp add: parts_keep_def table_true_def NUM_INTERFACES_def ours_map)
qed

lemma device_call_table:
  assumes "table_true cl h" and "sets_claim cl id call" and "call (h_device h) = (r, d)"
  shows "parts_keep cl h (h\<lparr>h_device := d\<rparr>) \<and> tab (h_interfaces (h\<lparr>h_device := d\<rparr>)) = tab (h_interfaces h)"
  using assms(1) sets_claimD [OF assms(2,3)] by (simp add: parts_keep_def table_true_def)

text \<open>When the device refuses a configuration, it is left without any interface, and a request for the one
  that it still has is granted without claiming them again.\<close>

lemma refused_config_unclaims:
  assumes "libusb_ok U cl" and "table_true cl h" and "release_claimed U h = (Inr (), h1)" and "activate U c h1 = (Inl err, h2)"
  shows "set_config_inner U c h = (Inl err, h2) \<and> cl (h_device h2) = {} \<and> tab (h_interfaces h2) = {} \<and>
    (\<forall>c0. u_active_configuration U (h_device h2) = Inr c0 \<longrightarrow> set_config U c0 h2 = (Inr (), h2))"
proof -
  obtain r1 s1 d1 where s: "sweep IsClaimed IsUnclaimed (u_release_interface U) 0 (h_interfaces h) (h_device h) = (r1, s1, d1)"
    by (metis prod_cases3)
  with assms(3) have h1: "r1 = Inr ()" "h1 = \<lparr>h_device = d1, h_interfaces = s1\<rparr>" by (simp_all add: release_claimed_def)
  obtain r2 d2 where a: "u_set_active_configuration U c d1 = (r2, d2)" by fastforce
  with assms(4) h1 have h2: "r2 = Inl err" "h2 = \<lparr>h_device = d2, h_interfaces = s1\<rparr>" by (simp_all add: activate_def)
  have "cl d1 = {}" "tab s1 = {}"
    using release_claimed_table [OF assms(1-3)] h1 by (simp_all add: parts_keep_def table_true_def)
  moreover from this have "cl d2 = {}" using sets_claimD [OF libusb_okD(3) [OF assms(1)] a] by simp
  ultimately show ?thesis using s a h1 h2 by (simp add: set_config_inner_def set_config_def)
qed

text \<open>What a step of a thread means for the table.\<close>

definition step_keeps :: "('d \<Rightarrow> u8 set) \<Rightarrow> ctrl_req \<Rightarrow> call_thread \<Rightarrow> call_thread \<Rightarrow> 'd handle \<Rightarrow> 'd handle \<Rightarrow> bool" where
  "step_keeps cl req th th' h h' \<longleftrightarrow> parts_keep cl h h' \<and>
     (is_set_config req \<and> th' = Activating \<or> tab (h_interfaces h) \<subseteq> tab (h_interfaces h')) \<and>
     (is_set_config req \<and> th = Claiming \<longrightarrow> tab (h_interfaces h') = ours (h_interfaces h')) \<and>
     (is_set_config req \<and> th = Activating \<longrightarrow> th' = Claiming)"

lemma go_on_cases: "go_on x next = (th, h) \<Longrightarrow> \<exists>r. x = (r, h) \<and> (r = Inr () \<and> th = next \<or> failed th)"
  by (cases "(x, next)" rule: go_on.cases) auto

lemma thread_step_table:
  assumes "libusb_ok U cl" and "table_true cl h" and "thread_step U req th h = (th', h')" and "under_way th"
    and "\<not> (is_set_config req \<and> failed th')"
  shows "step_keeps cl req th th' h h'"
proof -
  have same: "step_keeps cl req th th' h h" if "\<not> (is_set_config req \<and> (th = Claiming \<or> th = Activating))"
    using that assms(2) by (auto simp: step_keeps_def parts_keep_def)
  show ?thesis
  proof (cases "(U, req, th, h)" rule: thread_step.cases)
    case (1 U' a i h1)
    obtain r d where c: "u_set_alternate_setting U i a (h_device h) = (r, d)" by fastforce
    with 1 assms(3) have "h' = h\<lparr>h_device := d\<rparr>" by (cases r) (auto simp: set_alt_setting_def)
    with device_call_table [OF assms(2) libusb_okD(8) [OF assms(1)] c] 1 show ?thesis by (simp add: step_keeps_def)
  next
    case (2 U' ep h1)
    obtain r d where c: "u_clear_halt U ep (h_device h) = (r, d)" by fastforce
    with 2 assms(3) have "h' = h\<lparr>h_device := d\<rparr>" by (cases r) (auto simp: clear_stall_def)
    with device_call_table [OF assms(2) libusb_okD(9) [OF assms(1)] c] 2 show ?thesis by (simp add: step_keeps_def)
  next
    case (3 U' c h1)
    with assms(3) same show ?thesis by simp
  next
    case (4 U' c h1)
    with assms(3,5) go_on_cases [of "release_claimed U h" Activating th' h'] have "release_claimed U h = (Inr (), h')" "th' = Activating"
      by auto
    with release_claimed_table [OF assms(1,2)] 4 show ?thesis by (simp add: step_keeps_def)
  next
    case (5 U' c h1)
    obtain r d where a: "u_set_active_configuration U c (h_device h) = (r, d)" by fastforce
    with 5 assms(3,5) go_on_cases [of "activate U c h" Claiming th' h'] have "h' = h\<lparr>h_device := d\<rparr>" "th' = Claiming"
      by (auto simp: activate_def)
    with device_call_table [OF assms(2) libusb_okD(3) [OF assms(1)] a] 5 show ?thesis by (simp add: step_keeps_def)
  next
    case (6 U' c h1)
    with assms(3,5) go_on_cases [of "claim_unclaimed U h" "Returned (Inr ())" th' h'] have "claim_unclaimed U h = (Inr (), h')"
      "th' = Returned (Inr ())" by auto
    with claim_unclaimed_table [OF assms(1,2)] tab_ours [of "h_interfaces h"] 6 show ?thesis
      by (simp add: step_keeps_def parts_keep_def)
  qed (use assms(3,4) same in auto)
qed

text \<open>A change of the configuration that has released the interfaces and will claim them again.\<close>

fun changing_part :: "blocking_fut option \<Rightarrow> bool" where
  "changing_part (Some f) \<longleftrightarrow> is_set_config (bf_req f) \<and> bf_thread f \<in> {Activating, Claiming}"
| "changing_part None \<longleftrightarrow> False"

definition changing :: "('d, 'a) ctrl_set \<Rightarrow> bool" where
  "changing s \<longleftrightarrow> (\<exists>fut \<in> set (cs_futs s). changing_part (blocking_part fut))"

definition table_kept :: "('d \<Rightarrow> u8 set) \<Rightarrow> u8 set \<Rightarrow> ('d, 'a) ctrl_set \<Rightarrow> bool" where
  "table_kept cl T s \<longleftrightarrow> futs_ok s \<and> table_true cl (cs_handle s) \<and> T \<subseteq> ours (h_interfaces (cs_handle s)) \<and>
     (T \<subseteq> tab (h_interfaces (cs_handle s)) \<or> changing s)"

lemma changing_other:
  assumes "changing s" and "\<not> changing_part (blocking_part (cs_futs s ! i))" and "i < length (cs_futs s)"
  shows "\<exists>fut \<in> set ((cs_futs s)[i := x]). changing_part (blocking_part fut)"
    and "\<exists>fut \<in> set (take i (cs_futs s) @ drop (Suc i) (cs_futs s)). changing_part (blocking_part fut)"
proof -
  obtain j where j: "j < length (cs_futs s)" "changing_part (blocking_part (cs_futs s ! j))"
    using assms(1) by (auto simp: changing_def in_set_conv_nth)
  then have "j \<noteq> i" using assms(2) by auto
  then have "(cs_futs s)[i := x] ! j = cs_futs s ! j" by simp
  with j show "\<exists>fut \<in> set ((cs_futs s)[i := x]). changing_part (blocking_part fut)"
    by (metis length_list_update nth_mem)
  have "set (cs_futs s) = insert (cs_futs s ! i) (set (take i (cs_futs s) @ drop (Suc i) (cs_futs s)))"
    using id_take_nth_drop [OF assms(3)] by (metis Un_insert_right list.set(2) set_append)
  with j assms(2) show "\<exists>fut \<in> set (take i (cs_futs s) @ drop (Suc i) (cs_futs s)). changing_part (blocking_part fut)"
    by (metis insertE nth_mem)
qed

lemma blocking_part_with: "blocking_part fut = Some f \<Longrightarrow> blocking_part (with_blocking fut g) = Some g"
  by (cases fut) simp_all

lemma update_changing:
  assumes "i < length (cs_futs s)" and "changing_part (blocking_part x)"
  shows "\<exists>fut \<in> set ((cs_futs s)[i := x]). changing_part (blocking_part fut)"
  using assms by (metis set_update_memI)

text \<open>A poll leaves a change of the configuration to its thread.\<close>

lemma changing_poll:
  assumes "ctrl_fut_ok fut" and "changing_part (blocking_part fut)" and "ctrl_poll poll_async fut = Ret (out, fut')"
  shows "out = None \<and> changing_part (blocking_part fut')"
proof -
  obtain f where f: "fut = FutSetConfig f" "fut_ok f" "thread_result (bf_thread f) = None" "bf_thread f \<noteq> NotSpawned"
    using assms(1,2) by (cases fut) auto
  with assms(2,3) show ?thesis by (auto simp: poll_fut_cases [OF f(2)])
qed

lemma step_keeps_table:
  assumes "libusb_ok U cl" and "table_kept cl T s"
    and "ctrl_step U V poll_async ev s = Some (Ret s')" and "config_succeeds U ev s"
  shows "table_kept cl T s'"
proof -
  have ok: "futs_ok s'" using assms(2,3) ctrl_step_ok by (auto simp: table_kept_def)
  have tk: "table_true cl (cs_handle s)" "T \<subseteq> ours (h_interfaces (cs_handle s))"
    "T \<subseteq> tab (h_interfaces (cs_handle s)) \<or> changing s" using assms(2) by (simp_all add: table_kept_def)
  show ?thesis
  proof (cases ev)
    case (CtrlRequest sn pkt a)
    with assms(3) have "s' = ctrl_request V a sn pkt s" by simp
    with tk ok show ?thesis by (auto simp: table_kept_def ctrl_request_def changing_def)
  next
    case (CtrlThread i)
    with assms(3) obtain f th h where i: "i < length (cs_futs s)" "blocking_part (cs_futs s ! i) = Some f" "under_way (bf_thread f)"
      "thread_step U (bf_req f) (bf_thread f) (cs_handle s) = (th, h)"
      and s': "s' = s\<lparr>cs_handle := h, cs_futs := (cs_futs s)[i := with_blocking (cs_futs s ! i) (f\<lparr>bf_thread := th\<rparr>)]\<rparr>"
      by (auto simp: thread_runs_def split: if_splits option.splits prod.splits)
    have "\<not> (is_set_config (bf_req f) \<and> failed th)" using assms(4) CtrlThread i(2,4) by simp
    from thread_step_table [OF assms(1) tk(1) i(4,3) this] have sk: "step_keeps cl (bf_req f) (bf_thread f) th (cs_handle s) h" .
    have mine: "changing s'" if "is_set_config (bf_req f)" "th \<in> {Activating, Claiming}"
      using update_changing [OF i(1)] blocking_part_with [OF i(2)] that by (simp add: s' changing_def)
    have "T \<subseteq> tab (h_interfaces h) \<or> changing s'"
    proof (cases "changing_part (blocking_part (cs_futs s ! i))")
      case True
      with sk tk(2) mine show ?thesis by (auto simp: i(2) step_keeps_def parts_keep_def)
    next
      case False
      have "changing s'" if "changing s"
        using changing_other(1) [OF that False i(1)] by (simp add: s' changing_def)
      with sk tk(3) mine show ?thesis by (auto simp: step_keeps_def)
    qed
    with ok sk tk(2) show ?thesis by (simp add: table_kept_def s' step_keeps_def parts_keep_def)
  next
    case (CtrlPoll i)
    with assms(3) obtain out fut where i: "i < length (cs_futs s)" "ctrl_poll poll_async (cs_futs s ! i) = Ret (out, fut)"
      and s': "s' = (case out of None \<Rightarrow> s\<lparr>cs_futs := (cs_futs s)[i := fut]\<rparr>
        | Some sq \<Rightarrow> s\<lparr>cs_futs := take i (cs_futs s) @ drop (Suc i) (cs_futs s), cs_results := cs_results s @ [sq]\<rparr>)"
      by (auto simp: poll_nth_def rbind_eq_Ret split: if_splits)
    have fi: "ctrl_fut_ok (cs_futs s ! i)" using assms(2) i(1) by (simp add: table_kept_def futs_ok_def)
    have "changing s'" if "changing s"
    proof (cases "changing_part (blocking_part (cs_futs s ! i))")
      case True
      from changing_poll [OF fi True i(2)] update_changing [OF i(1)] show ?thesis by (simp add: s' changing_def)
    next
      case False
      from changing_other [OF that False i(1)] show ?thesis by (simp add: s' changing_def split: option.split)
    qed
    moreover have "cs_handle s' = cs_handle s" by (simp add: s' split: option.split)
    ultimately show ?thesis using ok tk by (auto simp: table_kept_def)
  qed
qed

lemma run_keeps_table:
  "libusb_ok U cl \<Longrightarrow> table_kept cl T s \<Longrightarrow> ctrl_run U V poll_async evs s = Some (Ret s') \<Longrightarrow>
    configs_succeed U V poll_async evs s \<Longrightarrow> table_kept cl T s'"
proof (induction evs arbitrary: s)
  case (Cons ev evs)
  then obtain s1 where s1: "ctrl_step U V poll_async ev s = Some (Ret s1)"
    "ctrl_run U V poll_async evs s1 = Some (Ret s')" "configs_succeed U V poll_async evs s1" "config_succeeds U ev s"
    by (auto split: option.splits run.splits)
  from Cons.IH [OF Cons.prems(1) step_keeps_table [OF Cons.prems(1,2) s1(1,4)] s1(2,3)] show ?case .
qed simp

text \<open>A thread by itself, as events.\<close>

lemma ctrl_run_append:
  "ctrl_run U V poll_async evs s = Some (Ret s1) \<Longrightarrow>
    ctrl_run U V poll_async (evs @ evs') s = ctrl_run U V poll_async evs' s1"
  by (induction evs arbitrary: s) (auto split: option.splits run.splits)

definition at_thread :: "nat \<Rightarrow> 'a ctrl_fut \<Rightarrow> blocking_fut \<Rightarrow> call_thread \<times> 'd handle \<Rightarrow> ('d, 'a) ctrl_set \<Rightarrow> ('d, 'a) ctrl_set" where
  "at_thread k fut f x s = s\<lparr>cs_handle := snd x, cs_futs := (cs_futs s)[k := with_blocking fut (f\<lparr>bf_thread := fst x\<rparr>)]\<rparr>"

lemma threads_run:
  assumes "k < length (cs_futs s)" and "blocking_part fut = Some f"
  shows "\<exists>m. ctrl_run U V poll_async (replicate m (CtrlThread k)) (at_thread k fut f x s) =
    Some (Ret (at_thread k fut f (thread_alone n U (bf_req f) x) s))"
proof (induction n arbitrary: x)
  case 0
  show ?case by (rule exI [of _ 0]) simp
next
  case (Suc n)
  obtain th h where x: "x = (th, h)" by fastforce
  show ?case
  proof (cases "under_way th")
    case False
    then show ?thesis by (intro exI [of _ 0]) (simp add: x)
  next
    case True
    have nw: "blocking_part (with_blocking fut g) = Some g" "with_blocking (with_blocking fut g) g' = with_blocking fut g'" for g g'
      using assms(2) by (cases fut; simp)+
    have "ctrl_step U V poll_async (CtrlThread k) (at_thread k fut f x s) =
        Some (Ret (at_thread k fut f (thread_step U (bf_req f) th h) s))"
      using assms(1) True by (simp add: at_thread_def thread_runs_def nw x split: prod.split)
    moreover obtain m where "ctrl_run U V poll_async (replicate m (CtrlThread k)) (at_thread k fut f (thread_step U (bf_req f) th h) s) =
        Some (Ret (at_thread k fut f (thread_alone n U (bf_req f) (thread_step U (bf_req f) th h)) s))"
      using Suc.IH by blast
    ultimately show ?thesis using True by (intro exI [of _ "Suc m"]) (simp add: x)
  qed
qed

text \<open>Which polls panic.\<close>

lemma ctrl_done_panics: "ctrl_done V sn h st buf = Panic \<longleftrightarrow>
    length buf < SETUP_SIZE \<or> setup_req V (ctrl_packet h) = STANDARD_DEVICE_GET_STATUS \<and> length buf = SETUP_SIZE"
  by (auto simp: ctrl_done_def endpoint_dir_def dir_from_u8_eq)

lemma poll_ctrl_panics: "poll_ctrl V a = Panic \<longleftrightarrow> (\<exists>st mb rs. ac_reports a = Finished st mb # rs \<and>
    (case mb of
       None \<Rightarrow> True
     | Some buf \<Rightarrow> length buf < SETUP_SIZE \<or>
         setup_req V (ctrl_packet (ac_header a)) = STANDARD_DEVICE_GET_STATUS \<and> length buf = SETUP_SIZE))"
proof (cases "ac_reports a")
  case (Cons x rs)
  have b: "rbind m (\<lambda>x. Ret (g x)) = Panic \<longleftrightarrow> m = Panic" for m :: "'z run" and g :: "'z \<Rightarrow> 'y" by (cases m) simp_all
  from Cons show ?thesis
    by (cases x) (auto simp: poll_ctrl_def b ctrl_done_panics split: option.split)
qed (simp add: poll_ctrl_def)

lemma poll_panics:
  assumes "ctrl_run U V poll_async evs (ctrl_start h) = Some (Ret s)" and "i < length (cs_futs s)"
  shows "ctrl_step U V poll_async (CtrlPoll i) s = Some Panic \<longleftrightarrow>
    (\<exists>f err. cs_futs s ! i = FutSetInterface f \<and> bf_thread f = Returned (Inl err) \<and> err \<in> {RE_NotFound, RE_NoDevice}) \<or>
    (\<exists>a. cs_futs s ! i = FutAsync a \<and> poll_async a = Panic)"
proof -
  have ok: "ctrl_fut_ok (cs_futs s ! i)" using ctrl_run_ok [OF assms(1)] assms(2) by (simp add: futs_ok_def)
  have b: "rbind m (\<lambda>x. Ret (g x)) = Panic \<longleftrightarrow> m = Panic" for m :: "'z run" and g :: "'z \<Rightarrow> 'y" by (cases m) simp_all
  have "ctrl_step U V poll_async (CtrlPoll i) s = Some Panic \<longleftrightarrow> ctrl_poll poll_async (cs_futs s ! i) = Panic"
    using assms(2) by (cases "ctrl_poll poll_async (cs_futs s ! i)") (auto simp: poll_nth_def)
  also have "\<dots> \<longleftrightarrow>
    (\<exists>f err. cs_futs s ! i = FutSetInterface f \<and> bf_thread f = Returned (Inl err) \<and> err \<in> {RE_NotFound, RE_NoDevice}) \<or>
    (\<exists>a. cs_futs s ! i = FutAsync a \<and> poll_async a = Panic)"
  proof (cases "cs_futs s ! i")
    case (FutAsync a)
    then show ?thesis by (simp add: b split_def)
  next
    case (FutSetInterface f)
    with ok have f: "fut_ok f" "call_outcome (bf_req f) = set_interface_outcome" by auto
    show ?thesis
      using FutSetInterface poll_fut_panics [OF f(1)] by (auto simp: f(2) set_interface_panics b split_def)
  next
    case (FutSetConfig f)
    with ok have f: "fut_ok f" "call_outcome (bf_req f) = stall_outcome" by auto
    have "\<not> (\<exists>r. stall_outcome r = Panic)" using stall_returns by (metis run.distinct(1))
    with FutSetConfig poll_fut_panics [OF f(1)] show ?thesis by (auto simp: f(2) b split_def)
  next
    case (FutClearStall f)
    with ok have f: "fut_ok f" "call_outcome (bf_req f) = stall_outcome" by auto
    have "\<not> (\<exists>r. stall_outcome r = Panic)" using stall_returns by (metis run.distinct(1))
    with FutClearStall poll_fut_panics [OF f(1)] show ?thesis by (auto simp: f(2) b split_def)
  qed
  finally show ?thesis .
qed

section \<open>Properties\<close>

text \<open>C18. Whatever control requests a peer sends, and however their threads and futures interleave, the table
  of the device stays true as long as no change of the configuration fails; and no interface is lost,
  except between the two halves of a change that is under way.\<close>

theorem control_requests_keep_table:
  assumes "libusb_ok U cl" and "table_true cl h"
    and "ctrl_run U V poll_async evs (ctrl_start h) = Some (Ret s)" and "configs_succeed U V poll_async evs (ctrl_start h)"
  shows "table_true cl (cs_handle s) \<and> (tab (h_interfaces h) \<subseteq> tab (h_interfaces (cs_handle s)) \<or> changing s)"
proof -
  have "table_kept cl (tab (h_interfaces h)) (ctrl_start h)"
    using assms(2) tab_ours by (simp add: table_kept_def ctrl_start_def futs_ok_def)
  from run_keeps_table [OF assms(1) this assms(3,4)] show ?thesis by (simp add: table_kept_def)
qed

text \<open>C36. Exactly when polling a control request in progress panics, whatever has happened: a request for an
  alternate setting, when libusb does not know the setting or the device is gone; an ordinary transfer
  that is finished, when its buffer is still held elsewhere, when it is shorter than a setup packet,
  or when the request is for the status of the device and no data came back. The futures are never
  polled after they are ready, and no other control request panics.\<close>

theorem control_poll_panics:
  assumes "ctrl_run U V (poll_ctrl V) evs (ctrl_start h) = Some (Ret s)" and "i < length (cs_futs s)"
  shows "ctrl_step U V (poll_ctrl V) (CtrlPoll i) s = Some Panic \<longleftrightarrow>
    (\<exists>f err. cs_futs s ! i = FutSetInterface f \<and> bf_thread f = Returned (Inl err) \<and> err \<in> {RE_NotFound, RE_NoDevice}) \<or>
    (\<exists>a st mb rs. cs_futs s ! i = FutAsync a \<and> ac_reports a = Finished st mb # rs \<and>
      (case mb of
         None \<Rightarrow> True
       | Some buf \<Rightarrow> length buf < SETUP_SIZE \<or>
           setup_req V (ctrl_packet (ac_header a)) = STANDARD_DEVICE_GET_STATUS \<and> length buf = SETUP_SIZE))"
  using poll_panics [OF assms] by (auto simp: poll_ctrl_panics)

text \<open>A request that changes the device is performed once and answered under its sequence number, with
  success or a stall by what libusb returns.\<close>

lemma blocking_request_answered:
  assumes "ctrl_kind_parse V pkt = CtrlBlocking req" and "blocking_call U req (cs_handle s) = (r, h)"
    and "call_outcome req r = Ret st"
  shows "\<exists>m. ctrl_run U V poll_async ([CtrlRequest sn pkt a, CtrlPoll (length (cs_futs s))] @
      replicate m (CtrlThread (length (cs_futs s))) @ [CtrlPoll (length (cs_futs s))]) s =
    Some (Ret (s\<lparr>cs_handle := h, cs_results := cs_results s @ [blocking_done sn st]\<rparr>))"
proof -
  let ?k = "length (cs_futs s)"
  let ?fut = "ctrl_future V a sn pkt"
  let ?s1 = "s\<lparr>cs_futs := cs_futs s @ [?fut]\<rparr>"
  obtain f where f: "blocking_part ?fut = Some f" "bf_req f = req" "bf_seqnum f = sn" "bf_state f = BInit True"
    using assms(1) by (cases req)
      (auto simp: ctrl_future_def set_alt_setting_async_def set_config_async_def clear_stall_async_def)
  let ?g = "f\<lparr>bf_state := BWaiting\<rparr>"
  have g: "blocking_part (with_blocking ?fut ?g) = Some ?g" by (rule blocking_part_with [OF f(1)])
  have nw: "with_blocking (with_blocking ?fut ?g) g' = with_blocking ?fut g'" for g' by (cases ?fut) simp_all
  have poll: "ctrl_poll poll_async ?fut = Ret (None, with_blocking ?fut (?g\<lparr>bf_thread := Spawned\<rparr>))"
    using f by (cases ?fut) (auto simp: poll_fut_def poll_waiting_def)
  have start: "ctrl_run U V poll_async [CtrlRequest sn pkt a, CtrlPoll ?k] s =
      Some (Ret (at_thread ?k (with_blocking ?fut ?g) ?g (Spawned, cs_handle s) ?s1))"
    by (simp add: ctrl_request_def poll_nth_def poll at_thread_def nw)
  obtain m where m: "ctrl_run U V poll_async (replicate m (CtrlThread ?k)) (at_thread ?k (with_blocking ?fut ?g) ?g (Spawned, cs_handle s) ?s1) =
      Some (Ret (at_thread ?k (with_blocking ?fut ?g) ?g (Returned r, h) ?s1))"
    using threads_run [of ?k ?s1 "with_blocking ?fut ?g" ?g U V poll_async "(Spawned, cs_handle s)" 4] g assms(2)
    by (auto simp: alone_call f(2))
  have last: "ctrl_poll poll_async (with_blocking ?fut (?g\<lparr>bf_thread := Returned r\<rparr>)) = Ret (Some (blocking_done sn st), x)"
    if "x = with_blocking ?fut (f\<lparr>bf_state := BComplete st, bf_thread := Returned r\<rparr>)" for x
    using f assms(3) that by (cases ?fut) (auto simp: poll_fut_def poll_waiting_def blocking_reply_def)
  have "ctrl_run U V poll_async [CtrlPoll ?k] (at_thread ?k (with_blocking ?fut ?g) ?g (Returned r, h) ?s1) =
      Some (Ret (s\<lparr>cs_handle := h, cs_results := cs_results s @ [blocking_done sn st]\<rparr>))"
    by (simp add: poll_nth_def at_thread_def nw last [OF refl])
  with ctrl_run_append [OF start] ctrl_run_append [OF m] show ?thesis by (metis append_assoc)
qed

section \<open>The properties at work\<close>

text \<open>A peer asks for another configuration and, while it is being changed, for a setting of an interface; another
  one asks for a setting that does not exist.\<close>

definition ctrl_vhci :: vhci_ops where
  "ctrl_vhci = \<lparr>setup_req = (\<lambda>p. if p = 0 then STANDARD_INTERFACE_SET_INTERFACE else STANDARD_DEVICE_SET_CONFIGURATION),
     setup_value = ucast, setup_index = (\<lambda>_. 0), setup_length = (\<lambda>_. 0),
     is_for_unassigned = (\<lambda>a. a = 0), is_anycast = (\<lambda>e. e = 0), address_new = Some\<rparr>"

definition no_settings :: "(u8 \<times> u8 set) usb_ops" where
  "no_settings = small_usb\<lparr>u_set_alternate_setting := (\<lambda>i a d. (Inl RE_NotFound, d))\<rparr>"

definition never :: "unit \<Rightarrow> (xfer seq option \<times> unit) run" where
  "never u = Ret (None, u)"

lemmas ctrl_example = ctrl_vhci_def never_def ctrl_start_def ctrl_request_def ctrl_future_def ctrl_kind_parse_def
  poll_nth_def thread_runs_def poll_fut_def poll_waiting_def set_alt_setting_async_def set_config_async_def
  blocking_reply_def

definition one_claimed :: "(u8 \<times> u8 set) handle" where
  "one_claimed = \<lparr>h_device = (2, {0}), h_interfaces = IsClaimed # IsUnclaimed # replicate 14 IsNotFound\<rparr>"

lemma tab_one: "tab (IsClaimed # IsUnclaimed # replicate n IsNotFound) = {0}"
proof (rule set_eqI)
  fix i :: u8
  consider "unat i = 0" | "unat i = Suc 0" | k where "unat i = Suc (Suc k)" by (metis not0_implies_Suc)
  then show "i \<in> tab (IsClaimed # IsUnclaimed # replicate n IsNotFound) \<longleftrightarrow> i \<in> {0}"
    using index_eq [of 0 i] by cases (auto simp: tab_def)
qed

lemma one_claimed_true: "table_true snd one_claimed"
  by (simp add: table_true_def one_claimed_def tab_one NUM_INTERFACES_def)

text \<open>The parts of the change to the first configuration.\<close>

lemma small_parts:
  "config_wanted small_usb 1 one_claimed = Releasing"
  "release_claimed small_usb one_claimed = (Inr (), \<lparr>h_device = (2, {}), h_interfaces = IsUnclaimed # IsUnclaimed # replicate 14 IsNotFound\<rparr>)"
  "activate small_usb 1 \<lparr>h_device = (2, {}), h_interfaces = sts\<rparr> = (Inr (), \<lparr>h_device = (1, {}), h_interfaces = sts\<rparr>)"
  "claim_unclaimed small_usb \<lparr>h_device = (1, {}), h_interfaces = IsUnclaimed # IsUnclaimed # replicate 14 IsNotFound\<rparr> = (Inr (), two_claimed)"
  "set_alt_setting small_usb i a h = (Inr (), h)"
  by (simp_all add: config_wanted_def release_claimed_def activate_def claim_unclaimed_def set_alt_setting_def one_claimed_def
    two_claimed_def small_usb_def sweep_none insert_commute)

definition two_requests :: "unit ctrl_event list" where
  "two_requests = [CtrlRequest 7 1 (), CtrlPoll 0, CtrlThread 0, CtrlRequest 8 0 (), CtrlPoll 1, CtrlThread 0, CtrlThread 1,
     CtrlThread 0, CtrlPoll 1, CtrlThread 0, CtrlPoll 0]"

theorem control_requests_keep_table_witness:
  "\<exists>s. ctrl_run small_usb ctrl_vhci never two_requests (ctrl_start one_claimed) = Some (Ret s) \<and>
    cs_results s = [blocking_done 8 (Inr ()), blocking_done 7 (Inr ())] \<and> table_true snd (cs_handle s) \<and>
    0 \<in> tab (h_interfaces (cs_handle s))"
proof -
  obtain s where s: "ctrl_run small_usb ctrl_vhci never two_requests (ctrl_start one_claimed) = Some (Ret s)"
      "cs_results s = [blocking_done 8 (Inr ()), blocking_done 7 (Inr ())]" "cs_futs s = []"
    by (simp add: two_requests_def ctrl_example small_parts)
  have "configs_succeed small_usb ctrl_vhci never two_requests (ctrl_start one_claimed)"
    by (simp add: two_requests_def ctrl_example small_parts)
  from control_requests_keep_table [OF small_usb_ok one_claimed_true s(1) this] s show ?thesis
    by (simp add: one_claimed_def tab_one changing_def)
qed

text \<open>A request for a setting that does not exist, and one for the status of a device that returns nothing.\<close>

definition status_vhci :: vhci_ops where
  "status_vhci = ctrl_vhci\<lparr>setup_req := (\<lambda>p. if p = 0 then STANDARD_INTERFACE_SET_INTERFACE else STANDARD_DEVICE_GET_STATUS)\<rparr>"

definition status_transfer :: async_ctrl where
  "status_transfer = \<lparr>ac_seqnum = 8, ac_header = (reply_header Control 0x80 0 TS_Pending 0 0 (ResOut 0))\<lparr>ctrl_packet := 1\<rparr>,
     ac_reports = [StillPending, Finished LS_Stall (Some (replicate 8 0))]\<rparr>"

theorem control_poll_panics_witness:
  "\<exists>s. ctrl_run no_settings status_vhci (poll_ctrl status_vhci)
      [CtrlRequest 7 0 status_transfer, CtrlRequest 8 1 status_transfer, CtrlPoll 0, CtrlThread 0, CtrlPoll 1] (ctrl_start two_claimed) =
      Some (Ret s) \<and> ctrl_step no_settings status_vhci (poll_ctrl status_vhci) (CtrlPoll 0) s = Some Panic \<and>
      ctrl_step no_settings status_vhci (poll_ctrl status_vhci) (CtrlPoll 1) s = Some Panic"
proof -
  let ?evs = "[CtrlRequest 7 0 status_transfer, CtrlRequest 8 1 status_transfer, CtrlPoll 0, CtrlThread 0, CtrlPoll 1]"
  obtain s where s: "ctrl_run no_settings status_vhci (poll_ctrl status_vhci) ?evs (ctrl_start two_claimed) = Some (Ret s)"
      "\<exists>f. cs_futs s = [FutSetInterface f, FutAsync (status_transfer\<lparr>ac_reports := tl (ac_reports status_transfer)\<rparr>)] \<and>
        bf_thread f = Returned (Inl RE_NotFound)"
    by (simp add: status_vhci_def ctrl_example set_alt_setting_def no_settings_def poll_ctrl_def status_transfer_def)
  from control_poll_panics [OF s(1), of 0] control_poll_panics [OF s(1), of 1] s show ?thesis
    by (auto simp: status_transfer_def status_vhci_def SETUP_SIZE_def)
qed

end
