(* ===== verification/Spec2Isabelle.thy ===== *)
theory Spec2Isabelle
  imports End_To_End Stub_Controller Stats Program Races Blocking_Ctrl
begin

text \<open>
  A verification development of \<^verbatim>\<open>qusb\<close>, which lends a USB device to another machine over a QUIC
  stream: the lender performs the transfers on the real device with libusb, the borrower has a
  virtual host controller (VHCI, a kernel driver) on which the device appears. Paths are relative to
  \<^verbatim>\<open>src/crates\<close>.

  \<^bold>\<open>How the program works, and where it is modelled.\<close>

  \<^item> A peer opens a stream with a request (borrow, lend, list the devices) and the other one answers:
    \<open>Session\<close> models both sides (\<^verbatim>\<open>qusb/src/lib.rs\<close>: \<^verbatim>\<open>Session::accept_stream\<close>, \<^verbatim>\<open>req_borrow\<close>, \<^verbatim>\<open>req_lend\<close>,
    \<^verbatim>\<open>req_list_devices\<close>), \<open>Device_List\<close> the list of devices (\<^verbatim>\<open>get_usb_devices\<close>, \<^verbatim>\<open>UsbDeviceInfo\<close>), and \<open>Server\<close>
    the task that accepts connections and collects the results of the sessions (\<^verbatim>\<open>Server::serve\<close>,
    \<^verbatim>\<open>ReqHandler::open_session\<close>).
  \<^item> After a borrow or lend request the stream carries frames in both directions. \<open>Proto_Msg\<close> has the
    types and their bytes, \<open>Proto_Data\<close> the receive buffer and the typed slices cut from it, \<open>Proto_Frame\<close>
    frames, \<^verbatim>\<open>recv_frame\<close> and \<^verbatim>\<open>parse_frame\<close> (\<^verbatim>\<open>qusb-proto/src\<close>); \<open>Wire\<close> specifies the byte streams.
  \<^item> On the borrower, \<open>Stub_Demux\<close> hands the work of the driver to the mailbox of its device
    (\<^verbatim>\<open>qusb/src/stub.rs\<close>, over the \<^verbatim>\<open>ThreeKeyMap\<close> of \<^verbatim>\<open>utils.rs\<close>, \<open>Three_Key_Map\<close>), and \<open>Stub_Controller\<close> puts the
    clients, channels and threads around it. \<open>Borrow_Loop\<close> has the loops of \<^verbatim>\<open>qusb-borrow/src/lib.rs\<close> that
    turn work into frames and frames into replies, \<open>Borrow_Operator\<close> their handlers
    (\<^verbatim>\<open>BorrowSendHandler\<close>, \<^verbatim>\<open>BorrowRecvHandler\<close> of \<^verbatim>\<open>qusb/src/operator.rs\<close>), \<open>Vhci\<close> what they use of the crate
    \<^verbatim>\<open>vhci\<close>.
  \<^item> On the lender, \<open>Lend_Loop\<close> has the loops of \<^verbatim>\<open>qusb-lend/src\<close>, \<open>Lend_Operator\<close> and \<open>Lend_Requests\<close> the
    handlers (\<^verbatim>\<open>LendRecvHandler\<close>, \<^verbatim>\<open>LendSendHandler\<close>): the first the buffers, completions and replies one by
    one, the second the requests from submission to completion. \<open>Transfer_Cache\<close> has the caches of
    transfers and the allocator that they use, over the ordered maps of \<open>Ordered_Map\<close>, \<open>Stats\<close> the wrappers
    that count and time requests, \<open>Device_Handle\<close> the device itself (\<^verbatim>\<open>operator/lend/device.rs\<close>), and
    \<open>Blocking_Ctrl\<close> the control requests that change the device on a thread of their own
    (\<^verbatim>\<open>operator/lend/blocking.rs\<close>, \<^verbatim>\<open>qusb-lend/src/ctrl.rs\<close>).
  \<^item> \<open>Send_Loop\<close> is what the two send loops share, \<open>Races\<close> the futures that they wait for (\<^verbatim>\<open>MaybeFut\<close> of
    \<^verbatim>\<open>utils/src/lib.rs\<close>), \<open>End_To_End\<close> composes both sides, \<open>Usb_Ids\<close> is the database of names (\<^verbatim>\<open>usb_ids.rs\<close>).
  \<^item> \<open>Cli_Args\<close> has the arguments of the command line (\<^verbatim>\<open>qusb-cli/src/args.rs\<close>), \<open>Program\<close> the program that
    starts the server and shuts it down (\<^verbatim>\<open>qusb-cli/src/main.rs\<close>), and \<open>Qusb_Prelude\<close> the vocabulary of all
    theories.

  \<^bold>\<open>How the code is translated.\<close> A function that can panic returns a \<open>run\<close>: \<open>Ret\<close>, \<open>Panic\<close> (\<^verbatim>\<open>unwrap\<close>, \<^verbatim>\<open>assert!\<close>,
  \<^verbatim>\<open>todo!\<close>, \<^verbatim>\<open>unimplemented!\<close>, an index out of range) or \<open>Undef\<close>, a broken contract of an \<^verbatim>\<open>unsafe\<close> call; a \<^verbatim>\<open>Result\<close>
  is a sum with the error on the left. Integers of the wire are words; lengths (\<^verbatim>\<open>usize\<close>) are naturals
  below \<open>2 ^ 64\<close>, whose subtractions and sums panic or wrap by the flag \<open>chk\<close> of the build profile. A
  struct with \<^verbatim>\<open>&mut self\<close> methods is a record that they return updated. The tasks are state machines: a
  loop is a step function, and an event is what the race of its futures yields, so that a theorem about
  all event lists holds for all schedules.

  \<^bold>\<open>Interfaces.\<close> \<open>layout\<close> and \<open>byte_enum\<close> (\<open>Qusb_Prelude\<close>): types that cross the wire, interpreted for each
  struct and enum. \<open>flush_handler\<close>, \<open>borrow_handler\<close>, \<open>lend_handler\<close>: what the loops need of a handler,
  interpreted on the two send handlers. \<open>linked_store\<close>: what the demultiplexer needs of the three-key
  map. \<open>transfer_cache\<close>: what the pool of transfers needs of its two caches.

  \<^bold>\<open>What the lemmas show.\<close>

  \<^item> The wire: every layout is read back; a stream of well-formed frames is received as exactly these
    frames whatever pieces it arrives in, and \<^verbatim>\<open>recv_frame\<close> returns for every reader; what it hands out
    keeps the \<^verbatim>\<open>unsafe\<close> contracts of \<^verbatim>\<open>parse_frame\<close>.
  \<^item> Each side: the bytes that a send loop writes are whole messages of the other side's parser; no
    request is lost or answered twice; sequence numbers, tokens, transfers under way and mailboxes are
    never mixed up; a cancellation meets its transfer; the statistics change nothing and their counters
    are exact until one of them overflows. From every
    reachable state a send loop can write out what it has collected. \<open>borrow_races_exact\<close> justifies the
    events of the send loops from the futures that they race.
  \<^item> Together: the data of a request reaches the device, the data of the device reaches the request that
    asked for it, a list of devices is read as it was written, and both sides of a handshake agree.
  \<^item> The database of names: which names of a file in the format of the shipped one are found again, and
    which the parser loses (\<open>kept_db\<close>).
  \<^item> Refinement: the three-key map is one map from keys to values, the demultiplexer one map from ports,
    addresses and requests to mailboxes.
  \<^item> Device and server: the table of claimed interfaces is true except after a failure that the code
    leaves behind, also while the threads of control requests interleave; each session reports once and can
    always report.
  \<^item> Flaws: theorems that state where the code panics, waits forever or forgets (\<open>shutdown_hangs\<close>,
    \<open>demux_never_ends\<close>, \<open>demux_deadlocks\<close>, \<open>loan_stops_server\<close>, \<open>stale_address_misroutes\<close>,
    \<open>program_never_succeeds\<close>, \<open>control_poll_panics\<close>, \<open>repeated_number_shares_token\<close>, \<open>parse_frame_cases\<close>,
    \<open>refusal_panics\<close> and others), with runs that reach these states.

  \<^bold>\<open>Loops and bounds.\<close> \<^verbatim>\<open>recv_frame\<close> and the draining of a stream are \<open>partial_function (option)\<close>, where \<open>None\<close>
  is a loop that does not end: \<open>recv_frame_returns\<close> excludes it for every reader, as the loop makes at most
  two rounds. Reading into the buffer recurses on its free room. \<open>iter_dst_take\<close> takes the number of steps of
  an iterator as fuel; the property on lists of devices holds for any number not below that of the
  devices. Other loops recurse on their data. The constants (\<open>SCRATCH_LEN\<close>, \<open>LIST_LEN\<close>, \<open>NUM_INTERFACES\<close>,
  \<open>TASK_ROOM\<close>, \<open>TASKS_ROOM\<close>, \<open>GIVEBACK_ROOM\<close> and so on) are those of the code. Runs of the demultiplexer are
  bounded by \<open>2 ^ 63\<close> events, because the reference counts are machine integers.

  \<^bold>\<open>Conditions on the peer.\<close> Messages are below 64 KiB, the greatest length of a frame (\<open>urb_fits\<close>, \<open>work_fits\<close>,
  \<open>reply_fits\<close>): the properties of the bytes sent have this condition. The lender registers its
  tokens under the sequence numbers that the peer chooses, and does not check them: \<open>serve\<close> has the runs
  in which no number is used again while it is in use, \<open>serve_any\<close> all runs. What needs the condition
  says so, and \<open>repeated_number_shares_token\<close> what happens without it.

  \<^bold>\<open>Parameters\<close>, for what is not in this repository, with hypotheses that say what is documented of it: the
  allocator of \<^verbatim>\<open>bytes\<close> (\<open>alloc_ok\<close>, \<open>bytes_mut_ok\<close>), the stream (\<open>stream_reader\<close>), the driver's types and
  calls (\<open>vhci_ops\<close>, \<open>borrow_env\<close>, the layout of its packet descriptors), libusb (\<open>usb_ops\<close> with \<open>libusb_ok\<close>;
  the outcomes of transfers), the devices that \<^verbatim>\<open>nusb\<close> reports, the order of the fields of \<^verbatim>\<open>ReqFrame\<close>, which
  the code leaves to the compiler. Each property with such a hypothesis has a witness on a concrete
  instance (\<open>exact_alloc\<close>, \<open>chunk_reader\<close>, \<open>stub_vhci\<close>, \<open>small_usb\<close> and others).

  \<^bold>\<open>Not modelled.\<close> The examples, because they only set up endpoints; the QUIC endpoint, TLS, the parser of
  options and the runtime, which are crates (\<open>Program\<close> starts after the options are parsed, where the parser
  may already have ended the program); the channels and timers of \<^verbatim>\<open>utils\<close> and \<^verbatim>\<open>utils/src\<close>, which wrap
  those of crates and appear as queues and events (the timer computes with floating point numbers; the
  results that the lender's receive loop hands to its send loop are a list without a bound); the
  trait implementations that only forward to a field; \<^verbatim>\<open>Display\<close> of errors and statistics, tracing, and
  tests. In \<open>Stub_Demux\<close> a mailbox has room for everything that is sent to it; \<open>Stub_Controller\<close> adds that the
  task waits when the mailbox holds one item already. In \<open>Blocking_Ctrl\<close> threads interleave between the parts of a
  change of the configuration, where the lock of the table is free; a sweep under the lock is one step,
  so that calls of other threads do not fall within it. Which tasks share a thread of the runtime is left open.
\<close>

end
